(* ===== verification/C_Prelude.thy ===== *)
theory C_Prelude
  imports Main "HOL-Library.Word"
begin

text \<open>
  Shared vocabulary of the development: results of C code that may hit undefined
  behaviour or leave the process, the parts of the C library the sources call on
  strings and numbers, growable byte buffers, and the proof collections used by the
  component theories.

  Conventions. A C string is the HOL string of its characters before the terminating
  NUL. A byte is an \<open>8 word\<close>. A cell of a malloc'ed buffer is an \<open>option\<close>,
  \<open>None\<close> standing for a byte that was allocated and never written. The target is
  the one the Makefiles build for, 32-bit Linux: \<open>int\<close>, \<open>long\<close>, \<open>unsigned\<close> and
  \<open>size_t\<close> have 32 bits.
\<close>

unbundle bit_operations_syntax

named_theorems res_intro "facts that turn a successful result into its components"
named_theorems model_defs "definitions a component proof unfolds"

section \<open>Results\<close>

text \<open>
  What can go wrong in the C code: an access through NULL or a freed block, an access
  outside an array, a signed overflow, a division by zero, a call of \<open>exit\<close>; \<open>No_Return\<close> is the value
  of a loop whose fuel ran out.
\<close>

datatype fault = Bad_Pointer | Out_Of_Bounds | Signed_Overflow | Div_Zero | Exited | No_Return

type_synonym 'a res = "fault + 'a"
type_synonym uchar = "8 word"
type_synonym uint32 = "32 word"

fun bindR :: "'e + 'a \<Rightarrow> ('a \<Rightarrow> 'e + 'b) \<Rightarrow> 'e + 'b" where
  "bindR (Inl e) f = Inl e"
| "bindR (Inr x) f = f x"

lemma bindR_Inr_iff [simp]: "bindR m f = Inr y \<longleftrightarrow> (\<exists>x. m = Inr x \<and> f x = Inr y)"
  by (cases m) auto

lemma bindR_Inl_iff:
  "bindR m f = Inl e \<longleftrightarrow> m = Inl e \<or> (\<exists>x. m = Inr x \<and> f x = Inl e)"
  by (cases m) auto

lemma bindR_assoc: "bindR (bindR m f) g = bindR m (\<lambda>x. bindR (f x) g)"
  by (cases m) simp_all

definition checkR :: "bool \<Rightarrow> fault \<Rightarrow> unit res" where
  "checkR b e = (if b then Inr () else Inl e)"

lemma checkR_simps [simp]: "checkR True e = Inr ()" "checkR False e = Inl e"
  by (simp_all add: checkR_def)

lemma checkR_Inr_iff [simp]: "checkR b e = Inr u \<longleftrightarrow> b"
  by (cases u) (simp add: checkR_def)

section \<open>Machine integers\<close>

definition int_max :: int where "int_max = 2147483647"
definition int_min :: int where "int_min = - 2147483648"

text \<open>The result of an \<open>int\<close> operation: undefined where it does not fit.\<close>

definition c_int :: "int \<Rightarrow> int res" where
  "c_int x = (if int_min \<le> x \<and> x \<le> int_max then Inr x else Inl Signed_Overflow)"

lemma c_int_ok [simp]: "int_min \<le> x \<Longrightarrow> x \<le> int_max \<Longrightarrow> c_int x = Inr x"
  by (simp add: c_int_def)

lemma c_int_Inr_iff: "c_int x = Inr y \<longleftrightarrow> int_min \<le> x \<and> x \<le> int_max \<and> y = x"
  by (auto simp: c_int_def)

lemma sint_time: "0 \<le> t \<Longrightarrow> t \<le> int_max \<Longrightarrow> sint (word_of_int t :: uint32) = t"
  by (simp add: int_word_sint int_max_def)

text \<open>C's \<open>/\<close> on \<open>int\<close> truncates towards zero.\<close>

definition c_div :: "int \<Rightarrow> int \<Rightarrow> int" where
  "c_div a b = sgn a * sgn b * (\<bar>a\<bar> div \<bar>b\<bar>)"

definition c_mod :: "int \<Rightarrow> int \<Rightarrow> int" where
  "c_mod a b = a - b * c_div a b"

lemma c_mod_pos: "0 \<le> a \<Longrightarrow> 0 < b \<Longrightarrow> c_mod a b = a mod b"
  by (cases "a = 0") (simp_all add: c_mod_def c_div_def minus_mult_div_eq_mod)

definition clamp_int :: "int \<Rightarrow> int" where
  "clamp_int x = max int_min (min int_max x)"

section \<open>Characters and strings\<close>

definition ord :: "char \<Rightarrow> int" where
  "ord c = of_char c"

definition isgraph :: "char \<Rightarrow> bool" where
  "isgraph c \<longleftrightarrow> 33 \<le> ord c \<and> ord c \<le> 126"

definition isspace :: "char \<Rightarrow> bool" where
  "isspace c \<longleftrightarrow> ord c = 32 \<or> (9 \<le> ord c \<and> ord c \<le> 13)"

definition isdigit :: "char \<Rightarrow> bool" where
  "isdigit c \<longleftrightarrow> 48 \<le> ord c \<and> ord c \<le> 57"

abbreviation NUL :: char where "NUL \<equiv> CHR 0x00"
abbreviation NL :: char where "NL \<equiv> CHR 0x0A"
abbreviation CR :: char where "CR \<equiv> CHR 0x0D"

lemma ord_bounds [simp]: "0 \<le> ord c" "ord c < 256"
proof -
  have eq: "ord c = int (of_char c)" by (simp add: ord_def of_nat_of_char)
  show "0 \<le> ord c" by (simp add: eq)
  show "ord c < 256" using nat_of_char_less_256 [of c] by (simp add: eq)
qed

lemma char_of_ord [simp]: "char_of (ord c) = c"
  by (simp add: ord_def)

lemma ord_char_of: "ord (char_of n) = (n mod 256 :: int)"
  by (simp add: ord_def)

text \<open>The string a buffer holds: its characters before the first NUL.\<close>

definition cstr :: "string \<Rightarrow> string" where
  "cstr = takeWhile (\<lambda>c. c \<noteq> NUL)"

text \<open>\<open>strncmp(s, t, n) == 0\<close> on two C strings.\<close>

fun strncmp_eq :: "nat \<Rightarrow> string \<Rightarrow> string \<Rightarrow> bool" where
  "strncmp_eq 0 s t = True"
| "strncmp_eq (Suc n) [] [] = True"
| "strncmp_eq (Suc n) [] (y # t) = False"
| "strncmp_eq (Suc n) (x # s) [] = False"
| "strncmp_eq (Suc n) (x # s) (y # t) = (x = y \<and> strncmp_eq n s t)"

lemma strncmp_eq_take: "strncmp_eq n s t \<longleftrightarrow> take n s = take n t"
  by (induction n s t rule: strncmp_eq.induct) auto

fun is_prefix :: "string \<Rightarrow> string \<Rightarrow> bool" where
  "is_prefix [] t = True"
| "is_prefix (x # s) [] = False"
| "is_prefix (x # s) (y # t) = (x = y \<and> is_prefix s t)"

lemma is_prefix_iff: "is_prefix s t \<longleftrightarrow> (\<exists>u. t = s @ u)"
  by (induction s t rule: is_prefix.induct) auto

text \<open>\<open>strstr\<close>: the index of the first occurrence.\<close>

fun strstr :: "string \<Rightarrow> string \<Rightarrow> nat option" where
  "strstr [] needle = (if needle = [] then Some 0 else None)"
| "strstr (c # hay) needle =
     (if is_prefix needle (c # hay) then Some 0 else map_option Suc (strstr hay needle))"

lemma strstr_Some:
  "strstr hay needle = Some i \<Longrightarrow> \<exists>u. hay = take i hay @ needle @ u"
proof (induction hay arbitrary: i)
  case Nil
  then show ?case by (auto split: if_splits)
next
  case (Cons c hay)
  show ?case
  proof (cases "is_prefix needle (c # hay)")
    case True
    with Cons.prems show ?thesis by (auto simp: is_prefix_iff)
  next
    case False
    with Cons.prems obtain j where "strstr hay needle = Some j" and "i = Suc j" by auto
    with Cons.IH show ?thesis by fastforce
  qed
qed

lemma strstr_bound: "strstr hay needle = Some i \<Longrightarrow> i + length needle \<le> length hay"
proof -
  assume "strstr hay needle = Some i"
  then obtain u where eq: "hay = take i hay @ needle @ u" using strstr_Some by blast
  have "i \<le> length hay"
    using \<open>strstr hay needle = Some i\<close> by (induction hay arbitrary: i) (auto split: if_splits)
  with arg_cong [OF eq, of length] show ?thesis by simp
qed

lemma is_prefix_append: "is_prefix s t \<Longrightarrow> is_prefix s (t @ u)"
  by (auto simp: is_prefix_iff)

lemma is_prefix_short: "is_prefix s (t @ u) \<Longrightarrow> length s \<le> length t \<Longrightarrow> is_prefix s t"
  by (induction s t rule: is_prefix.induct) auto

text \<open>The first occurrence stays the first one when the string goes on.\<close>

lemma strstr_append: "strstr s needle = Some i \<Longrightarrow> strstr (s @ t) needle = Some i"
proof (induction s arbitrary: i)
  case Nil
  then show ?case by (cases t) (auto split: if_splits)
next
  case (Cons c s)
  show ?case
  proof (cases "is_prefix needle (c # s)")
    case True
    with Cons.prems is_prefix_append [OF True, of t] show ?thesis by simp
  next
    case False
    with Cons.prems obtain j where j: "strstr s needle = Some j" "i = Suc j" by auto
    from strstr_bound [OF j(1)] have "length needle \<le> length (c # s)" by simp
    with False have "\<not> is_prefix needle (c # s @ t)"
      using is_prefix_short [of needle "c # s" t] by auto
    with Cons.IH [OF j(1)] j(2) show ?thesis by simp
  qed
qed

lemma cstr_append: "NUL \<notin> set s \<Longrightarrow> cstr (s @ t) = s @ cstr t"
  unfolding cstr_def by (induction s) auto

section \<open>Numbers in text\<close>

fun dec_value :: "int \<Rightarrow> string \<Rightarrow> int" where
  "dec_value acc [] = acc"
| "dec_value acc (c # cs) =
     (if isdigit c then dec_value (acc * 10 + (ord c - 48)) cs else acc)"

definition split_sign :: "string \<Rightarrow> bool \<times> string" where
  "split_sign s = (case s of [] \<Rightarrow> (False, s)
     | c # cs \<Rightarrow> if c = CHR ''-'' then (True, cs)
                else if c = CHR ''+'' then (False, cs) else (False, s))"

text \<open>\<open>atoi\<close>: white space, a sign, decimal digits; the value saturates as \<open>strtol\<close> does.\<close>

definition atoi :: "string \<Rightarrow> int" where
  "atoi s = (let (neg, ds) = split_sign (dropWhile isspace s); v = dec_value 0 ds
     in clamp_int (if neg then - v else v))"

lemma atoi_bounds: "int_min \<le> atoi s" "atoi s \<le> int_max"
  by (auto simp: atoi_def clamp_int_def int_min_def int_max_def Let_def split: prod.splits)

lemma atoi_Nil [simp]: "atoi [] = 0"
  by (simp add: atoi_def split_sign_def clamp_int_def int_min_def int_max_def)

text \<open>\<open>%u\<close> of \<open>printf\<close>.\<close>

fun dec_string :: "nat \<Rightarrow> string" where
  "dec_string n =
     (if n < 10 then [char_of (48 + n)] else dec_string (n div 10) @ [char_of (48 + n mod 10)])"

declare dec_string.simps [simp del]

text \<open>\<open>%d\<close>.\<close>

definition dec_int :: "int \<Rightarrow> string" where
  "dec_int i = (if i < 0 then CHR ''-'' # dec_string (nat (- i)) else dec_string (nat i))"

lemma length_dec_string: "n < 10 ^ k \<Longrightarrow> 0 < k \<Longrightarrow> length (dec_string n) \<le> k"
proof (induction k arbitrary: n)
  case 0
  then show ?case by simp
next
  case (Suc k)
  show ?case
  proof (cases "n < 10")
    case True
    then show ?thesis by (simp add: dec_string.simps)
  next
    case False
    with Suc.prems have "0 < k" by (cases k) auto
    moreover have "n div 10 < 10 ^ k" using Suc.prems by (simp add: less_mult_imp_div_less)
    ultimately show ?thesis using Suc.IH False by (subst dec_string.simps) simp
  qed
qed

lemma dec_value_append: "list_all isdigit xs \<Longrightarrow> dec_value acc (xs @ ys) = dec_value (dec_value acc xs) ys"
  by (induction xs arbitrary: acc) auto

lemma dec_value_mono: "0 \<le> acc \<Longrightarrow> acc \<le> dec_value acc xs"
proof (induction xs arbitrary: acc)
  case (Cons c xs)
  show ?case
  proof (cases "isdigit c")
    case True
    then have "0 \<le> ord c - 48" by (simp add: isdigit_def)
    with Cons.prems have "0 \<le> acc * 10 + (ord c - 48)" "acc \<le> acc * 10 + (ord c - 48)" by simp_all
    with Cons.IH [OF this(1)] True show ?thesis by simp
  qed simp
qed simp

lemma isdigit_char_of: "n < 10 \<Longrightarrow> isdigit (char_of (48 + n)) \<and> ord (char_of (48 + n :: nat)) = 48 + int n"
proof -
  assume n: "n < 10"
  have "ord (char_of (48 + n)) = int (of_char (char_of (48 + n)))" by (simp only: ord_def of_nat_of_char)
  also have "\<dots> = 48 + int n" using n by (simp only: of_char_of) simp
  finally show ?thesis using n by (simp add: isdigit_def)
qed

lemma dec_string_digits: "list_all isdigit (dec_string n) \<and> dec_string n \<noteq> [] \<and> dec_value 0 (dec_string n) = int n"
proof (induction n rule: dec_string.induct)
  case (1 n)
  show ?case
  proof (cases "n < 10")
    case True
    then show ?thesis using isdigit_char_of [of n] by (subst (1 2 3) dec_string.simps) simp
  next
    case False
    have d: "isdigit (char_of (48 + n mod 10)) \<and> ord (char_of (48 + n mod 10)) = 48 + int (n mod 10)"
      by (rule isdigit_char_of) simp
    have "int (n div 10) * 10 + int (n mod 10) = int n" by presburger
    with 1 [OF False] d False show ?thesis
      by (subst (1 2 3) dec_string.simps) (simp add: dec_value_append)
  qed
qed

section \<open>Exclusive or of bytes\<close>

definition xor_bytes :: "uchar list \<Rightarrow> uchar" where
  "xor_bytes bs = fold (\<lambda>b c. c XOR b) bs 0"

lemma fold_xor: "fold (\<lambda>b c. c XOR b) bs (x :: uchar) = x XOR fold (\<lambda>b c. c XOR b) bs 0"
proof (induction bs arbitrary: x)
  case Nil
  then show ?case by simp
next
  case (Cons b bs)
  have "fold (\<lambda>b c. c XOR b) bs (x XOR b) = (x XOR b) XOR fold (\<lambda>b c. c XOR b) bs 0"
    by (rule Cons)
  moreover have "fold (\<lambda>b c. c XOR b) bs (0 XOR b) = b XOR fold (\<lambda>b c. c XOR b) bs 0"
    using Cons [of "0 XOR b"] by simp
  ultimately show ?case by (simp add: xor.assoc)
qed

lemma xor_bytes_simps [simp]: "xor_bytes [] = 0" "xor_bytes (b # bs) = b XOR xor_bytes bs"
  "xor_bytes (as @ bs) = xor_bytes as XOR xor_bytes bs"
  using fold_xor [of bs b] fold_xor [of bs "fold (\<lambda>b c. c XOR b) as 0"]
  by (simp_all add: xor_bytes_def)

lemma xor_eq_0_iff: "a XOR b = 0 \<longleftrightarrow> a = (b :: uchar)"
proof
  assume "a XOR b = 0"
  then have "(a XOR b) XOR b = b" by simp
  then show "a = b" by (simp add: xor.assoc)
qed simp

section \<open>Growable byte buffers\<close>

text \<open>
  A block from \<open>malloc\<close>/\<open>realloc\<close> is a list of cells. \<open>realloc\<close> keeps the common
  prefix and leaves the rest unwritten; \<open>memcpy\<close> into a block is undefined outside it.
\<close>

definition realloc_buf :: "nat \<Rightarrow> 'a option list \<Rightarrow> 'a option list" where
  "realloc_buf n b = take n b @ replicate (n - length b) None"

definition memcpy_at :: "nat \<Rightarrow> 'a list \<Rightarrow> 'a option list \<Rightarrow> 'a option list res" where
  "memcpy_at i xs b =
     (if i + length xs \<le> length b
      then Inr (take i b @ map Some xs @ drop (i + length xs) b)
      else Inl Out_Of_Bounds)"

definition read_at :: "nat \<Rightarrow> nat \<Rightarrow> 'a option list \<Rightarrow> 'a option list res" where
  "read_at i n b = (if i + n \<le> length b then Inr (take n (drop i b)) else Inl Out_Of_Bounds)"

lemma length_realloc_buf [simp]: "length (realloc_buf n b) = n"
  by (auto simp: realloc_buf_def)

lemma take_realloc_buf [simp]:
  "k \<le> n \<Longrightarrow> k \<le> length b \<Longrightarrow> take k (realloc_buf n b) = take k b"
  by (simp add: realloc_buf_def min_def)

lemma length_memcpy_at: "memcpy_at i xs b = Inr b' \<Longrightarrow> length b' = length b"
  by (auto simp: memcpy_at_def split: if_splits)

lemma memcpy_at_append:
  assumes "memcpy_at i xs b = Inr b'"
  shows "take (i + length xs) b' = take i b @ map Some xs"
  using assms by (auto simp: memcpy_at_def split: if_splits)

lemma memcpy_at_ok: "i + length xs \<le> length b \<Longrightarrow> \<exists>b'. memcpy_at i xs b = Inr b'"
  by (simp add: memcpy_at_def)

section \<open>Cutting a list into pieces\<close>

text \<open>The packets of a byte stream, the requests of a batch.\<close>

fun chop :: "nat \<Rightarrow> 'a list \<Rightarrow> 'a list list" where
  "chop n xs = (if n = 0 \<or> xs = [] then [] else take n xs # chop n (drop n xs))"

declare chop.simps [simp del]

lemma chop_Nil [simp]: "chop n [] = []"
  by (simp add: chop.simps)

lemma chop_append: "n dvd length xs \<Longrightarrow> chop n (xs @ ys) = chop n xs @ chop n ys"
proof (induction n xs rule: chop.induct)
  case (1 n xs)
  show ?case
  proof (cases "n = 0 \<or> xs = []")
    case True
    with "1.prems" show ?thesis by (auto simp: chop.simps [of 0])
  next
    case False
    with "1.prems" have "n \<le> length xs" by (auto intro: dvd_imp_le)
    with 1 False show ?thesis
      by (simp add: chop.simps [of n xs] chop.simps [of n "xs @ ys"] dvd_diff_nat)
  qed
qed

lemma chop_single: "0 < n \<Longrightarrow> length xs = n \<Longrightarrow> chop n xs = [xs]"
  by (subst chop.simps) auto

lemma chop_concat: "0 < n \<Longrightarrow> list_all (\<lambda>x. length x = n) xs \<Longrightarrow> chop n (concat xs) = xs"
  by (induction xs) (simp_all add: chop_append chop_single)

lemma in_chop: "c \<in> set (chop n xs) \<Longrightarrow> c \<noteq> [] \<and> set c \<subseteq> set xs"
proof (induction n xs rule: chop.induct)
  case (1 n xs)
  then show ?case
    by (subst (asm) (2) chop.simps) (auto split: if_splits dest: in_set_takeD in_set_dropD)
qed

lemma length_chop: "0 < n \<Longrightarrow> length xs = m * n \<Longrightarrow> length (chop n xs) = m"
proof (induction m arbitrary: xs)
  case 0
  then show ?case by simp
next
  case (Suc m)
  then have "xs \<noteq> []" by auto
  with Suc show ?case by (simp add: chop.simps [of n xs])
qed

text \<open>A prefix of whole pieces consists of the first of them.\<close>

lemma concat_prefix:
  assumes "0 < n" "list_all (\<lambda>x. length x = n) xs" "concat xs = a @ b" "n dvd length a"
  obtains ys zs where "xs = ys @ zs" "a = concat ys" "b = concat zs"
proof -
  have c: "xs = chop n a @ chop n b"
    using chop_concat [OF assms(1,2)] assms(3) chop_append [OF assms(4)] by simp
  have "concat (chop n ws) = ws" for ws :: "'a list"
    using assms(1)
  proof (induction n ws rule: chop.induct)
    case (1 n ws)
    then show ?case by (cases "ws = []") (simp_all add: chop.simps [of n ws])
  qed
  with c that [of "chop n a" "chop n b"] show thesis by simp
qed

section \<open>A contract for queues that grow at their end\<close>

text \<open>
  Both queues of the program (\<open>notify_queue\<close> of the merger, \<open>send_queue\<close> of the
  receiver) promise the same to the threads that fill them: a successful enqueue appends
  the entry's bytes to the contents and keeps the invariant, and an enqueue can fail in
  the listed ways only.
\<close>

locale append_queue =
  fixes enq :: "'r \<Rightarrow> 'q \<Rightarrow> 'q res"
    and bytes :: "'r \<Rightarrow> 'a list"
    and contents :: "'q \<Rightarrow> 'a list"
    and invar :: "'q \<Rightarrow> bool"
    and entry :: "'r \<Rightarrow> bool"
    and faults :: "fault set"
  assumes enq_invar: "invar q \<Longrightarrow> entry r \<Longrightarrow> enq r q = Inr q' \<Longrightarrow> invar q'"
    and enq_contents:
      "invar q \<Longrightarrow> entry r \<Longrightarrow> enq r q = Inr q' \<Longrightarrow> contents q' = contents q @ bytes r"
    and enq_faults: "invar q \<Longrightarrow> entry r \<Longrightarrow> enq r q = Inl e \<Longrightarrow> e \<in> faults"
begin

primrec enq_all :: "'r list \<Rightarrow> 'q \<Rightarrow> 'q res" where
  "enq_all [] q = Inr q"
| "enq_all (r # rs) q = bindR (enq r q) (enq_all rs)"

lemma enq_all_correct:
  "invar q \<Longrightarrow> \<forall>r\<in>set rs. entry r \<Longrightarrow> enq_all rs q = Inr q' \<Longrightarrow>
    invar q' \<and> contents q' = contents q @ concat (map bytes rs)"
proof (induction rs arbitrary: q)
  case Nil
  then show ?case by simp
next
  case (Cons r rs)
  then obtain q1 where q1: "enq r q = Inr q1" "enq_all rs q1 = Inr q'" by auto
  with Cons.prems have "invar q1" "contents q1 = contents q @ bytes r"
    using enq_invar enq_contents by auto
  with Cons.IH [OF _ _ q1(2)] Cons.prems show ?case by simp
qed

lemma enq_all_faults:
  "invar q \<Longrightarrow> \<forall>r\<in>set rs. entry r \<Longrightarrow> enq_all rs q = Inl e \<Longrightarrow> e \<in> faults"
proof (induction rs arbitrary: q)
  case Nil
  then show ?case by simp
next
  case (Cons r rs)
  show ?case
  proof (cases "enq r q")
    case (Inl e')
    with Cons.prems enq_faults [of q r e'] show ?thesis by auto
  next
    case (Inr q1)
    with Cons.prems have "invar q1" using enq_invar by auto
    with Cons Inr show ?thesis by simp
  qed
qed

lemma enq_all_cases:
  assumes "invar q" "\<forall>r\<in>set rs. entry r"
  shows "(\<exists>e\<in>faults. enq_all rs q = Inl e) \<or>
    (\<exists>q'. enq_all rs q = Inr q' \<and> invar q' \<and> contents q' = contents q @ concat (map bytes rs))"
proof (cases "enq_all rs q")
  case (Inl e)
  with enq_all_faults [OF assms] show ?thesis by auto
next
  case (Inr q')
  with enq_all_correct [OF assms] show ?thesis by auto
qed

end

section \<open>A contract for encoders\<close>

text \<open>An encoder of the program and the decoder its reader applies.\<close>

locale codec =
  fixes enc :: "'a \<Rightarrow> 'b" and dec :: "'b \<Rightarrow> 'a option" and valid :: "'a \<Rightarrow> bool"
  assumes dec_enc: "valid x \<Longrightarrow> dec (enc x) = Some x"
begin

lemma enc_inj: "valid x \<Longrightarrow> valid y \<Longrightarrow> enc x = enc y \<longleftrightarrow> x = y"
  by (metis dec_enc option.inject)

end

section \<open>A contract for refinement\<close>

text \<open>
  A component whose every operation either stops the program in one of the listed ways or
  follows an abstract operation: then so does every sequence of operations.
\<close>

locale simulation =
  fixes rel :: "'a \<Rightarrow> 's \<Rightarrow> bool"
    and astep :: "'i \<Rightarrow> 'a \<Rightarrow> 'a"
    and cstep :: "'i \<Rightarrow> 's \<Rightarrow> 's res"
    and input_ok :: "'i \<Rightarrow> 'a \<Rightarrow> bool"
    and stops :: "fault set"
  assumes step_law: "rel a s \<Longrightarrow> input_ok i a \<Longrightarrow>
    (\<exists>e\<in>stops. cstep i s = Inl e) \<or> (\<exists>s'. cstep i s = Inr s' \<and> rel (astep i a) s')"
begin

primrec crun :: "'i list \<Rightarrow> 's \<Rightarrow> 's res" where
  "crun [] s = Inr s"
| "crun (i # js) s = bindR (cstep i s) (crun js)"

primrec inputs_ok :: "'i list \<Rightarrow> 'a \<Rightarrow> bool" where
  "inputs_ok [] a = True"
| "inputs_ok (i # js) a = (input_ok i a \<and> inputs_ok js (astep i a))"

lemma crun_simulates:
  "rel a s \<Longrightarrow> inputs_ok js a \<Longrightarrow>
    (\<exists>e\<in>stops. crun js s = Inl e) \<or> (\<exists>s'. crun js s = Inr s' \<and> rel (fold astep js a) s')"
proof (induction js arbitrary: a s)
  case Nil
  then show ?case by simp
next
  case (Cons i js)
  have i: "input_ok i a" "inputs_ok js (astep i a)" using Cons.prems(2) by simp_all
  from step_law [OF Cons.prems(1) i(1)] show ?case
  proof (elim disjE exE conjE bexE)
    fix s'
    assume s': "cstep i s = Inr s'" "rel (astep i a) s'"
    from Cons.IH [OF s'(2) i(2)] s'(1) show ?thesis by simp
  qed auto
qed

end

end
