(* ===== verification/Dict.thy ===== *)
theory Dict
  imports C_Prelude
begin

text \<open>
  \<open>common/dict.c\<close>: a dictionary is a singly linked list of heap nodes behind a
  sentinel. The model keeps the heap: a node is an allocated cell of a finite arena,
  \<open>next\<close> is an address, \<open>free\<close> makes a cell unusable until \<open>malloc\<close> hands it out
  again. The operations are the source's loops over pointers; every access through NULL
  or a freed cell is the result \<open>Bad_Pointer\<close>. They are shown to implement a finite map
  and never to leave the memory of the dictionary they are given.
\<close>

section \<open>The heap\<close>

type_synonym addr = nat

text \<open>\<open>struct dict_item\<close>; the sentinel has the key NULL.\<close>

record dict_item =
  di_key :: "string option"
  di_value :: uint32
  di_next :: addr

text \<open>The arena of nodes; address 0 is NULL and its cell is never used.\<close>

type_synonym heap = "dict_item option list"

definition cell :: "heap \<Rightarrow> addr \<Rightarrow> dict_item option" where
  "cell h a = (if 0 < a \<and> a < length h then h ! a else None)"

definition load :: "heap \<Rightarrow> addr \<Rightarrow> dict_item res" where
  "load h a = (case cell h a of None \<Rightarrow> Inl Bad_Pointer | Some it \<Rightarrow> Inr it)"

definition store :: "heap \<Rightarrow> addr \<Rightarrow> dict_item \<Rightarrow> heap res" where
  "store h a it =
     (case cell h a of None \<Rightarrow> Inl Bad_Pointer | Some _ \<Rightarrow> Inr (h[a := Some it]))"

definition free :: "heap \<Rightarrow> addr \<Rightarrow> heap res" where
  "free h a = (case cell h a of None \<Rightarrow> Inl Bad_Pointer | Some _ \<Rightarrow> Inr (h[a := None]))"

text \<open>
  \<open>safe_malloc\<close> of a node, followed by the assignments of all its members: the first
  free cell, or \<open>exit(1)\<close> when none is left.
\<close>

definition safe_malloc :: "dict_item \<Rightarrow> heap \<Rightarrow> (addr \<times> heap) res" where
  "safe_malloc it h =
     (case filter (\<lambda>a. h ! a = None) [1..<length h] of
        [] \<Rightarrow> Inl Exited
      | a # _ \<Rightarrow> Inr (a, h[a := Some it]))"

section \<open>The operations\<close>

definition new_dict :: "heap \<Rightarrow> (addr \<times> heap) res" where
  "new_dict h = safe_malloc \<lparr>di_key = None, di_value = 0, di_next = 0\<rparr> h"

text \<open>\<open>strcmp(it->key, key) == 0\<close>; a NULL key is dereferenced.\<close>

definition strcmp_key :: "dict_item \<Rightarrow> string \<Rightarrow> bool res" where
  "strcmp_key it k = (case di_key it of None \<Rightarrow> Inl Bad_Pointer | Some s \<Rightarrow> Inr (s = k))"

text \<open>
  The loops carry fuel. The operations start them with the number of cells of the arena:
  a walk that needs more has met a node twice, that is, the list is circular and the C
  loop does not end.
\<close>

fun get_loop :: "nat \<Rightarrow> heap \<Rightarrow> addr \<Rightarrow> string \<Rightarrow> uint32 res" where
  "get_loop 0 h cur k = Inl No_Return"
| "get_loop (Suc n) h cur k =
     (if cur = 0 then Inr 0
      else bindR (load h cur) (\<lambda>it. bindR (strcmp_key it k) (\<lambda>eq.
        if eq then Inr (di_value it) else get_loop n h (di_next it) k)))"

definition dict_get :: "heap \<Rightarrow> addr \<Rightarrow> string \<Rightarrow> uint32 res" where
  "dict_get h d k = bindR (load h d) (\<lambda>s. get_loop (length h) h (di_next s) k)"

text \<open>The search loop of \<open>set\<close>: the new heap when the key was found.\<close>

fun set_loop :: "nat \<Rightarrow> heap \<Rightarrow> addr \<Rightarrow> string \<Rightarrow> uint32 \<Rightarrow> heap option res" where
  "set_loop 0 h cur k v = Inl No_Return"
| "set_loop (Suc n) h cur k v =
     (if cur = 0 then Inr None
      else bindR (load h cur) (\<lambda>it. bindR (strcmp_key it k) (\<lambda>eq.
        if eq then bindR (store h cur (it\<lparr>di_value := v\<rparr>)) (\<lambda>h'. Inr (Some h'))
        else set_loop n h (di_next it) k v)))"

definition dict_set :: "heap \<Rightarrow> addr \<Rightarrow> string \<Rightarrow> uint32 \<Rightarrow> (bool \<times> heap) res" where
  "dict_set h d k v =
     bindR (load h d) (\<lambda>s. bindR (set_loop (length h) h (di_next s) k v) (\<lambda>found.
       case found of
         Some h' \<Rightarrow> Inr (True, h')
       | None \<Rightarrow>
           bindR (safe_malloc \<lparr>di_key = Some k, di_value = v, di_next = di_next s\<rparr> h)
             (\<lambda>(a, h1). bindR (store h1 d (s\<lparr>di_next := a\<rparr>)) (\<lambda>h2. Inr (True, h2)))))"

text \<open>\<open>__remove\<close>: unlink and free the node after \<open>cur\<close>.\<close>

definition dict_remove :: "heap \<Rightarrow> addr \<Rightarrow> heap res" where
  "dict_remove h cur =
     bindR (load h cur) (\<lambda>c. let tobefree = di_next c in
     bindR (load h tobefree) (\<lambda>t.
     bindR (store h cur (c\<lparr>di_next := di_next t\<rparr>)) (\<lambda>h1. free h1 tobefree)))"

fun del_loop :: "nat \<Rightarrow> heap \<Rightarrow> addr \<Rightarrow> string \<Rightarrow> (bool \<times> heap) res" where
  "del_loop 0 h cur k = Inl No_Return"
| "del_loop (Suc n) h cur k =
     bindR (load h cur) (\<lambda>c.
     if di_next c = 0 then Inr (False, h)
     else bindR (load h (di_next c)) (\<lambda>it. bindR (strcmp_key it k) (\<lambda>eq.
       if eq then bindR (dict_remove h cur) (\<lambda>h'. Inr (True, h'))
       else del_loop n h (di_next c) k)))"

definition dict_del :: "heap \<Rightarrow> addr \<Rightarrow> string \<Rightarrow> (bool \<times> heap) res" where
  "dict_del h d k = del_loop (length h) h d k"

section \<open>What a dictionary looks like in memory\<close>

text \<open>The nodes of a list segment: address, key and value of each.\<close>

type_synonym node = "addr \<times> string \<times> uint32"

fun seg :: "heap \<Rightarrow> addr \<Rightarrow> node list \<Rightarrow> addr \<Rightarrow> bool" where
  "seg h p [] q = (p = q)"
| "seg h p ((a, k, v) # ns) q =
     (p = a \<and> (case cell h a of None \<Rightarrow> False
        | Some it \<Rightarrow> di_key it = Some k \<and> di_value it = v \<and> seg h (di_next it) ns q))"

definition entries :: "node list \<Rightarrow> (string \<times> uint32) list" where
  "entries ns = map snd ns"

abbreviation addrs :: "node list \<Rightarrow> addr list" where
  "addrs ns \<equiv> map fst ns"

abbreviation keys :: "node list \<Rightarrow> string list" where
  "keys ns \<equiv> map (fst \<circ> snd) ns"

definition dict_at :: "heap \<Rightarrow> addr \<Rightarrow> node list \<Rightarrow> bool" where
  "dict_at h d ns =
     ((case cell h d of None \<Rightarrow> False | Some s \<Rightarrow> di_key s = None \<and> seg h (di_next s) ns 0)
      \<and> distinct (d # addrs ns) \<and> distinct (keys ns))"

text \<open>The map a dictionary stands for.\<close>

definition dmap :: "node list \<Rightarrow> string \<Rightarrow> uint32 option" where
  "dmap ns = map_of (entries ns)"

definition footprint :: "addr \<Rightarrow> node list \<Rightarrow> addr set" where
  "footprint d ns = insert d (set (addrs ns))"

text \<open>The heaps agree outside a set of addresses and have the same size.\<close>

definition same_outside :: "addr set \<Rightarrow> heap \<Rightarrow> heap \<Rightarrow> bool" where
  "same_outside A h h' \<longleftrightarrow> length h' = length h \<and> (\<forall>a. a \<notin> A \<longrightarrow> cell h' a = cell h a)"

section \<open>Cells, loads and stores\<close>

lemma cell_Some_bounds: "cell h a = Some it \<Longrightarrow> 0 < a \<and> a < length h"
  by (auto simp: cell_def split: if_splits)

lemma cell_update [simp]:
  "0 < a \<Longrightarrow> a < length h \<Longrightarrow> cell (h[a := c]) b = (if b = a then c else cell h b)"
  by (auto simp: cell_def)

lemma load_Inr [simp]: "load h a = Inr it \<longleftrightarrow> cell h a = Some it"
  by (auto simp: load_def split: option.splits)

lemma load_Some: "cell h a = Some it \<Longrightarrow> load h a = Inr it"
  by (simp add: load_def)

lemma store_Some: "cell h a = Some it0 \<Longrightarrow> store h a it = Inr (h[a := Some it])"
  by (simp add: store_def)

lemma free_Some: "cell h a = Some it0 \<Longrightarrow> free h a = Inr (h[a := None])"
  by (simp add: free_def)

lemma strcmp_key_Some [simp]: "di_key it = Some s \<Longrightarrow> strcmp_key it k = Inr (s = k)"
  by (simp add: strcmp_key_def)

lemma safe_malloc_cases:
  "safe_malloc it h = Inl Exited \<or>
   (\<exists>a. safe_malloc it h = Inr (a, h[a := Some it]) \<and> 0 < a \<and> a < length h \<and> cell h a = None)"
proof (cases "filter (\<lambda>a. h ! a = None) [1..<length h]")
  case Nil
  then show ?thesis by (simp add: safe_malloc_def)
next
  case (Cons a as)
  then have "a \<in> set (filter (\<lambda>a. h ! a = None) [1..<length h])" by simp
  then have "0 < a" "a < length h" "h ! a = None" by auto
  with Cons show ?thesis by (simp add: safe_malloc_def cell_def)
qed

section \<open>Segments\<close>

lemma seg_cell: "seg h p ns q \<Longrightarrow> a \<in> set (addrs ns) \<Longrightarrow> cell h a \<noteq> None"
  by (induction h p ns q rule: seg.induct) (auto split: option.splits)

lemma seg_cong: "(\<And>a. a \<in> set (addrs ns) \<Longrightarrow> cell h' a = cell h a) \<Longrightarrow> seg h' p ns q = seg h p ns q"
proof (induction ns arbitrary: p)
  case Nil
  then show ?case by simp
next
  case (Cons n ns)
  obtain a k v where n: "n = (a, k, v)" by (cases n)
  have same: "cell h' a = cell h a" using Cons.prems n by simp
  have ih: "\<And>p. seg h' p ns q = seg h p ns q" using Cons by simp
  show ?case using same ih n by (auto split: option.split)
qed

lemma seg_update [simp]:
  "0 < a \<Longrightarrow> a < length h \<Longrightarrow> a \<notin> set (addrs ns) \<Longrightarrow> seg (h[a := c]) p ns q = seg h p ns q"
  by (rule seg_cong) auto

lemma seg_append: "seg h p (ms @ ns) q \<longleftrightarrow> (\<exists>r. seg h p ms r \<and> seg h r ns q)"
  by (induction h p ms q rule: seg.induct) (auto split: option.splits)

lemma seg_nonnull: "seg h p (n # ns) q \<Longrightarrow> p \<noteq> 0 \<and> p = fst n"
  by (cases n) (auto dest: cell_Some_bounds split: option.splits)

lemma seg_bound: "seg h p ns q \<Longrightarrow> set (addrs ns) \<subseteq> {1..<length h}"
  using seg_cell [of h p ns q] cell_Some_bounds by fastforce

lemma dict_at_bound:
  assumes "dict_at h d ns"
  shows "Suc (length ns) < length h"
proof -
  from assms obtain s where s: "cell h d = Some s" "seg h (di_next s) ns 0"
    by (auto simp: dict_at_def split: option.splits)
  have "set (d # addrs ns) \<subseteq> {1..<length h}"
    using cell_Some_bounds [OF s(1)] seg_bound [OF s(2)] by auto
  moreover have "distinct (d # addrs ns)" using assms by (simp add: dict_at_def)
  ultimately have "length (d # addrs ns) \<le> card {1..<length h}"
    by (metis card_mono distinct_card finite_atLeastLessThan)
  then show ?thesis by simp
qed

lemma dict_at_obtain:
  assumes "dict_at h d ns"
  obtains s where "cell h d = Some s" "di_key s = None" "seg h (di_next s) ns 0"
    "distinct (d # addrs ns)" "distinct (keys ns)"
  using assms by (auto simp: dict_at_def split: option.splits)

lemma dict_at_frame:
  "dict_at h d ns \<Longrightarrow> same_outside A h h' \<Longrightarrow> footprint d ns \<inter> A = {} \<Longrightarrow> dict_at h' d ns"
proof -
  assume d: "dict_at h d ns" and s: "same_outside A h h'" and disj: "footprint d ns \<inter> A = {}"
  have same: "cell h' a = cell h a" if "a \<in> footprint d ns" for a
    using s disj that by (auto simp: same_outside_def)
  have sg: "\<And>p. seg h' p ns 0 = seg h p ns 0"
    by (rule seg_cong) (simp add: same footprint_def)
  show ?thesis using d same [of d] sg by (simp add: dict_at_def footprint_def split: option.splits)
qed

lemma same_outside_refl [simp]: "same_outside A h h"
  by (simp add: same_outside_def)

lemma same_outside_trans:
  "same_outside A h h1 \<Longrightarrow> same_outside A h1 h2 \<Longrightarrow> same_outside A h h2"
  by (simp add: same_outside_def)

lemma same_outside_mono: "same_outside A h h' \<Longrightarrow> A \<subseteq> B \<Longrightarrow> same_outside B h h'"
  by (auto simp: same_outside_def)

lemma same_outside_update: "0 < a \<Longrightarrow> a < length h \<Longrightarrow> a \<in> A \<Longrightarrow> same_outside A h (h[a := c])"
  by (auto simp: same_outside_def)

section \<open>Nodes updated and removed\<close>

fun upd_node :: "string \<Rightarrow> uint32 \<Rightarrow> node list \<Rightarrow> node list" where
  "upd_node k v [] = []"
| "upd_node k v ((a, k', v') # ns) =
     (if k' = k then (a, k', v) # ns else (a, k', v') # upd_node k v ns)"

fun del_node :: "string \<Rightarrow> node list \<Rightarrow> node list" where
  "del_node k [] = []"
| "del_node k ((a, k', v') # ns) = (if k' = k then ns else (a, k', v') # del_node k ns)"

definition hd_addr :: "node list \<Rightarrow> addr" where
  "hd_addr ns = (case ns of [] \<Rightarrow> 0 | n # _ \<Rightarrow> fst n)"

lemma hd_addr_simps [simp]: "hd_addr [] = 0" "hd_addr (n # ns) = fst n"
  by (simp_all add: hd_addr_def)

lemma entries_simps [simp]: "entries [] = []" "entries ((a, k, v) # ns) = (k, v) # entries ns"
  "entries (ms @ ns) = entries ms @ entries ns"
  by (simp_all add: entries_def)

lemma addrs_upd_node [simp]: "addrs (upd_node k v ns) = addrs ns"
  by (induction k v ns rule: upd_node.induct) auto

lemma keys_upd_node [simp]: "keys (upd_node k v ns) = keys ns"
  by (induction k v ns rule: upd_node.induct) auto

lemma dmap_Cons [simp]: "dmap ((a, k, v) # ns) = (dmap ns)(k \<mapsto> v)"
  by (simp add: dmap_def)

lemma dmap_Nil [simp]: "dmap [] = Map.empty"
  by (simp add: dmap_def)

lemma dom_dmap: "dom (dmap ns) = set (keys ns)"
  by (simp add: dmap_def entries_def dom_map_of_conv_image_fst image_image)

lemma dmap_None_iff: "dmap ns k = None \<longleftrightarrow> k \<notin> set (keys ns)"
  by (metis domIff dom_dmap)

lemma dmap_upd_node:
  "dmap (upd_node k v ns) = (if k \<in> set (keys ns) then (dmap ns)(k \<mapsto> v) else dmap ns)"
  by (induction k v ns rule: upd_node.induct) (simp_all add: fun_eq_iff)

lemma dmap_del_node: "distinct (keys ns) \<Longrightarrow> dmap (del_node k ns) = (dmap ns)(k := None)"
  by (induction k ns rule: del_node.induct) (auto simp: fun_eq_iff dmap_None_iff)

lemma del_node_absent: "k \<notin> set (keys ns) \<Longrightarrow> del_node k ns = ns"
  by (induction k ns rule: del_node.induct) auto

lemma addrs_del_node: "set (addrs (del_node k ns)) \<subseteq> set (addrs ns)"
  by (induction k ns rule: del_node.induct) auto

lemma upd_node_split:
  "k \<notin> set (keys ms) \<Longrightarrow> upd_node k v (ms @ (a, k, v') # ns) = ms @ (a, k, v) # ns"
  by (induction ms) auto

lemma del_node_split:
  "k \<notin> set (keys ms) \<Longrightarrow> del_node k (ms @ (a, k, v') # ns) = ms @ ns"
  by (induction ms) auto

lemma dmap_split: "k \<notin> set (keys ms) \<Longrightarrow> dmap (ms @ (a, k, v) # ns) k = Some v"
  by (induction ms) auto

lemma keys_split:
  assumes "k \<in> set (keys ns)"
  obtains ms a v rest where "ns = ms @ (a, k, v) # rest" "k \<notin> set (keys ms)"
  using assms
proof (induction ns arbitrary: thesis)
  case Nil
  then show ?case by simp
next
  case (Cons n ns)
  obtain a k' v where n: "n = (a, k', v)" by (cases n)
  show ?case
  proof (cases "k' = k")
    case True
    with Cons.prems(1) [of "[]" a v ns] n show ?thesis by simp
  next
    case False
    with Cons.prems(2) n have "k \<in> set (keys ns)" by simp
    then obtain ms b w rest where "ns = ms @ (b, k, w) # rest" "k \<notin> set (keys ms)"
      using Cons.IH by blast
    with Cons.prems(1) [of "n # ms" b w rest] n False show ?thesis by simp
  qed
qed

section \<open>Walking over nodes with other keys\<close>

lemma get_loop_skip:
  "seg h p ms q \<Longrightarrow> k \<notin> set (keys ms) \<Longrightarrow>
    get_loop (length ms + n) h p k = get_loop n h q k"
  by (induction h p ms q rule: seg.induct)
    (auto simp: load_Some dest: cell_Some_bounds split: option.splits)

lemma set_loop_skip:
  "seg h p ms q \<Longrightarrow> k \<notin> set (keys ms) \<Longrightarrow>
    set_loop (length ms + n) h p k v = set_loop n h q k v"
  by (induction h p ms q rule: seg.induct)
    (auto simp: load_Some dest: cell_Some_bounds split: option.splits)

lemma seg_split:
  assumes "seg h p (ms @ (a, k, v) # ns) q"
  obtains it where "seg h p ms a" "cell h a = Some it" "di_key it = Some k" "di_value it = v"
    "seg h (di_next it) ns q"
  using assms by (auto simp: seg_append split: option.splits)

lemma get_loop_seg:
  assumes "seg h p ns 0" "length ns < n"
  shows "get_loop n h p k = Inr (case dmap ns k of None \<Rightarrow> 0 | Some v \<Rightarrow> v)"
proof (cases "k \<in> set (keys ns)")
  case True
  then obtain ms a v rest where ns: "ns = ms @ (a, k, v) # rest" "k \<notin> set (keys ms)"
    by (rule keys_split)
  from assms(1) obtain it where it: "seg h p ms a" "cell h a = Some it" "di_key it = Some k"
    "di_value it = v" unfolding ns(1) by (rule seg_split)
  define m where "m = n - Suc (length ms)"
  have n: "n = length ms + Suc m" using assms(2) ns(1) by (simp add: m_def)
  have "dmap ns k = Some v" using ns dmap_split by simp
  moreover have "get_loop n h p k = get_loop (Suc m) h a k"
    unfolding n by (rule get_loop_skip [OF it(1) ns(2)])
  ultimately show ?thesis using it cell_Some_bounds [OF it(2)] by (simp add: load_Some)
next
  case False
  obtain m where n: "n = length ns + Suc m"
    using assms(2) less_imp_Suc_add by (metis add_Suc_right)
  from False have "dmap ns k = None" by (simp add: dmap_None_iff)
  with n False show ?thesis using get_loop_skip [OF assms(1), of k "Suc m"] by simp
qed

section \<open>Relinking\<close>

lemma last_addr_in: "last (d # addrs ms) \<in> set (d # addrs ms)"
  by (rule last_in_set) simp

lemma seg_hd: "seg h p ns 0 \<Longrightarrow> p = hd_addr ns"
  by (cases ns) auto

text \<open>The cell that points at the rest of a dictionary, and the dictionary after that
  cell has been redirected.\<close>

lemma dict_at_pred:
  assumes "dict_at h d (ms @ ns)"
  obtains c where "cell h (last (d # addrs ms)) = Some c" "di_next c = hd_addr ns"
    "seg h (di_next c) ns 0"
proof -
  obtain s where s: "cell h d = Some s" "seg h (di_next s) (ms @ ns) 0"
    using assms by (rule dict_at_obtain)
  show ?thesis
  proof (cases ms rule: rev_cases)
    case Nil
    with s seg_hd [OF s(2)] that show ?thesis by simp
  next
    case (snoc ms' n)
    obtain a k v where n: "n = (a, k, v)" by (cases n)
    from s(2) snoc n obtain it where "cell h a = Some it" "seg h (di_next it) ns 0"
      by (auto simp: seg_append split: option.splits)
    with that seg_hd [OF this(2)] snoc n show ?thesis by simp
  qed
qed

lemma relink:
  assumes d: "dict_at h d (ms @ ns)" and c: "cell h (last (d # addrs ms)) = Some c"
    and ns': "seg h q ns' 0" and dist: "distinct (d # addrs (ms @ ns'))"
      "distinct (keys (ms @ ns'))"
  shows "dict_at (h[last (d # addrs ms) := Some (c\<lparr>di_next := q\<rparr>)]) d (ms @ ns')"
    (is "dict_at ?h d _")
proof -
  let ?p = "last (d # addrs ms)"
  obtain s where s: "cell h d = Some s" "di_key s = None" "seg h (di_next s) (ms @ ns) 0"
    using d by (rule dict_at_obtain)
  note b = cell_Some_bounds [OF c]
  have "set (d # addrs ms) \<inter> set (addrs ns') = {}" using dist(1) by auto
  then have "?p \<notin> set (addrs ns')" using last_addr_in [of d ms] by blast
  then have tail: "seg ?h q ns' 0"
    using ns' b seg_cong [of ns' ?h h q 0] by (metis cell_update)
  show ?thesis
  proof (cases ms rule: rev_cases)
    case Nil
    with s c tail dist b show ?thesis by (simp add: dict_at_def)
  next
    case (snoc ms' n)
    obtain a k v where n: "n = (a, k, v)" by (cases n)
    have p: "?p = a" using snoc n by simp
    from s(3) snoc n c p have init: "seg h (di_next s) ms' a"
      and a: "di_key c = Some k" "di_value c = v"
      by (auto simp: seg_append split: option.splits)
    have "a \<notin> set (addrs ms')" "a \<noteq> d" using dist(1) snoc n by auto
    moreover have "seg ?h (di_next s) ms' a"
      using init calculation(1) b p seg_cong [of ms' ?h h "di_next s" a] by (metis cell_update)
    ultimately have "seg ?h (di_next s) (ms @ ns') 0" "cell ?h d = Some s"
      using tail a b p snoc n s(1) by (auto simp: seg_append)
    with s(2) dist show ?thesis by (simp add: dict_at_def)
  qed
qed

lemma dict_at_distinct:
  "dict_at h d (ms @ (a, k, v) # ns) \<Longrightarrow> distinct (d # addrs (ms @ ns)) \<and> distinct (keys (ms @ ns))
    \<and> a \<notin> set (d # addrs (ms @ ns)) \<and> k \<notin> set (keys (ms @ ns))"
  by (auto simp: dict_at_def)

text \<open>\<open>__remove\<close> at any position of a dictionary.\<close>

lemma dict_remove_at:
  assumes d: "dict_at h d (ms @ (a, k, v) # ns)"
  shows "\<exists>h'. dict_remove h (last (d # addrs ms)) = Inr h' \<and> dict_at h' d (ms @ ns) \<and>
    same_outside (footprint d (ms @ (a, k, v) # ns)) h h' \<and> cell h' a = None"
proof -
  let ?p = "last (d # addrs ms)"
  obtain c where c: "cell h ?p = Some c" "di_next c = a" "seg h a ((a, k, v) # ns) 0"
    using d by (rule dict_at_pred) auto
  then obtain t where t: "cell h a = Some t" "seg h (di_next t) ns 0"
    by (auto split: option.splits)
  note dist = dict_at_distinct [OF d]
  have "a \<notin> set (d # addrs ms)" using dist by simp
  then have pa: "?p \<noteq> a" using last_addr_in [of d ms] by blast
  have pf: "?p \<in> footprint d (ms @ (a, k, v) # ns)"
    using last_addr_in [of d ms] by (auto simp: footprint_def simp del: last.simps)
  note bp = cell_Some_bounds [OF c(1)] and ba = cell_Some_bounds [OF t(1)]
  let ?h1 = "h[?p := Some (c\<lparr>di_next := di_next t\<rparr>)]"
  have d1: "dict_at ?h1 d (ms @ ns)"
    using dist t(2) by (intro relink [OF d c(1)]) auto
  have t1: "cell ?h1 a = Some t" using t(1) pa bp by simp
  have rm: "dict_remove h ?p = Inr (?h1[a := None])"
    using c(1,2) t(1) t1
    by (simp add: dict_remove_def load_Some store_Some free_Some)
  have so: "same_outside {a} ?h1 (?h1[a := None])" using ba by (intro same_outside_update) auto
  have "dict_at (?h1[a := None]) d (ms @ ns)"
    using dist by (intro dict_at_frame [OF d1 so]) (auto simp: footprint_def)
  moreover have "same_outside (footprint d (ms @ (a, k, v) # ns)) h (?h1[a := None])"
    using bp pf
    by (intro same_outside_trans [OF same_outside_update same_outside_mono [OF so]])
      (auto simp: footprint_def)
  moreover have "cell (?h1[a := None]) a = None" using ba by simp
  ultimately show ?thesis using rm by blast
qed

section \<open>The operations implement a map\<close>

theorem dict_get_correct:
  "dict_at h d ns \<Longrightarrow> dict_get h d k = Inr (case dmap ns k of None \<Rightarrow> 0 | Some v \<Rightarrow> v)"
  using dict_at_bound [of h d ns]
  by (auto simp: dict_get_def load_Some get_loop_seg elim!: dict_at_obtain)

lemma dict_at_replace_value:
  assumes d: "dict_at h d (ms @ (a, k, v) # ns)" and it: "cell h a = Some it"
  shows "dict_at (h[a := Some (it\<lparr>di_value := w\<rparr>)]) d (ms @ (a, k, w) # ns)"
    (is "dict_at ?h d _")
proof -
  obtain s where s: "cell h d = Some s" "di_key s = None" "seg h (di_next s) (ms @ (a, k, v) # ns) 0"
    using d by (rule dict_at_obtain)
  note b = cell_Some_bounds [OF it]
  note dist = dict_at_distinct [OF d]
  from s(3) it have parts: "seg h (di_next s) ms a" "di_key it = Some k" "seg h (di_next it) ns 0"
    by (auto simp: seg_append)
  have "seg ?h (di_next s) ms a" "seg ?h (di_next it) ns 0"
    using dist b parts by simp_all
  then have "seg ?h (di_next s) (ms @ (a, k, w) # ns) 0"
    using parts(2) b by (auto simp: seg_append)
  then show ?thesis using s(1,2) dist b d by (auto simp: dict_at_def)
qed

lemma set_loop_present:
  assumes d: "dict_at h d ns" and k: "k \<in> set (keys ns)" and s: "cell h d = Some s"
  shows "\<exists>h'. set_loop (length h) h (di_next s) k v = Inr (Some h') \<and>
    dict_at h' d (upd_node k v ns) \<and> same_outside (footprint d ns) h h'"
proof -
  obtain ms a v0 rest where ns: "ns = ms @ (a, k, v0) # rest" "k \<notin> set (keys ms)"
    using k by (rule keys_split)
  from d s obtain it where it: "seg h (di_next s) ms a" "cell h a = Some it" "di_key it = Some k"
    by (auto elim!: dict_at_obtain simp: ns seg_append split: option.splits)
  define m where "m = length h - Suc (length ms)"
  have n: "length h = length ms + Suc m" using dict_at_bound [OF d] ns by (simp add: m_def)
  have "set_loop (length h) h (di_next s) k v = set_loop (Suc m) h a k v"
    unfolding n by (rule set_loop_skip [OF it(1) ns(2)])
  moreover have "set_loop (Suc m) h a k v = Inr (Some (h[a := Some (it\<lparr>di_value := v\<rparr>)]))"
    using it cell_Some_bounds [OF it(2)] by (simp add: load_Some store_Some)
  moreover have "same_outside (footprint d ns) h (h[a := Some (it\<lparr>di_value := v\<rparr>)])"
    using cell_Some_bounds [OF it(2)] ns by (intro same_outside_update) (auto simp: footprint_def)
  ultimately show ?thesis
    using dict_at_replace_value [OF d [unfolded ns(1)] it(2)] ns by (simp add: upd_node_split)
qed

lemma set_loop_absent:
  assumes "seg h p ns 0" "length ns < n" "k \<notin> set (keys ns)"
  shows "set_loop n h p k v = Inr None"
proof -
  obtain m where n: "n = length ns + Suc m" using assms(2) less_imp_Suc_add by (metis add_Suc_right)
  show ?thesis unfolding n using set_loop_skip [OF assms(1,3), of "Suc m"] by simp
qed

text \<open>
  \<open>set\<close> overwrites the value of a key that is present and otherwise links a new node
  behind the sentinel; the only failure is a full arena.
\<close>

theorem dict_set_cases:
  assumes d: "dict_at h d ns"
  shows "dict_set h d k v = Inl Exited \<and> k \<notin> set (keys ns) \<or>
    (\<exists>h' ns'. dict_set h d k v = Inr (True, h') \<and> dict_at h' d ns' \<and>
       dmap ns' = (dmap ns)(k \<mapsto> v) \<and>
       (\<forall>A. A \<inter> footprint d ns = {} \<longrightarrow> (\<forall>a\<in>A. cell h a \<noteq> None) \<longrightarrow> A \<inter> footprint d ns' = {}) \<and>
       (\<forall>a. cell h a \<noteq> None \<longrightarrow> a \<notin> footprint d ns \<longrightarrow> cell h' a = cell h a) \<and>
       length h' = length h)"
proof -
  obtain s where s: "cell h d = Some s" "di_key s = None" "seg h (di_next s) ns 0"
    using d by (rule dict_at_obtain)
  show ?thesis
  proof (cases "k \<in> set (keys ns)")
    case True
    from set_loop_present [OF d True s(1)] obtain h' where
      "set_loop (length h) h (di_next s) k v = Inr (Some h')" "dict_at h' d (upd_node k v ns)"
      "same_outside (footprint d ns) h h'" by blast
    moreover have "footprint d (upd_node k v ns) = footprint d ns" by (simp add: footprint_def)
    ultimately show ?thesis using True s(1)
      by (intro disjI2 exI [of _ h'] exI [of _ "upd_node k v ns"])
        (auto simp: dict_set_def load_Some dmap_upd_node same_outside_def)
  next
    case False
    have none: "set_loop (length h) h (di_next s) k v = Inr None"
      using set_loop_absent [OF s(3) _ False] dict_at_bound [OF d] by simp
    let ?it = "\<lparr>di_key = Some k, di_value = v, di_next = di_next s\<rparr>"
    from safe_malloc_cases [of ?it h] show ?thesis
    proof
      assume "safe_malloc ?it h = Inl Exited"
      with False none s(1) show ?thesis by (simp add: dict_set_def load_Some)
    next
      assume "\<exists>a. safe_malloc ?it h = Inr (a, h[a := Some ?it]) \<and> 0 < a \<and> a < length h \<and> cell h a = None"
      then obtain a where a: "safe_malloc ?it h = Inr (a, h[a := Some ?it])" "0 < a" "a < length h"
        "cell h a = None" by blast
      let ?h1 = "h[a := Some ?it]"
      have "a \<notin> set (addrs ns)" using seg_cell [OF s(3), of a] a(4) by blast
      then have fresh: "a \<notin> footprint d ns" using a(4) s(1) by (auto simp: footprint_def)
      have so: "same_outside {a} h ?h1" using a by (intro same_outside_update) auto
      have d1: "dict_at ?h1 d ([] @ ns)" using dict_at_frame [OF d so] fresh by simp
      have s1: "cell ?h1 d = Some s" using a fresh s(1) by (auto simp: footprint_def)
      have "seg ?h1 (di_next s) ns 0"
        using s1 d1 by (auto elim!: dict_at_obtain)
      then have sg: "seg ?h1 a ((a, k, v) # ns) 0" using a by simp
      let ?h2 = "?h1[d := Some (s\<lparr>di_next := a\<rparr>)]"
      have d2: "dict_at ?h2 d ((a, k, v) # ns)"
        using relink [OF d1, of s a "(a, k, v) # ns"] s1 sg fresh d False
        by (auto simp: dict_at_def footprint_def split: option.splits)
      have st: "dict_set h d k v = Inr (True, ?h2)"
        using none s(1) s1 a(1) by (simp add: dict_set_def load_Some store_Some)
      have fr: "\<forall>b. cell h b \<noteq> None \<longrightarrow> b \<notin> footprint d ns \<longrightarrow> cell ?h2 b = cell h b"
        using a cell_Some_bounds [OF s(1)] by (auto simp: footprint_def)
      have fp: "\<forall>A. A \<inter> footprint d ns = {} \<longrightarrow> (\<forall>b\<in>A. cell h b \<noteq> None) \<longrightarrow>
          A \<inter> footprint d ((a, k, v) # ns) = {}"
        using a(4) by (auto simp: footprint_def)
      show ?thesis using st d2 fr fp
        by (intro disjI2 exI [of _ ?h2] exI [of _ "(a, k, v) # ns"]) simp
    qed
  qed
qed

text \<open>\<open>del\<close>: the walk keeps a pointer to the predecessor of the node it looks at.\<close>

lemma del_loop_skip:
  "dict_at h d (ls @ ms @ ns) \<Longrightarrow> k \<notin> set (keys ms) \<Longrightarrow>
    del_loop (length ms + n) h (last (d # addrs ls)) k = del_loop n h (last (d # addrs (ls @ ms))) k"
proof (induction ms arbitrary: ls)
  case Nil
  then show ?case by simp
next
  case (Cons m ms)
  obtain a k' v where m: "m = (a, k', v)" by (cases m)
  obtain c where c: "cell h (last (d # addrs ls)) = Some c" "di_next c = a"
    "seg h a ((m # ms) @ ns) 0"
    using Cons.prems(1) by (rule dict_at_pred) (auto simp: m)
  then obtain it where it: "cell h a = Some it" "di_key it = Some k'"
    by (auto simp: m split: option.splits)
  have ne: "k' \<noteq> k" using Cons.prems(2) m by auto
  have step: "del_loop (Suc (length ms + n)) h (last (d # addrs ls)) k = del_loop (length ms + n) h a k"
    using c(1,2) it ne cell_Some_bounds [OF it(1)] by (simp add: load_Some)
  have "dict_at h d ((ls @ [m]) @ ms @ ns)" using Cons.prems(1) by simp
  from Cons.IH [OF this] Cons.prems(2) step show ?case by (simp add: m)
qed

lemma dict_del_node:
  assumes d: "dict_at h d (ms @ (a, k, v) # rest)"
  shows "\<exists>h'. dict_del h d k = Inr (True, h') \<and> dict_at h' d (ms @ rest) \<and>
    same_outside (footprint d (ms @ (a, k, v) # rest)) h h' \<and> cell h' a = None"
proof -
  have k: "k \<notin> set (keys ms)" using dict_at_distinct [OF d] by simp
  define m where "m = length h - Suc (length ms)"
  have n: "length h = length ms + Suc m" using dict_at_bound [OF d] by (simp add: m_def)
  let ?p = "last (d # addrs ms)"
  have walk: "dict_del h d k = del_loop (Suc m) h ?p k"
    unfolding dict_del_def n using del_loop_skip [of h d "[]" ms _ k "Suc m"] d k by simp
  obtain c where c: "cell h ?p = Some c" "di_next c = a" "seg h a ((a, k, v) # rest) 0"
    using d by (rule dict_at_pred) auto
  then obtain it where it: "cell h a = Some it" "di_key it = Some k"
    by (auto split: option.splits)
  obtain h' where h': "dict_remove h ?p = Inr h'" "dict_at h' d (ms @ rest)"
    "same_outside (footprint d (ms @ (a, k, v) # rest)) h h'" "cell h' a = None"
    using dict_remove_at [OF d] by auto
  have "del_loop (Suc m) h ?p k = Inr (True, h')"
    using c(1,2) it h'(1) cell_Some_bounds [OF it(1)] by (simp add: load_Some)
  with walk have "dict_del h d k = Inr (True, h')" by (rule trans)
  with h'(2-4) show ?thesis by blast
qed

theorem dict_del_correct:
  assumes d: "dict_at h d ns"
  shows "\<exists>h'. dict_del h d k = Inr (k \<in> set (keys ns), h') \<and> dict_at h' d (del_node k ns) \<and>
    dmap (del_node k ns) = (dmap ns)(k := None) \<and> same_outside (footprint d ns) h h'"
proof (cases "k \<in> set (keys ns)")
  case True
  then obtain ms a v rest where ns: "ns = ms @ (a, k, v) # rest" "k \<notin> set (keys ms)"
    by (rule keys_split)
  have "del_node k ns = ms @ rest" using ns by (simp add: del_node_split)
  moreover have "dmap (del_node k ns) = (dmap ns)(k := None)"
    using d by (intro dmap_del_node) (simp add: dict_at_def)
  ultimately show ?thesis using dict_del_node [OF d [unfolded ns(1)]] True ns(1) by auto
next
  case False
  obtain m where n: "length h = length ns + Suc m"
    using dict_at_bound [OF d] less_imp_Suc_add by (metis add_Suc_right Suc_lessD)
  have d': "dict_at h d (ns @ [])" using d by simp
  obtain c where c: "cell h (last (d # addrs ns)) = Some c" "di_next c = 0"
    using d' by (rule dict_at_pred) auto
  have "dict_del h d k = del_loop (Suc m) h (last (d # addrs ns)) k"
    unfolding dict_del_def n using del_loop_skip [of h d "[]" ns "[]" k "Suc m"] d False by simp
  with c have "dict_del h d k = Inr (False, h)" by (simp add: load_Some)
  moreover have "dmap ns k = None" using False by (simp add: dmap_None_iff)
  ultimately show ?thesis using d False by (auto simp: del_node_absent fun_upd_idem)
qed

theorem new_dict_cases:
  "new_dict h = Inl Exited \<or>
   (\<exists>d h'. new_dict h = Inr (d, h') \<and> dict_at h' d [] \<and> cell h d = None \<and> same_outside {d} h h')"
proof -
  let ?it = "\<lparr>di_key = None, di_value = 0, di_next = 0\<rparr>"
  from safe_malloc_cases [of ?it h] show ?thesis
  proof
    assume "\<exists>a. safe_malloc ?it h = Inr (a, h[a := Some ?it]) \<and> 0 < a \<and> a < length h \<and> cell h a = None"
    then obtain a where a: "safe_malloc ?it h = Inr (a, h[a := Some ?it])" "0 < a" "a < length h"
      "cell h a = None" by blast
    then have "dict_at (h[a := Some ?it]) a []" by (simp add: dict_at_def)
    moreover have "same_outside {a} h (h[a := Some ?it])"
      using a by (intro same_outside_update) auto
    ultimately show ?thesis using a by (simp add: new_dict_def)
  qed (simp add: new_dict_def)
qed

section \<open>The contract of a dictionary\<close>

text \<open>
  What \<open>dict.c\<close> promises its callers: each operation acts on the map a dictionary
  represents, and leaves any dictionary in other cells as it was. \<open>rep h d m A\<close>: at
  \<open>d\<close> the heap holds a dictionary for the map \<open>m\<close> in the cells \<open>A\<close>.
\<close>

locale heap_map =
  fixes rep :: "heap \<Rightarrow> addr \<Rightarrow> (string \<Rightarrow> uint32 option) \<Rightarrow> addr set \<Rightarrow> bool"
    and lookup :: "heap \<Rightarrow> addr \<Rightarrow> string \<Rightarrow> uint32 res"
    and update :: "heap \<Rightarrow> addr \<Rightarrow> string \<Rightarrow> uint32 \<Rightarrow> (bool \<times> heap) res"
    and delete :: "heap \<Rightarrow> addr \<Rightarrow> string \<Rightarrow> (bool \<times> heap) res"
  assumes lookup_law: "rep h d m A \<Longrightarrow> lookup h d k = Inr (case m k of None \<Rightarrow> 0 | Some v \<Rightarrow> v)"
    and update_law: "rep h d m A \<Longrightarrow> update h d k v = Inl Exited \<or>
      (\<exists>h' A'. update h d k v = Inr (True, h') \<and> rep h' d (m(k \<mapsto> v)) A' \<and>
        (\<forall>e m2 B. rep h e m2 B \<longrightarrow> A \<inter> B = {} \<longrightarrow> rep h' e m2 B \<and> A' \<inter> B = {}))"
    and delete_law: "rep h d m A \<Longrightarrow>
      \<exists>h' A'. delete h d k = Inr (m k \<noteq> None, h') \<and> rep h' d (m(k := None)) A' \<and>
        (\<forall>e m2 B. rep h e m2 B \<longrightarrow> A \<inter> B = {} \<longrightarrow> rep h' e m2 B \<and> A' \<inter> B = {})"
begin

text \<open>Two dictionaries side by side.\<close>

definition two where
  "two h d m e n \<longleftrightarrow> (\<exists>A B. rep h d m A \<and> rep h e n B \<and> A \<inter> B = {})"

lemma two_sym: "two h d m e n \<Longrightarrow> two h e n d m"
  unfolding two_def by blast

lemma two_lookup:
  "two h d m e n \<Longrightarrow> lookup h d k = Inr (case m k of None \<Rightarrow> 0 | Some v \<Rightarrow> v)"
  unfolding two_def using lookup_law by blast

lemma two_update:
  assumes "two h d m e n"
  shows "update h d k v = Inl Exited \<or>
    (\<exists>h'. update h d k v = Inr (True, h') \<and> two h' d (m(k \<mapsto> v)) e n)"
proof -
  from assms obtain A B where r: "rep h d m A" "rep h e n B" "A \<inter> B = {}"
    unfolding two_def by blast
  show ?thesis using update_law [OF r(1), of k v] r(2,3) unfolding two_def by blast
qed

lemma two_delete:
  assumes "two h d m e n"
  shows "\<exists>h'. delete h d k = Inr (m k \<noteq> None, h') \<and> two h' d (m(k := None)) e n"
proof -
  from assms obtain A B where r: "rep h d m A" "rep h e n B" "A \<inter> B = {}"
    unfolding two_def by blast
  show ?thesis using delete_law [OF r(1), of k] r(2,3) unfolding two_def by blast
qed

text \<open>Lookup after update, the law a reader of one dictionary relies on.\<close>

lemma lookup_update:
  assumes "two h d m e n" "update h d k v = Inr (b, h')"
  shows "lookup h' d k' =
    Inr (if k' = k then v else case m k' of None \<Rightarrow> 0 | Some w \<Rightarrow> w)"
  using two_update [OF assms(1), of k v] assms(2) two_lookup by fastforce

end

definition dict_rep :: "heap \<Rightarrow> addr \<Rightarrow> (string \<Rightarrow> uint32 option) \<Rightarrow> addr set \<Rightarrow> bool" where
  "dict_rep h d m A \<longleftrightarrow> (\<exists>ns. dict_at h d ns \<and> dmap ns = m \<and> footprint d ns = A)"

lemma footprint_cells: "dict_at h d ns \<Longrightarrow> a \<in> footprint d ns \<Longrightarrow> cell h a \<noteq> None"
  using seg_cell unfolding footprint_def by (fastforce elim!: dict_at_obtain)

lemma footprint_del_node: "footprint d (del_node k ns) \<subseteq> footprint d ns"
  using addrs_del_node [of k ns] by (auto simp: footprint_def)

lemma dict_at_same_cells:
  "dict_at h d ns \<Longrightarrow> length h' = length h \<Longrightarrow> (\<And>a. a \<in> footprint d ns \<Longrightarrow> cell h' a = cell h a) \<Longrightarrow>
    dict_at h' d ns"
  by (rule dict_at_frame [where A = "- footprint d ns"]) (auto simp: same_outside_def)

lemma dict_set_frame:
  assumes d: "dict_at h d ns"
  shows "dict_set h d k v = Inl Exited \<or>
    (\<exists>h' ns'. dict_set h d k v = Inr (True, h') \<and> dict_at h' d ns' \<and> dmap ns' = (dmap ns)(k \<mapsto> v) \<and>
       (\<forall>e ms. dict_at h e ms \<longrightarrow> footprint d ns \<inter> footprint e ms = {} \<longrightarrow>
          dict_at h' e ms \<and> footprint d ns' \<inter> footprint e ms = {}))"
proof -
  from dict_set_cases [OF d, of k v] show ?thesis
  proof (elim disjE exE conjE)
    fix h' ns'
    assume st: "dict_set h d k v = Inr (True, h')" "dict_at h' d ns'" "dmap ns' = (dmap ns)(k \<mapsto> v)"
      and fp: "\<forall>A. A \<inter> footprint d ns = {} \<longrightarrow> (\<forall>a\<in>A. cell h a \<noteq> None) \<longrightarrow> A \<inter> footprint d ns' = {}"
      and fr: "\<forall>a. cell h a \<noteq> None \<longrightarrow> a \<notin> footprint d ns \<longrightarrow> cell h' a = cell h a"
      and len: "length h' = length h"
    have "dict_at h' e ms \<and> footprint d ns' \<inter> footprint e ms = {}"
      if e: "dict_at h e ms" and disj: "footprint d ns \<inter> footprint e ms = {}" for e ms
    proof
      show "dict_at h' e ms"
        using fr footprint_cells [OF e] disj by (intro dict_at_same_cells [OF e len]) blast
      show "footprint d ns' \<inter> footprint e ms = {}"
        using fp disj footprint_cells [OF e] by blast
    qed
    with st show ?thesis by blast
  qed blast
qed

lemma dict_del_frame:
  assumes d: "dict_at h d ns"
  shows "\<exists>h'. dict_del h d k = Inr (k \<in> set (keys ns), h') \<and> dict_at h' d (del_node k ns) \<and>
    dmap (del_node k ns) = (dmap ns)(k := None) \<and>
    (\<forall>e ms. dict_at h e ms \<longrightarrow> footprint d ns \<inter> footprint e ms = {} \<longrightarrow>
       dict_at h' e ms \<and> footprint d (del_node k ns) \<inter> footprint e ms = {})"
proof -
  obtain h' where h': "dict_del h d k = Inr (k \<in> set (keys ns), h')" "dict_at h' d (del_node k ns)"
    "dmap (del_node k ns) = (dmap ns)(k := None)" "same_outside (footprint d ns) h h'"
    using dict_del_correct [OF d] by blast
  have "dict_at h' e ms \<and> footprint d (del_node k ns) \<inter> footprint e ms = {}"
    if "dict_at h e ms" "footprint d ns \<inter> footprint e ms = {}" for e ms
    using dict_at_frame [OF that(1) h'(4)] footprint_del_node [of d k ns] that(2) by blast
  with h' show ?thesis by blast
qed

interpretation dm: heap_map dict_rep dict_get dict_set dict_del
proof unfold_locales
  fix h d m A k v
  assume "dict_rep h d m A"
  then obtain ns where ns: "dict_at h d ns" "dmap ns = m" "footprint d ns = A"
    unfolding dict_rep_def by blast
  show "dict_get h d k = Inr (case m k of None \<Rightarrow> 0 | Some v \<Rightarrow> v)"
    using dict_get_correct [OF ns(1)] ns(2) by simp
  show "dict_set h d k v = Inl Exited \<or>
      (\<exists>h' A'. dict_set h d k v = Inr (True, h') \<and> dict_rep h' d (m(k \<mapsto> v)) A' \<and>
        (\<forall>e m2 B. dict_rep h e m2 B \<longrightarrow> A \<inter> B = {} \<longrightarrow> dict_rep h' e m2 B \<and> A' \<inter> B = {}))"
    using dict_set_frame [OF ns(1), of k v] ns(2,3) unfolding dict_rep_def by blast
  have eq: "m k \<noteq> None \<longleftrightarrow> k \<in> set (keys ns)" using dmap_None_iff [of ns k] by (simp add: ns(2))
  show "\<exists>h' A'. dict_del h d k = Inr (m k \<noteq> None, h') \<and> dict_rep h' d (m(k := None)) A' \<and>
        (\<forall>e m2 B. dict_rep h e m2 B \<longrightarrow> A \<inter> B = {} \<longrightarrow> dict_rep h' e m2 B \<and> A' \<inter> B = {})"
    unfolding eq using dict_del_frame [OF ns(1), of k] ns(2,3) unfolding dict_rep_def by blast
qed

section \<open>A walk over a heap that changes\<close>

text \<open>
  One iteration of the loop of \<open>get\<close>: the value returned, or the node to look at next. A walk
  whose iterations find the heaps of the list, one after the other.
\<close>

definition get_step :: "heap \<Rightarrow> string \<Rightarrow> addr \<Rightarrow> (uint32 + addr) res" where
  "get_step h k cur =
     (if cur = 0 then Inr (Inl 0)
      else bindR (load h cur) (\<lambda>it. bindR (strcmp_key it k) (\<lambda>eq.
        Inr (if eq then Inl (di_value it) else Inr (di_next it)))))"

fun walk :: "heap list \<Rightarrow> string \<Rightarrow> addr \<Rightarrow> (uint32 + addr) res" where
  "walk [] k cur = Inr (Inr cur)"
| "walk (h # hs) k cur = bindR (get_step h k cur) (\<lambda>r. case r of Inl v \<Rightarrow> Inr (Inl v) | Inr a \<Rightarrow> walk hs k a)"

text \<open>In a heap that stays the same the walk is the loop.\<close>

lemma get_loop_walk:
  "get_loop n h cur k = bindR (walk (replicate n h) k cur) (\<lambda>r. case r of Inl v \<Rightarrow> Inr v | Inr _ \<Rightarrow> Inl No_Return)"
proof (induction n arbitrary: cur)
  case (Suc n)
  show ?case
  proof (cases "cur = 0")
    case False
    show ?thesis
    proof (cases "cell h cur")
      case (Some it)
      then show ?thesis using Suc False
        by (cases "di_key it") (simp_all add: get_step_def load_Some strcmp_key_def)
    qed (use False in \<open>simp add: get_step_def load_def\<close>)
  qed (simp add: get_step_def)
qed simp

lemma walk_skip:
  "seg h p ms q \<Longrightarrow> k \<notin> set (keys ms) \<Longrightarrow> walk (replicate (length ms) h @ hs) k p = walk hs k q"
  by (induction h p ms q rule: seg.induct)
    (auto simp: get_step_def load_Some dest: cell_Some_bounds split: option.splits)

lemma walk_seg:
  assumes "seg h p ns 0" "length ns < n"
  shows "walk (replicate n h) k p = Inr (Inl (case dmap ns k of None \<Rightarrow> 0 | Some v \<Rightarrow> v))"
proof (cases "walk (replicate n h) k p")
  case (Inr r)
  then show ?thesis using get_loop_seg [OF assms, of k] unfolding get_loop_walk by (cases r) simp_all
qed (use get_loop_seg [OF assms, of k] in \<open>simp add: get_loop_walk\<close>)

lemma del_node_keeps:
  assumes "k \<noteq> k'"
  obtains ms' rest' where "del_node k (ms @ (a, k', v) # rest) = ms' @ (a, k', v) # rest'"
    "set (keys ms') \<subseteq> set (keys ms)"
proof (induction ms arbitrary: thesis)
  case Nil
  show ?case using assms Nil [of "[]" "del_node k rest"] by simp
next
  case (Cons n ms)
  obtain b j w where n: "n = (b, j, w)" by (cases n)
  obtain ms' rest' where r: "del_node k (ms @ (a, k', v) # rest) = ms' @ (a, k', v) # rest'"
    "set (keys ms') \<subseteq> set (keys ms)" by (rule Cons.IH)
  show ?case
  proof (cases "j = k")
    case True
    then show ?thesis using Cons.prems [of ms rest] n by auto
  next
    case False
    then show ?thesis using Cons.prems [of "n # ms'" rest'] n r by auto
  qed
qed

text \<open>
  A walk that has arrived at the node \<open>a\<close> when another thread deletes a key: it reads freed
  memory if the key is that node's, and otherwise ends with what the dictionary now holds.
\<close>

lemma walk_delete:
  assumes d: "dict_at h d (ms @ (a, k', v) # rest)" and s: "cell h d = Some s" and k: "k \<notin> set (keys ms)"
    and del: "dict_del h d j = Inr (b, h')"
  shows "walk (replicate (length ms) h @ replicate (length h) h') k (di_next s) =
    (if j = k' then Inl Bad_Pointer
     else Inr (Inl (case dmap (del_node j (ms @ (a, k', v) # rest)) k of None \<Rightarrow> 0 | Some v \<Rightarrow> v)))"
proof -
  from d s obtain "seg h (di_next s) ms a" by (auto elim!: dict_at_obtain simp: seg_append split: option.splits)
  then have w: "walk (replicate (length ms) h @ replicate (length h) h') k (di_next s) = walk (replicate (length h) h') k a"
    using k by (rule walk_skip)
  obtain n where n: "length h = Suc n" using dict_at_bound [OF d] by (cases "length h") auto
  show ?thesis
  proof (cases "j = k'")
    case True
    from dict_del_node [OF d] del True have "cell h' a = None" by auto
    moreover obtain s0 :: dict_item where "seg h (di_next s0) (ms @ (a, k', v) # rest) 0" using d by (rule dict_at_obtain)
    then have "seg h a ((a, k', v) # rest) 0" by (auto simp: seg_append split: option.splits)
    then have "0 < a" by (auto dest: cell_Some_bounds split: option.splits)
    ultimately have "walk (replicate (length h) h') k a = Inl Bad_Pointer"
      unfolding n by (simp add: get_step_def load_def)
    with True w show ?thesis by simp
  next
    case False
    let ?ns = "ms @ (a, k', v) # rest"
    obtain ms' rest' where ns': "del_node j ?ns = ms' @ (a, k', v) # rest'" "set (keys ms') \<subseteq> set (keys ms)"
      using False by (rule del_node_keeps)
    have at: "dict_at h' d (ms' @ (a, k', v) # rest')" and len: "length h' = length h"
      using dict_del_correct [OF d, of j] del ns' by (auto simp: same_outside_def)
    obtain s' :: dict_item where "seg h' (di_next s') (ms' @ (a, k', v) # rest') 0" using at by (rule dict_at_obtain)
    then have sg: "seg h' a ((a, k', v) # rest') 0" by (auto simp: seg_append split: option.splits)
    have "length ((a, k', v) # rest') < length h" using dict_at_bound [OF at] len by simp
    from walk_seg [OF sg this, of k] have "walk (replicate (length h) h') k a =
        Inr (Inl (case dmap ((a, k', v) # rest') k of None \<Rightarrow> 0 | Some v \<Rightarrow> v))" .
    moreover have "dmap (del_node j ?ns) k = dmap ((a, k', v) # rest') k"
    proof -
      have "k \<notin> set (keys ms')" using ns'(2) k by blast
      then have "dmap (ms' @ xs) k = dmap xs k" for xs by (induction ms') auto
      then show ?thesis unfolding ns'(1) .
    qed
    ultimately show ?thesis using False w by simp
  qed
qed

section \<open>Properties\<close>

text \<open>
  C15: \<open>get\<close> takes no lock. When another thread deletes a key while the walk is about to look at
  a node, the walk reads freed memory exactly if the key is that node's; otherwise it ends,
  with what the dictionary holds after the deletion.
\<close>

theorem get_over_delete:
  assumes "dict_at h d (ms @ (a, k', v) # rest)" "cell h d = Some s" "k \<notin> set (keys ms)"
    and "dict_del h d j = Inr (b, h')"
  shows "walk (replicate (length ms) h @ replicate (length h) h') k (di_next s) =
    (if j = k' then Inl Bad_Pointer
     else Inr (Inl (case dmap (del_node j (ms @ (a, k', v) # rest)) k of None \<Rightarrow> 0 | Some v \<Rightarrow> v)))"
  by (rule walk_delete [OF assms])

definition two_students :: heap where
  "two_students = [None, Some \<lparr>di_key = None, di_value = 0, di_next = 3\<rparr>,
     Some \<lparr>di_key = Some ''06'', di_value = 8, di_next = 0\<rparr>, Some \<lparr>di_key = Some ''05'', di_value = 7, di_next = 2\<rparr>]"

theorem get_over_delete_witness:
  "\<exists>h'. dict_del two_students 1 ''05'' = Inr (True, h') \<and>
     walk (replicate 0 two_students @ replicate 4 h') ''06'' 3 = Inl Bad_Pointer"
proof -
  have d: "dict_at two_students 1 ([] @ (3, ''05'', 7) # [(2, ''06'', 8)])"
    and c: "cell two_students 1 = Some \<lparr>di_key = None, di_value = 0, di_next = 3\<rparr>"
    by (simp_all add: dict_at_def two_students_def cell_def)
  have "case dict_del two_students 1 ''05'' of Inl e \<Rightarrow> False | Inr (b, _) \<Rightarrow> b" by code_simp
  then obtain h' where h': "dict_del two_students 1 ''05'' = Inr (True, h')" by (auto split: sum.splits)
  have "length two_students = 4" by (simp add: two_students_def)
  with get_over_delete [OF d c _ h', of "''06''"] h' show ?thesis by auto
qed

end
