(* ===== verification/Student.thy ===== *)
theory Student
  imports C_Prelude
begin

text \<open>
  The per-student state of \<open>merger/merger.h\<close>, the part of \<open>handle_student\<close>
  (\<open>merger/server.c\<close>) that updates it and the part of \<open>check_timers\<close>
  (\<open>merger/timeout.c\<close>) that judges it. A student is a sequence of detections, each by
  the master (0) or the slave (1) receiver; the state keeps counts over the first five
  and the bits of the last five. The section on sequences gives its meaning: the judgement
  compares the majority among the first five detections with the one among the last five.
\<close>

section \<open>State and its packing into an int\<close>

definition HEAD_SAMPLE_LEN :: nat where "HEAD_SAMPLE_LEN = 5"

text \<open>\<open>student_state\<close>: bit fields of 4, 4 and 5 bits.\<close>

record student_state =
  head_master_count :: "4 word"
  head_slave_count :: "4 word"
  tail :: "5 word"

text \<open>
  The union \<open>state2int\<close>, read in either direction. gcc lays bit fields out from the low
  end on this target; the padding bits are zero here and are never read.
\<close>

definition state_of_int :: "uint32 \<Rightarrow> student_state" where
  "state_of_int i = \<lparr>head_master_count = ucast i, head_slave_count = ucast (drop_bit 4 i),
     tail = ucast (drop_bit 8 i)\<rparr>"

definition int_of_state :: "student_state \<Rightarrow> uint32" where
  "int_of_state s = ucast (head_master_count s) OR push_bit 4 (ucast (head_slave_count s))
     OR push_bit 8 (ucast (tail s))"

section \<open>Operations\<close>

definition head_count :: "student_state \<Rightarrow> int" where
  "head_count s = uint (head_master_count s) + uint (head_slave_count s)"

text \<open>
  One detection, \<open>handle_student\<close> between reading and writing the dictionary. The
  operands are promoted to \<open>int\<close>, the results truncated to the bit fields.
\<close>

definition update_state :: "int \<Rightarrow> student_state \<Rightarrow> student_state" where
  "update_state action s0 =
     (let s = s0\<lparr>tail := word_of_int
               ((push_bit 1 (uint (tail s0)) + action) AND (push_bit HEAD_SAMPLE_LEN 1 - 1))\<rparr>
      in if head_count s < int HEAD_SAMPLE_LEN
         then (if action \<noteq> 0 then s\<lparr>head_slave_count := head_slave_count s + 1\<rparr>
               else s\<lparr>head_master_count := head_master_count s + 1\<rparr>)
         else s)"

text \<open>The loop \<open>while (tail) { count += tail & 1; tail >>= 1; }\<close> on \<open>unsigned\<close> values.\<close>

function tail_loop :: "nat \<Rightarrow> nat \<Rightarrow> nat" where
  "tail_loop t count = (if t \<noteq> 0 then tail_loop (drop_bit 1 t) (count + (t AND 1)) else count)"
  by pat_completeness auto
termination
  by (relation "measure fst") (auto simp: drop_bit_eq_div)

declare tail_loop.simps [simp del]

text \<open>The decision of \<open>check_timers\<close>: the action to notify, if any.\<close>

definition head_isslave :: "student_state \<Rightarrow> bool" where
  "head_isslave s \<longleftrightarrow> uint (head_slave_count s) > uint (head_master_count s)"

definition tail_isslave :: "student_state \<Rightarrow> bool" where
  "tail_isslave s \<longleftrightarrow> int (tail_loop (unat (tail s)) 0) * 2 > head_count s"

definition judge :: "student_state \<Rightarrow> bool option" where
  "judge s = (if head_isslave s \<noteq> tail_isslave s then Some (head_isslave s) else None)"

section \<open>Packing\<close>

lemma state_of_int_0: "state_of_int 0 = \<lparr>head_master_count = 0, head_slave_count = 0, tail = 0\<rparr>"
  by (simp add: state_of_int_def)

lemma state_roundtrip: "state_of_int (int_of_state s) = s"
proof -
  have "ucast (int_of_state s) = head_master_count s"
    unfolding int_of_state_def
    by (rule bit_word_eqI) (auto simp: bit_simps)
  moreover have "ucast (drop_bit 4 (int_of_state s)) = head_slave_count s"
    unfolding int_of_state_def
    by (rule bit_word_eqI) (auto simp: bit_simps dest: bit_imp_le_length)
  moreover have "ucast (drop_bit 8 (int_of_state s)) = tail s"
    unfolding int_of_state_def
    by (rule bit_word_eqI) (auto simp: bit_simps dest: bit_imp_le_length)
  ultimately show ?thesis by (simp add: state_of_int_def)
qed

interpretation packed: codec int_of_state "\<lambda>i. Some (state_of_int i)" "\<lambda>_. True"
  by unfold_locales (simp add: state_roundtrip)

section \<open>Sequences of detections\<close>

definition run :: "bool list \<Rightarrow> student_state" where
  "run as = fold (\<lambda>a. update_state (of_bool a)) as (state_of_int 0)"

definition count :: "bool list \<Rightarrow> nat" where
  "count as = length (filter id as)"

definition majority :: "bool list \<Rightarrow> bool" where
  "majority as \<longleftrightarrow> 2 * count as > length as"

definition first_five :: "bool list \<Rightarrow> bool list" where
  "first_five as = take HEAD_SAMPLE_LEN as"

definition last_five :: "bool list \<Rightarrow> bool list" where
  "last_five as = drop (length as - HEAD_SAMPLE_LEN) as"

definition bits_value :: "bool list \<Rightarrow> nat" where
  "bits_value as = foldl (\<lambda>x a. 2 * x + of_bool a) 0 as"

lemma count_simps [simp]: "count [] = 0" "count (a # as) = of_bool a + count as"
  "count (as @ bs) = count as + count bs"
  by (simp_all add: count_def)

lemma count_le: "count as \<le> length as"
  by (simp add: count_def)

lemma count_replicate [simp]: "count (replicate n a) = (if a then n else 0)"
  by (induction n) auto

lemma bits_value_snoc [simp]: "bits_value [] = 0"
  "bits_value (as @ [a]) = 2 * bits_value as + of_bool a"
  by (simp_all add: bits_value_def)

lemma bits_value_append: "bits_value (as @ bs) = bits_value as * 2 ^ length bs + bits_value bs"
proof (induction bs rule: rev_induct)
  case Nil
  then show ?case by simp
next
  case (snoc b bs)
  have "bits_value (as @ bs @ [b]) = bits_value ((as @ bs) @ [b])" by simp
  also have "\<dots> = 2 * (bits_value as * 2 ^ length bs + bits_value bs) + of_bool b"
    unfolding bits_value_snoc snoc.IH ..
  finally show ?case by (simp add: algebra_simps)
qed

lemma bits_value_less: "bits_value as < 2 ^ length as"
proof (induction as rule: rev_induct)
  case Nil
  then show ?case by simp
next
  case (snoc a as)
  then show ?case by (cases a) auto
qed

lemma bits_value_last_five: "bits_value as mod 32 = bits_value (last_five as)"
proof (cases "length as \<le> 5")
  case True
  have "bits_value as < 32"
    using bits_value_less [of as] power_increasing [OF True, of "2 :: nat"] by simp
  with True show ?thesis by (simp add: last_five_def HEAD_SAMPLE_LEN_def)
next
  case False
  let ?xs = "take (length as - 5) as" and ?ys = "drop (length as - 5) as"
  have len: "length ?ys = 5" using False by simp
  have "bits_value as = bits_value (?xs @ ?ys)" by simp
  also have "\<dots> = bits_value ?xs * 32 + bits_value ?ys"
    unfolding bits_value_append len by simp
  finally show ?thesis
    using bits_value_less [of ?ys] len by (simp add: last_five_def HEAD_SAMPLE_LEN_def)
qed

lemma length_last_five: "length (last_five as) = length (first_five as)"
  by (auto simp: last_five_def first_five_def min_def)

section \<open>The bit counting loop\<close>

lemma tail_loop_0 [simp]: "tail_loop 0 c = c"
  by (simp add: tail_loop.simps)

lemma tail_loop_double: "tail_loop (2 * x + of_bool a) c = tail_loop x (c + of_bool a)"
proof (cases "2 * x + of_bool a = (0 :: nat)")
  case True
  then show ?thesis by (cases a) simp_all
next
  case False
  have "drop_bit 1 (2 * x + of_bool a) = x" by (simp add: drop_bit_eq_div)
  moreover have "(2 * x + of_bool a) AND 1 = (of_bool a :: nat)" by (simp add: and_one_eq)
  ultimately show ?thesis using False by (simp only: tail_loop.simps [of "2 * x + of_bool a"]) simp
qed

lemma tail_loop_bits: "tail_loop (bits_value as) c = c + count as"
proof (induction as arbitrary: c rule: rev_induct)
  case Nil
  then show ?case by simp
next
  case (snoc a as)
  have "tail_loop (bits_value (as @ [a])) c = tail_loop (bits_value as) (c + of_bool a)"
    unfolding bits_value_snoc by (rule tail_loop_double)
  then show ?case by (simp add: snoc.IH)
qed

section \<open>What the state means\<close>

lemma update_state_fields:
  "tail (update_state (of_bool a) s) = word_of_int (2 * uint (tail s) + of_bool a)"
  "head_slave_count (update_state (of_bool a) s) =
     (if head_count s < 5 \<and> a then head_slave_count s + 1 else head_slave_count s)"
  "head_master_count (update_state (of_bool a) s) =
     (if head_count s < 5 \<and> \<not> a then head_master_count s + 1 else head_master_count s)"
proof -
  have mask: "(push_bit HEAD_SAMPLE_LEN 1 - 1 :: int) = mask 5"
    by (simp add: HEAD_SAMPLE_LEN_def mask_eq_exp_minus_1)
  have "(word_of_int (x AND mask 5) :: 5 word) = word_of_int x" for x
    by (simp add: word_of_int_eq_iff flip: take_bit_eq_mask)
  moreover have "tail (update_state (of_bool a) s) = word_of_int
      ((push_bit 1 (uint (tail s)) + of_bool a) AND (push_bit HEAD_SAMPLE_LEN 1 - 1))"
    by (simp add: update_state_def Let_def)
  moreover have "push_bit 1 (uint (tail s)) = 2 * uint (tail s)" by (simp add: push_bit_eq_mult)
  ultimately show "tail (update_state (of_bool a) s) = word_of_int (2 * uint (tail s) + of_bool a)"
    unfolding mask by metis
qed (simp_all add: update_state_def Let_def head_count_def HEAD_SAMPLE_LEN_def)

lemma run_snoc: "run (as @ [a]) = update_state (of_bool a) (run as)"
  by (simp add: run_def)

lemma first_five_snoc:
  "first_five (as @ [a]) = (if length as < 5 then first_five as @ [a] else first_five as)"
  by (simp add: first_five_def HEAD_SAMPLE_LEN_def)

lemma length_first_five: "length (first_five as) = min 5 (length as)"
  by (simp add: first_five_def HEAD_SAMPLE_LEN_def min.commute)

lemma run_state:
  "unat (head_slave_count (run as)) = count (first_five as) \<and>
   unat (head_master_count (run as)) = length (first_five as) - count (first_five as) \<and>
   unat (tail (run as)) = bits_value as mod 32"
proof (induction as rule: rev_induct)
  case Nil
  show ?case by (simp add: run_def state_of_int_0 first_five_def)
next
  case (snoc a as)
  let ?s = "run as" and ?f = "first_five as"
  have sl: "unat (head_slave_count ?s) = count ?f"
    and ma: "unat (head_master_count ?s) = length ?f - count ?f"
    and ta: "unat (tail ?s) = bits_value as mod 32" using snoc by auto
  have hc: "head_count ?s = int (length ?f)"
    using count_le [of ?f] by (simp add: head_count_def uint_nat sl ma)
  have small: "head_count ?s < 5 \<longleftrightarrow> length as < 5"
    unfolding hc by (auto simp: length_first_five min_def)
  have inc: "unat (w + 1) = Suc (unat w)" if "unat w < 5" for w :: "4 word"
    using that by (simp add: unat_word_ariths)
  have "count ?f \<le> length as" "length ?f \<le> length as"
    using count_le [of ?f] by (simp_all add: length_first_five)
  then have slave: "unat (head_slave_count (run (as @ [a]))) = count (first_five (as @ [a]))"
    and master: "unat (head_master_count (run (as @ [a]))) =
      length (first_five (as @ [a])) - count (first_five (as @ [a]))"
    using count_le [of ?f] sl ma
    by (auto simp: run_snoc update_state_fields small first_five_snoc inc Suc_diff_le)
  have "tail (run (as @ [a])) = of_nat (2 * unat (tail ?s) + of_bool a)"
    by (simp add: run_snoc update_state_fields)
  then have "unat (tail (run (as @ [a]))) = (2 * (bits_value as mod 32) + of_bool a) mod 32"
    by (simp only: unat_of_nat ta) simp
  also have "\<dots> = (2 * bits_value as + of_bool a) mod 32"
    by (metis mod_add_left_eq mod_mult_right_eq)
  also have "\<dots> = bits_value (as @ [a]) mod 32" by simp
  finally show ?case using slave master by blast
qed

lemma head_count_run: "head_count (run as) = int (length (first_five as))"
  using run_state [of as] count_le [of "first_five as"] by (simp add: head_count_def uint_nat)

lemma head_isslave_run: "head_isslave (run as) \<longleftrightarrow> majority (first_five as)"
  using run_state [of as] count_le [of "first_five as"]
  by (auto simp: head_isslave_def majority_def uint_nat)

lemma tail_isslave_run: "tail_isslave (run as) \<longleftrightarrow> majority (last_five as)"
proof -
  have "tail_loop (unat (tail (run as))) 0 = count (last_five as)"
    using run_state [of as] tail_loop_bits [of "last_five as" 0] bits_value_last_five [of as] by simp
  then show ?thesis
    by (auto simp: tail_isslave_def head_count_run majority_def length_last_five)
qed

lemma judge_run:
  "judge (run as) =
     (if majority (first_five as) \<noteq> majority (last_five as) then Some (majority (first_five as))
      else None)"
  by (simp add: judge_def head_isslave_run tail_isslave_run)

lemma short_sequence: "length as \<le> 5 \<Longrightarrow> first_five as = last_five as"
  by (simp add: first_five_def last_five_def HEAD_SAMPLE_LEN_def)

text \<open>
  A state survives the trip through the \<open>int\<close> of the dictionary, and the value 0 that
  \<open>get\<close> returns for an unknown student is the state with no detection.
\<close>

theorem state2int_roundtrip:
  "state_of_int (int_of_state s) = s \<and> (int_of_state s = int_of_state t \<longleftrightarrow> s = t) \<and>
   state_of_int 0 = run []"
  using packed.enc_inj [of s t] by (simp add: state_roundtrip run_def)

text \<open>
  C28: after any sequence of detections the bit fields hold what their names say: the
  counts of slave and master detections among the first five (never above five, so the
  4-bit counters do not wrap) and the last five detections as bits, oldest highest.
\<close>

theorem run_fields:
  "unat (head_slave_count (run as)) = count (first_five as) \<and>
   unat (head_master_count (run as)) = length (first_five as) - count (first_five as) \<and>
   head_count (run as) = int (min 5 (length as)) \<and>
   unat (tail (run as)) = bits_value (last_five as)"
  using run_state [of as] head_count_run [of as] length_first_five [of as]
  by (simp add: bits_value_last_five)

text \<open>
  C10: the judgement of \<open>check_timers\<close> on the packed state is the comparison of the
  majority receiver of the first five detections with that of the last five; the notified
  action is IN (1) exactly when the slave saw the student first. The loop that counts the
  tail bits ends for every state.
\<close>

theorem judge_correct:
  "judge (run as) =
     (if majority (first_five as) = majority (last_five as) then None
      else Some (majority (first_five as)))"
  by (simp add: judge_run)

text \<open>
  A student seen at most five times is never reported, which is what the comment in
  \<open>check_timers\<close> claims (head and tail are then the same samples).
\<close>

theorem judge_short: "length as \<le> 5 \<Longrightarrow> judge (run as) = None"
  by (simp add: judge_run short_sequence)

theorem judge_short_witness:
  "length [True, False, False] \<le> 5 \<and> judge (run [True, False, False]) = None"
  using judge_short [of "[True, False, False]"] by simp

text \<open>
  A student who passes the gate in one direction, with at least three detections at
  either receiver, is reported in that direction: slave then master is IN, master then
  slave is OUT.
\<close>

theorem judge_passage:
  assumes "3 \<le> m" "3 \<le> n"
  shows "judge (run (replicate m b @ replicate n (\<not> b))) = Some b"
proof -
  let ?as = "replicate m b @ replicate n (\<not> b)"
  have "first_five ?as = replicate (min m 5) b @ replicate (5 - m) (\<not> b)"
    using assms by (auto simp: first_five_def HEAD_SAMPLE_LEN_def min_def)
  then have f: "majority (first_five ?as) = b" using assms by (auto simp: majority_def min_def)
  have "last_five ?as = replicate (m - (m + n - 5)) b @ replicate (n - (n - 5)) (\<not> b)"
    using assms by (auto simp: last_five_def HEAD_SAMPLE_LEN_def)
  then have "majority (last_five ?as) \<noteq> b" using assms by (auto simp: majority_def)
  with f show ?thesis by (simp add: judge_run)
qed

theorem judge_passage_witness:
  "(3::nat) \<le> 4 \<and> judge (run (replicate 4 True @ replicate 3 False)) = Some True"
  using judge_passage [of 4 3 True] by simp

end
