(* ===== verification/Config.thy ===== *)
theory Config
  imports C_Prelude
begin

text \<open>
  \<open>common/config.c\<close>: the configuration is a list of key/value pairs, newest first, filled
  by a character-driven parser with two buffers of 100 bytes. The parser is the source's
  label machine; a buffer without a terminating NUL is \<open>Out_Of_Bounds\<close> as soon as it is
  read as a string. Files written as key/value lines are shown to be read back, over-long
  keys to overrun the buffer, and lookups to see the newest value.
\<close>

section \<open>The list of settings\<close>

type_synonym conf = "(string \<times> string) list"

text \<open>A missing key is logged and reads as the empty string.\<close>

fun get_config :: "conf \<Rightarrow> string \<Rightarrow> string" where
  "get_config [] key = ''''"
| "get_config ((k, v) # cs) key = (if k = key then v else get_config cs key)"

definition add_config :: "string \<Rightarrow> string \<Rightarrow> conf \<Rightarrow> conf" where
  "add_config key val cs = (key, val) # cs"

text \<open>\<open>atoi(get_config(key))\<close>, the form in which most settings are used.\<close>

definition config_int :: "conf \<Rightarrow> string \<Rightarrow> int" where
  "config_int cs key = atoi (get_config cs key)"

section \<open>The parser\<close>

definition MAX_STRLEN :: nat where "MAX_STRLEN = 100"

text \<open>\<open>buf[strlen(buf)] = c\<close>: a full buffer has no NUL for \<open>strlen\<close> to find.\<close>

definition append_char :: "string \<Rightarrow> char \<Rightarrow> string res" where
  "append_char buf c = (if length buf < MAX_STRLEN then Inr (buf @ [c]) else Inl Out_Of_Bounds)"

text \<open>Reading a buffer as a string, as \<open>debug\<close> and \<open>strdup\<close> do.\<close>

definition buf_string :: "string \<Rightarrow> string res" where
  "buf_string buf = (if length buf < MAX_STRLEN then Inr buf else Inl Out_Of_Bounds)"

datatype label = Beginline | Comment | Readkey | Readvalue

text \<open>
  One call is the code at a label with the current character \<open>c\<close> and the unread rest of
  the file. End of file and a NUL byte both make \<open>__next\<close> return 0, on which \<open>next()\<close>
  returns false from the parser and \<open>next_maybe_eof()\<close> returns true.
\<close>

function parse_loop :: "label \<Rightarrow> char \<Rightarrow> string \<Rightarrow> string \<Rightarrow> string \<Rightarrow> conf \<Rightarrow> (bool \<times> conf) res" where
  "parse_loop Beginline c rest key val cs =
     (if c = CHR '';'' \<or> c = CHR ''['' then parse_loop Comment c rest key val cs
      else if c = NL then
        (case rest of [] \<Rightarrow> Inr (True, cs)
         | c' # rest' \<Rightarrow> if c' = NUL then Inr (True, cs)
                       else parse_loop Beginline c' rest' key val cs)
      else parse_loop Readkey c rest key val cs)"
| "parse_loop Comment c rest key val cs =
     (case rest of [] \<Rightarrow> Inr (False, cs)
      | c' # rest' \<Rightarrow> if c' = NUL then Inr (False, cs)
                    else if c' \<noteq> NL then parse_loop Comment c' rest' key val cs
                    else parse_loop Beginline c' rest' key val cs)"
| "parse_loop Readkey c rest key val cs =
     (if isgraph c \<and> c = CHR ''='' then
        (case rest of [] \<Rightarrow> Inr (False, cs)
         | c' # rest' \<Rightarrow> if c' = NUL then Inr (False, cs)
                       else parse_loop Readvalue c' rest' key val cs)
      else case (if isgraph c then append_char key c else Inr key) of
        Inl e \<Rightarrow> Inl e
      | Inr key' \<Rightarrow>
          (case rest of [] \<Rightarrow> Inr (False, cs)
           | c' # rest' \<Rightarrow> if c' = NUL then Inr (False, cs)
                         else parse_loop Readkey c' rest' key' val cs))"
| "parse_loop Readvalue c rest key val cs =
     (if c = NL then
        (case buf_string key of Inl e \<Rightarrow> Inl e
         | Inr k \<Rightarrow> (case buf_string val of Inl e \<Rightarrow> Inl e
            | Inr v \<Rightarrow>
                (case rest of [] \<Rightarrow> Inr (True, add_config k v cs)
                 | c' # rest' \<Rightarrow> if c' = NUL then Inr (True, add_config k v cs)
                               else parse_loop Beginline c' rest' [] [] (add_config k v cs))))
      else case (if isgraph c \<and> c \<noteq> CHR 0x22 then append_char val c else Inr val) of
        Inl e \<Rightarrow> Inl e
      | Inr val' \<Rightarrow>
          (case rest of [] \<Rightarrow> Inr (False, cs)
           | c' # rest' \<Rightarrow> if c' = NUL then Inr (False, cs)
                         else parse_loop Readvalue c' rest' key val' cs))"
  by pat_completeness auto
termination
  by (relation "measures [\<lambda>(l, c, rest, _). length rest, \<lambda>(l, _). case l of Beginline \<Rightarrow> 1 | _ \<Rightarrow> 0]")
    auto

declare parse_loop.simps [simp del]

definition parse_config :: "string \<Rightarrow> conf \<Rightarrow> (bool \<times> conf) res" where
  "parse_config text cs =
     (case text of [] \<Rightarrow> Inr (True, cs)
      | c # rest \<Rightarrow> if c = NUL then Inr (True, cs) else parse_loop Beginline c rest [] [] cs)"

section \<open>Loading and reloading\<close>

record config_state =
  settings :: conf
  saved_conf_file :: "string option"

text \<open>The file system as \<open>fopen\<close> sees it: \<open>None\<close> for a file that cannot be opened.\<close>

type_synonym files = "string \<Rightarrow> string option"

definition load_config :: "files \<Rightarrow> string \<Rightarrow> config_state \<Rightarrow> (bool \<times> config_state) res" where
  "load_config fs config_file st =
     (case fs config_file of None \<Rightarrow> Inr (False, st)
      | Some text \<Rightarrow> bindR (parse_config text (settings st)) (\<lambda>(ok, cs).
          Inr (ok, st\<lparr>settings := cs, saved_conf_file := Some config_file\<rparr>)))"

definition reload_configs :: "files \<Rightarrow> config_state \<Rightarrow> (bool \<times> config_state) res" where
  "reload_configs fs st =
     (case saved_conf_file st of None \<Rightarrow> Inr (False, st)
      | Some f \<Rightarrow> (case fs f of None \<Rightarrow> Inr (False, st)
         | Some text \<Rightarrow> bindR (parse_config text (settings st)) (\<lambda>(ok, cs).
             Inr (ok, st\<lparr>settings := cs\<rparr>))))"

section \<open>Reading on at a label\<close>

text \<open>\<open>next(); goto l;\<close> over the unread text.\<close>

definition feed :: "label \<Rightarrow> string \<Rightarrow> string \<Rightarrow> string \<Rightarrow> conf \<Rightarrow> (bool \<times> conf) res" where
  "feed l text key val cs =
     (case text of [] \<Rightarrow> Inr (False, cs)
      | c # rest \<Rightarrow> if c = NUL then Inr (False, cs) else parse_loop l c rest key val cs)"

definition plain :: "char \<Rightarrow> bool" where
  "plain c \<longleftrightarrow> c \<noteq> NUL \<and> c \<noteq> NL"

definition key_char :: "char \<Rightarrow> bool" where
  "key_char c \<longleftrightarrow> isgraph c \<and> c \<noteq> CHR ''=''"

definition value_char :: "char \<Rightarrow> bool" where
  "value_char c \<longleftrightarrow> isgraph c \<and> c \<noteq> CHR 0x22"

lemma isgraph_plain: "isgraph c \<Longrightarrow> plain c"
  unfolding plain_def isgraph_def by (intro conjI notI) (simp_all add: ord_def)

lemma isgraph_newline [simp]: "\<not> isgraph NL" "\<not> isgraph NUL" "\<not> isgraph CHR '' ''" "isgraph CHR ''=''"
  by (simp_all add: isgraph_def ord_def)

lemma feed_simps [simp]: "feed l [] key val cs = Inr (False, cs)"
  by (simp add: feed_def)

lemma parse_config_simps [simp]: "parse_config [] cs = Inr (True, cs)"
  "c \<noteq> NUL \<Longrightarrow> parse_config (c # text) cs = parse_loop Beginline c text [] [] cs"
  by (simp_all add: parse_config_def)

lemma next_maybe_eof_fold:
  "(case rest of [] \<Rightarrow> Inr (True, cs)
    | c # rest' \<Rightarrow> if c = NUL then Inr (True, cs) else parse_loop Beginline c rest' [] [] cs) =
   parse_config rest cs"
  by (simp add: parse_config_def)

lemma next_fold:
  "(case rest of [] \<Rightarrow> Inr (False, cs)
    | c # rest' \<Rightarrow> if c = NUL then Inr (False, cs) else parse_loop l c rest' key val cs) =
   feed l rest key val cs"
  by (simp add: feed_def)

lemma beginline_NL [simp]: "parse_loop Beginline NL rest [] [] cs = parse_config rest cs"
  by (subst parse_loop.simps(1)) (simp add: next_maybe_eof_fold)

lemma comment_line:
  "list_all plain s \<Longrightarrow> parse_loop Comment c (s @ NL # later) [] [] cs = parse_config later cs"
  by (induction s arbitrary: c) (simp_all add: parse_loop.simps(2) plain_def)

lemma feed_readkey_char:
  "key_char c \<Longrightarrow> length key < MAX_STRLEN \<Longrightarrow>
    feed Readkey (c # text) key val cs = feed Readkey text (key @ [c]) val cs"
  using isgraph_plain [of c]
  by (auto simp: feed_def [of _ "c # text"] parse_loop.simps(3) key_char_def plain_def append_char_def next_fold)

lemma feed_readkey_full:
  "key_char c \<Longrightarrow> MAX_STRLEN \<le> length key \<Longrightarrow>
    feed Readkey (c # text) key val cs = Inl Out_Of_Bounds"
  using isgraph_plain [of c]
  by (auto simp: feed_def parse_loop.simps(3) key_char_def plain_def append_char_def)

lemma feed_readkey_space: "feed Readkey (CHR '' '' # text) key val cs = feed Readkey text key val cs"
  by (simp add: feed_def [of _ "CHR '' '' # text"] parse_loop.simps(3) next_fold)

lemma feed_readkey_eq: "feed Readkey (CHR ''='' # text) key val cs = feed Readvalue text key val cs"
  by (simp add: feed_def [of _ "CHR ''='' # text"] parse_loop.simps(3) next_fold)

lemma feed_readvalue_char:
  "plain c \<Longrightarrow> length val < MAX_STRLEN \<Longrightarrow>
    feed Readvalue (c # text) key val cs =
    feed Readvalue text key (if value_char c then val @ [c] else val) cs"
  by (auto simp: feed_def [of _ "c # text"] parse_loop.simps(4) plain_def value_char_def
      append_char_def next_fold)

lemma feed_readvalue_NL:
  "feed Readvalue (NL # text) key val cs =
     bindR (buf_string key) (\<lambda>k. bindR (buf_string val) (\<lambda>v. parse_config text (add_config k v cs)))"
  by (simp add: feed_def [of _ "NL # text"] parse_loop.simps(4) next_maybe_eof_fold buf_string_def)

section \<open>Lines\<close>

text \<open>The lines a configuration file is written in.\<close>

datatype line = Blank | Comment_Line string | Section_Line string | Entry string string

fun render :: "line \<Rightarrow> string" where
  "render Blank = [NL]"
| "render (Comment_Line s) = CHR '';'' # s @ [NL]"
| "render (Section_Line s) = CHR ''['' # s @ [NL]"
| "render (Entry k v) = k @ '' = '' @ v @ [NL]"

fun entry_of :: "line \<Rightarrow> conf" where
  "entry_of (Entry k v) = [(k, filter value_char v)]"
| "entry_of _ = []"

text \<open>What an entry needs to be read back: the buffers have room for it and its NUL.\<close>

fun well_formed :: "line \<Rightarrow> bool" where
  "well_formed Blank = True"
| "well_formed (Comment_Line s) = list_all plain s"
| "well_formed (Section_Line s) = list_all plain s"
| "well_formed (Entry k v) =
     (list_all key_char k \<and> list_all plain v \<and>
      (case k of [] \<Rightarrow> False | c # _ \<Rightarrow> c \<noteq> CHR '';'' \<and> c \<noteq> CHR ''['') \<and>
      length k < MAX_STRLEN \<and> length (filter value_char v) < MAX_STRLEN)"

lemma feed_readkey_all:
  "list_all key_char ks \<Longrightarrow> length key + length ks \<le> MAX_STRLEN \<Longrightarrow>
    feed Readkey (ks @ text) key val cs = feed Readkey text (key @ ks) val cs"
  by (induction ks arbitrary: key) (auto simp: feed_readkey_char)

lemma feed_readvalue_all:
  "list_all plain vs \<Longrightarrow> length val + length (filter value_char vs) < MAX_STRLEN \<Longrightarrow>
    feed Readvalue (vs @ text) key val cs =
    feed Readvalue text key (val @ filter value_char vs) cs"
  by (induction vs arbitrary: val) (auto simp: feed_readvalue_char)

lemma parse_config_key:
  assumes "key_char c" "c \<noteq> CHR '';''" "c \<noteq> CHR ''[''"
  shows "parse_config (c # text) cs = feed Readkey (c # text) [] [] cs"
proof -
  have "plain c" using assms(1) isgraph_plain by (simp add: key_char_def)
  then show ?thesis
    using assms by (simp add: plain_def feed_def parse_loop.simps(1))
qed

lemma entry_tail:
  assumes "list_all plain v" "length (filter value_char v) < MAX_STRLEN"
  shows "feed Readkey ('' = '' @ v @ NL # later) k [] cs =
    bindR (buf_string k) (\<lambda>k. parse_config later ((k, filter value_char v) # cs))"
proof -
  have "plain CHR '' ''" "\<not> value_char CHR '' ''" by (simp_all add: plain_def value_char_def)
  then show ?thesis
    using assms feed_readvalue_all [of v "[]"]
    by (simp add: feed_readkey_space feed_readkey_eq feed_readvalue_char feed_readvalue_NL
        buf_string_def add_config_def MAX_STRLEN_def)
qed

lemma parse_config_entry:
  assumes "well_formed (Entry k v)"
  shows "parse_config (render (Entry k v) @ later) cs = parse_config later ((k, filter value_char v) # cs)"
proof -
  obtain c ks where k: "k = c # ks" using assms by (cases k) auto
  have "parse_config (render (Entry k v) @ later) cs = feed Readkey (k @ '' = '' @ v @ NL # later) [] [] cs"
    using assms parse_config_key [of c] by (simp add: k)
  also have "\<dots> = feed Readkey ('' = '' @ v @ NL # later) k [] cs"
    using assms feed_readkey_all [of k "[]"] by simp
  also have "\<dots> = parse_config later ((k, filter value_char v) # cs)"
    using assms entry_tail [of v later k cs] by (simp add: buf_string_def)
  finally show ?thesis .
qed

lemma parse_config_line:
  assumes "well_formed l"
  shows "parse_config (render l @ later) cs = parse_config later (entry_of l @ cs)"
proof (cases l)
  case Blank
  then show ?thesis by simp
next
  case (Comment_Line s)
  with assms show ?thesis by (simp add: parse_loop.simps(1) comment_line)
next
  case (Section_Line s)
  with assms show ?thesis by (simp add: parse_loop.simps(1) comment_line)
next
  case (Entry k v)
  with assms show ?thesis using parse_config_entry by simp
qed

lemma parse_config_lines:
  "list_all well_formed ls \<Longrightarrow>
    parse_config (concat (map render ls) @ later) cs =
    parse_config later (rev (concat (map entry_of ls)) @ cs)"
proof (induction ls arbitrary: cs)
  case Nil
  then show ?case by simp
next
  case (Cons l ls)
  have "rev (entry_of l) = entry_of l" by (cases l) simp_all
  with Cons show ?case by (simp add: parse_config_line)
qed

lemma get_config_append:
  "get_config (xs @ ys) k = (if k \<in> fst ` set xs then get_config xs k else get_config ys k)"
  by (induction xs k rule: get_config.induct) auto

lemma readkey_overrun:
  assumes "list_all key_char ks" "MAX_STRLEN \<le> length ks" "list_all plain v"
    "length (filter value_char v) < MAX_STRLEN"
  shows "feed Readkey (ks @ '' = '' @ v @ NL # later) [] [] cs = Inl Out_Of_Bounds"
proof (cases "length ks = MAX_STRLEN")
  case True
  then show ?thesis
    using assms feed_readkey_all [of ks "[]"] entry_tail [of v later ks cs] by (simp add: buf_string_def)
next
  case False
  let ?a = "take MAX_STRLEN ks"
  from False assms(2) obtain c bs where d: "drop MAX_STRLEN ks = c # bs"
    by (cases "drop MAX_STRLEN ks") auto
  have ks: "ks = ?a @ c # bs" using d append_take_drop_id [of MAX_STRLEN ks] by metis
  have a: "list_all key_char ?a" "key_char c"
    using assms(1) arg_cong [OF ks, of "list_all key_char"] by simp_all
  let ?rest = "bs @ '' = '' @ v @ NL # later"
  have "feed Readkey (?a @ c # ?rest) [] [] cs = feed Readkey (c # ?rest) ?a [] cs"
    using a feed_readkey_all [of ?a "[]" "c # ?rest"] assms(2) by simp
  also have "\<dots> = Inl Out_Of_Bounds"
    using a assms(2) by (intro feed_readkey_full) simp_all
  finally show ?thesis using ks by (metis append_Cons append_assoc)
qed

section \<open>Properties\<close>

text \<open>
  C22: a file written as blank lines, comments, section names and \<open>key = value\<close> lines is
  parsed to its end, and afterwards the settings are the file's entries in front of the old
  ones, last line first, with the values stripped of white space and quotes.
\<close>

theorem parse_config_render:
  assumes "list_all well_formed ls"
  shows "parse_config (concat (map render ls)) cs = Inr (True, rev (concat (map entry_of ls)) @ cs)"
  using parse_config_lines [OF assms, of "[]" cs] by simp

theorem parse_config_render_witness:
  "list_all well_formed [Section_Line ''student]'', Entry ''student.timeout'' ''60'', Blank] \<and>
   parse_config (concat (map render [Section_Line ''student]'', Entry ''student.timeout'' ''60'', Blank]))
     [(''a'', ''b'')] = Inr (True, [(''student.timeout'', ''60''), (''a'', ''b'')])"
proof -
  have w: "list_all well_formed [Section_Line ''student]'', Entry ''student.timeout'' ''60'', Blank]"
    by code_simp
  have v: "filter value_char ''60'' = ''60''" by code_simp
  show ?thesis using w parse_config_render [OF w, of "[(''a'', ''b'')]"]
    by (simp only: v list.map entry_of.simps concat.simps append.simps rev.simps simp_thms)
qed

text \<open>
  C23: a setting that occurs again overrides the earlier one, on the same pass or on a
  reload, and settings the new file does not mention keep their value: a lookup after a
  successful reload finds the last line of the file for its key, else the old value.
\<close>

theorem reload_overrides:
  assumes "saved_conf_file st = Some f" "fs f = Some (concat (map render ls))" "list_all well_formed ls"
  shows "\<exists>st'. reload_configs fs st = Inr (True, st') \<and> saved_conf_file st' = Some f \<and>
    (\<forall>k. get_config (settings st') k =
       (let new = rev (concat (map entry_of ls))
        in if k \<in> fst ` set new then get_config new k else get_config (settings st) k))"
  using assms parse_config_lines [OF assms(3), of "[]"]
  by (simp add: reload_configs_def get_config_append Let_def)

theorem reload_overrides_witness:
  "\<exists>st'. reload_configs (\<lambda>_. Some (concat (map render [Entry ''k'' ''1'', Entry ''k'' ''2''])))
      \<lparr>settings = [(''k'', ''0''), (''j'', ''7'')], saved_conf_file = Some ''f''\<rparr> = Inr (True, st') \<and>
    get_config (settings st') ''k'' = ''2'' \<and> get_config (settings st') ''j'' = ''7''"
proof -
  have w: "list_all well_formed [Entry ''k'' ''1'', Entry ''k'' ''2'']" by code_simp
  have v: "value_char CHR ''1''" "value_char CHR ''2''" by code_simp+
  let ?st = "\<lparr>settings = [(''k'', ''0''), (''j'', ''7'')], saved_conf_file = Some ''f''\<rparr>"
  let ?fs = "\<lambda>_ :: string. Some (concat (map render [Entry ''k'' ''1'', Entry ''k'' ''2'']))"
  obtain st' where st': "reload_configs ?fs ?st = Inr (True, st')"
    and look: "\<forall>k. get_config (settings st') k =
       (let new = rev (concat (map entry_of [Entry ''k'' ''1'', Entry ''k'' ''2'']))
        in if k \<in> fst ` set new then get_config new k else get_config (settings ?st) k)"
    using reload_overrides [of ?st "''f''" ?fs, OF _ _ w] by auto
  show ?thesis
    using st' look [rule_format, of "''k''"] look [rule_format, of "''j''"] by (auto simp: Let_def v)
qed

text \<open>
  The parser does not check its buffers: a line whose key has 100 or more characters
  makes it read or write beyond \<open>key[100]\<close>.
\<close>

theorem long_key_overruns:
  assumes "list_all key_char k" "MAX_STRLEN \<le> length k" "hd k \<noteq> CHR '';''" "hd k \<noteq> CHR ''[''"
    "list_all plain v" "length (filter value_char v) < MAX_STRLEN"
  shows "parse_config (render (Entry k v)) cs = Inl Out_Of_Bounds"
proof -
  obtain c ks where k: "k = c # ks" using assms(2) by (cases k) (auto simp: MAX_STRLEN_def)
  have "parse_config (render (Entry k v)) cs = feed Readkey (k @ '' = '' @ v @ NL # []) [] [] cs"
    using assms parse_config_key [of c "ks @ '' = '' @ v @ [NL]"] by (simp add: k)
  then show ?thesis using readkey_overrun [OF assms(1,2,5,6)] by metis
qed

theorem long_key_overruns_witness:
  "MAX_STRLEN \<le> length (replicate 100 CHR ''k'') \<and>
   parse_config (render (Entry (replicate 100 CHR ''k'') ''1'')) [] = Inl Out_Of_Bounds"
proof -
  have k: "key_char CHR ''k''" and v: "list_all plain ''1''" "length (filter value_char ''1'') < MAX_STRLEN"
    by code_simp+
  have "list_all key_char (replicate 100 CHR ''k'')"
    by (simp only: list_all_iff set_replicate_conv_if) (simp add: k)
  from long_key_overruns [OF this _ _ _ v, of "[]"] show ?thesis by (simp add: MAX_STRLEN_def)
qed

text \<open>
  A final line without a line break is dropped and fails the whole load.
\<close>

theorem missing_newline_fails:
  assumes "list_all well_formed ls" "well_formed (Entry k v)"
  shows "parse_config (concat (map render ls) @ butlast (render (Entry k v))) cs =
    Inr (False, rev (concat (map entry_of ls)) @ cs)"
proof -
  let ?cs = "rev (concat (map entry_of ls)) @ cs"
  obtain c ks where k: "k = c # ks" using assms(2) by (cases k) auto
  have "butlast (render (Entry k v)) = k @ '' = '' @ v"
    by (simp add: butlast_append)
  moreover have "parse_config (k @ '' = '' @ v) ?cs = feed Readkey (k @ '' = '' @ v) [] [] ?cs"
    using assms(2) parse_config_key [of c] by (simp add: k)
  moreover have "\<dots> = feed Readkey ('' = '' @ v) k [] ?cs"
    using assms(2) feed_readkey_all [of k "[]"] by simp
  moreover have "plain CHR '' ''" "\<not> value_char CHR '' ''" by (simp_all add: plain_def value_char_def)
  then have "feed Readkey ('' = '' @ v) k [] ?cs = Inr (False, ?cs)"
    using assms(2) feed_readvalue_all [of v "[]" "[]"]
    by (simp add: feed_readkey_space feed_readkey_eq feed_readvalue_char MAX_STRLEN_def)
  ultimately show ?thesis using parse_config_lines [OF assms(1)] by metis
qed

theorem missing_newline_fails_witness:
  "well_formed (Entry ''k'' ''1'') \<and>
   parse_config (butlast (render (Entry ''k'' ''1''))) [] = Inr (False, [])"
proof -
  have w: "well_formed (Entry ''k'' ''1'')" by code_simp
  show ?thesis using w missing_newline_fails [of "[]", OF _ w, of "[]"] by simp
qed

end
