(* ===== verification/Merger_Timeout.thy ===== *)
theory Merger_Timeout
  imports Dict Student Config
begin

text \<open>
  \<open>merger/timeout.c\<close> and the globals of \<open>merger/merger.c\<close> it works on: the queue of
  notifications, the timers, and \<open>check_timers\<close>, which removes the students that were
  not seen for a while and reports their direction. The timer walk is modelled on the
  heap, with the two pointers the source keeps, and shown to touch no freed node and to
  compute the list-level specification.
\<close>

section \<open>Globals\<close>

record sizes =
  PACKET_SIZE :: int
  ID_SIZE :: int
  REQUEST_SIZE :: int

definition load_global_configs :: "conf \<Rightarrow> sizes res" where
  "load_global_configs cs =
     (let n = config_int cs ''student.packet_size'' in
      if n < 1 then Inl Exited
      else bindR (c_int (n * 2)) (\<lambda>i. bindR (c_int (i + 2)) (\<lambda>r.
        Inr \<lparr>PACKET_SIZE = n, ID_SIZE = i, REQUEST_SIZE = r\<rparr>)))"

definition sizes_ok :: "sizes \<Rightarrow> bool" where
  "sizes_ok z \<longleftrightarrow> 1 \<le> PACKET_SIZE z \<and> ID_SIZE z = PACKET_SIZE z * 2 \<and> REQUEST_SIZE z = ID_SIZE z + 2
     \<and> REQUEST_SIZE z \<le> int_max"

text \<open>\<open>notify_queue\<close>, \<open>notify_queue_len\<close> and \<open>notify_queue_alloc_size\<close>.\<close>

record nqueue =
  nq_buf :: "char option list"
  nq_len :: int
  nq_alloc :: int

definition nq_empty :: nqueue where
  "nq_empty = \<lparr>nq_buf = [], nq_len = 0, nq_alloc = 0\<rparr>"

record merger =
  heap :: heap
  students :: addr
  timers :: addr
  queue :: nqueue

section \<open>Operations\<close>

text \<open>
  \<open>notify\<close>: grow the queue if needed, then copy the student number, the action digit and
  the separator. \<open>memcpy\<close> reads \<open>ID_SIZE\<close> bytes of the number, its NUL included if it is
  short.
\<close>

definition notify :: "sizes \<Rightarrow> string \<Rightarrow> bool \<Rightarrow> nqueue \<Rightarrow> nqueue res" where
  "notify z student_no action q =
     bindR (c_int (nq_len q + REQUEST_SIZE z)) (\<lambda>need.
     bindR (if need > nq_alloc q then
              bindR (c_int (nq_alloc q + REQUEST_SIZE z)) (\<lambda>s.
              bindR (c_int (s * 2)) (\<lambda>n.
                Inr (q\<lparr>nq_alloc := n, nq_buf := realloc_buf (nat n) (nq_buf q)\<rparr>)))
            else Inr q) (\<lambda>q1.
     bindR (checkR (nat (ID_SIZE z) \<le> Suc (length student_no)) Out_Of_Bounds) (\<lambda>_.
     bindR (memcpy_at (nat (nq_len q1)) (take (nat (ID_SIZE z)) (student_no @ [NUL])) (nq_buf q1)) (\<lambda>b1.
     bindR (memcpy_at (nat (nq_len q1 + REQUEST_SIZE z - 2)) [char_of (48 + (of_bool action :: int))] b1) (\<lambda>b2.
     bindR (memcpy_at (nat (nq_len q1 + REQUEST_SIZE z - 1)) [CHR ''.''] b2) (\<lambda>b3.
       Inr (q1\<lparr>nq_buf := b3, nq_len := need\<rparr>)))))))"

definition clear_timeout :: "string \<Rightarrow> merger \<Rightarrow> merger res" where
  "clear_timeout key st = bindR (dict_del (heap st) (timers st) key) (\<lambda>(_, h). Inr (st\<lparr>heap := h\<rparr>))"

text \<open>\<open>now\<close> is the value of \<open>(int)time(NULL)\<close>.\<close>

definition set_timeout :: "int \<Rightarrow> string \<Rightarrow> merger \<Rightarrow> merger res" where
  "set_timeout now key st =
     bindR (dict_set (heap st) (timers st) key (word_of_int now)) (\<lambda>(_, h). Inr (st\<lparr>heap := h\<rparr>))"

text \<open>
  The loop of \<open>check_timers\<close> over the nodes of \<open>timers\<close>: \<open>prev\<close> and \<open>timer\<close> are the
  two pointers, \<open>__remove(prev)\<close> frees the node \<open>timer\<close> pointed at before it moved on.
\<close>

fun timers_loop :: "nat \<Rightarrow> conf \<Rightarrow> sizes \<Rightarrow> int \<Rightarrow> addr \<Rightarrow> addr \<Rightarrow> merger \<Rightarrow> merger res" where
  "timers_loop 0 cs z curr_time prev timer st = Inl No_Return"
| "timers_loop (Suc n) cs z curr_time prev timer st =
     (if timer = 0 then Inr st
      else bindR (load (heap st) timer) (\<lambda>it.
        bindR (c_int (curr_time - sint (di_value it))) (\<lambda>age.
        if age \<ge> config_int cs ''student.timeout'' then
          (case di_key it of None \<Rightarrow> Inl Bad_Pointer
           | Some student_id \<Rightarrow>
               bindR (dict_get (heap st) (students st) student_id) (\<lambda>i.
               bindR (dict_del (heap st) (students st) student_id) (\<lambda>(_, h1).
               bindR (load h1 timer) (\<lambda>it1.
               bindR (dict_remove h1 prev) (\<lambda>h2.
               bindR (case judge (state_of_int i) of None \<Rightarrow> Inr (queue st)
                      | Some action \<Rightarrow> notify z student_id action (queue st)) (\<lambda>q.
                 timers_loop n cs z curr_time prev (di_next it1)
                   (st\<lparr>heap := h2, queue := q\<rparr>)))))))
        else timers_loop n cs z curr_time timer (di_next it) st)))"

definition check_timers :: "conf \<Rightarrow> sizes \<Rightarrow> int \<Rightarrow> merger \<Rightarrow> merger res" where
  "check_timers cs z curr_time st =
     bindR (load (heap st) (timers st)) (\<lambda>t.
       timers_loop (length (heap st)) cs z curr_time (timers st) (di_next t) st)"

text \<open>
  One iteration of the loop, which holds the queue's lock only while it notifies: the two
  pointers and the state afterwards, and the student it removed.
\<close>

definition timer_iter ::
  "conf \<Rightarrow> sizes \<Rightarrow> int \<Rightarrow> addr \<Rightarrow> addr \<Rightarrow> merger \<Rightarrow> (addr \<times> addr \<times> merger \<times> string option) res" where
  "timer_iter cs z curr_time prev timer st =
     bindR (load (heap st) timer) (\<lambda>it.
     bindR (c_int (curr_time - sint (di_value it))) (\<lambda>age.
       if age \<ge> config_int cs ''student.timeout'' then
         (case di_key it of None \<Rightarrow> Inl Bad_Pointer
          | Some student_id \<Rightarrow>
              bindR (dict_get (heap st) (students st) student_id) (\<lambda>i.
              bindR (dict_del (heap st) (students st) student_id) (\<lambda>(_, h1).
              bindR (load h1 timer) (\<lambda>it1.
              bindR (dict_remove h1 prev) (\<lambda>h2.
              bindR (case judge (state_of_int i) of None \<Rightarrow> Inr (queue st)
                     | Some action \<Rightarrow> notify z student_id action (queue st)) (\<lambda>q.
                Inr (prev, di_next it1, st\<lparr>heap := h2, queue := q\<rparr>, Some student_id)))))))
       else Inr (timer, di_next it, st, None)))"

lemma bindR_pair: "bindR (case p of (x, y) \<Rightarrow> f x y) g = (case p of (x, y) \<Rightarrow> bindR (f x y) g)"
  by (cases p) simp

lemma timers_loop_iter:
  "timers_loop (Suc n) cs z t prev timer st =
    (if timer = 0 then Inr st
     else bindR (timer_iter cs z t prev timer st) (\<lambda>(prev', timer', st', _). timers_loop n cs z t prev' timer' st'))"
  by (auto simp: timer_iter_def bindR_assoc bindR_pair split: option.split
    intro!: arg_cong [where f = "bindR (load (heap st) timer)"] arg_cong [where f = "bindR (c_int _)"] ext)

section \<open>The notification queue\<close>

definition request :: "string \<Rightarrow> bool \<Rightarrow> string" where
  "request student_no action = student_no @ [if action then CHR ''1'' else CHR ''0'', CHR ''.'']"

definition nq_inv :: "nqueue \<Rightarrow> bool" where
  "nq_inv q \<longleftrightarrow> 0 \<le> nq_len q \<and> nq_len q \<le> nq_alloc q \<and> length (nq_buf q) = nat (nq_alloc q) \<and>
     list_all (\<lambda>c. c \<noteq> None) (take (nat (nq_len q)) (nq_buf q))"

definition nq_contents :: "nqueue \<Rightarrow> string" where
  "nq_contents q = map the (take (nat (nq_len q)) (nq_buf q))"

text \<open>A notification the callers make: a number of the configured length.\<close>

fun nq_entry :: "sizes \<times> string \<times> bool \<Rightarrow> bool" where
  "nq_entry (z, sid, action) = (sizes_ok z \<and> int (length sid) = ID_SIZE z)"

fun nq_bytes :: "sizes \<times> string \<times> bool \<Rightarrow> string" where
  "nq_bytes (z, sid, action) = request sid action"

fun nq_notify :: "sizes \<times> string \<times> bool \<Rightarrow> nqueue \<Rightarrow> nqueue res" where
  "nq_notify (z, sid, action) q = notify z sid action q"

lemma action_char: "char_of (48 + (of_bool action :: int)) = (if action then CHR ''1'' else CHR ''0'')"
  by (cases action) (simp_all add: char_of_def)

lemma memcpy_at_chain:
  assumes "memcpy_at i xs b = Inr b1" "memcpy_at (i + length xs) ys b1 = Inr b2"
  shows "take (i + length xs + length ys) b2 = take i b @ map Some xs @ map Some ys"
  using memcpy_at_append [OF assms(2)] memcpy_at_append [OF assms(1)] by simp

text \<open>
  Writing a request of the right length at the end of a large enough buffer: the three
  copies succeed and leave the old contents followed by the request.
\<close>

lemma write_request:
  assumes z: "sizes_ok z" and sid: "int (length sid) = ID_SIZE z"
    and len: "0 \<le> len" "len + REQUEST_SIZE z \<le> int (length b)"
  obtains b1 b2 b3 where
    "memcpy_at (nat len) (take (nat (ID_SIZE z)) (sid @ [NUL])) b = Inr b1"
    "memcpy_at (nat (len + REQUEST_SIZE z - 2)) [char_of (48 + (of_bool action :: int))] b1 = Inr b2"
    "memcpy_at (nat (len + REQUEST_SIZE z - 1)) [CHR ''.''] b2 = Inr b3"
    "length b3 = length b"
    "take (nat (len + REQUEST_SIZE z)) b3 = take (nat len) b @ map Some (request sid action)"
proof -
  have pos: "nat (len + REQUEST_SIZE z - 2) = nat len + length sid"
    "nat (len + REQUEST_SIZE z - 1) = Suc (nat len + length sid)"
    "nat (len + REQUEST_SIZE z) = Suc (Suc (nat len + length sid))"
    using z sid len by (auto simp: sizes_ok_def)
  have room: "Suc (Suc (nat len + length sid)) \<le> length b"
    using z sid len by (auto simp: sizes_ok_def)
  have tk: "take (nat (ID_SIZE z)) (sid @ [NUL]) = sid"
    using sid by (metis append_eq_conv_conj nat_int)
  obtain b1 where b1: "memcpy_at (nat len) sid b = Inr b1"
    using room memcpy_at_ok [of "nat len" sid b] by auto
  then have l1: "length b1 = length b" by (rule length_memcpy_at)
  obtain b2 where b2: "memcpy_at (nat len + length sid) [char_of (48 + (of_bool action :: int))] b1 = Inr b2"
    using room l1 memcpy_at_ok [of "nat len + length sid" "[char_of (48 + (of_bool action :: int))]" b1] by auto
  then have l2: "length b2 = length b" using l1 length_memcpy_at by metis
  obtain b3 where b3: "memcpy_at (Suc (nat len + length sid)) [CHR ''.''] b2 = Inr b3"
    using room l2 memcpy_at_ok [of "Suc (nat len + length sid)" "[CHR ''.'']" b2] by auto
  have t2: "take (Suc (nat len + length sid)) b2 =
      take (nat len) b @ map Some sid @ [Some (if action then CHR ''1'' else CHR ''0'')]"
    using memcpy_at_chain [OF b1 b2] by (simp add: action_char)
  have "take (Suc (Suc (nat len + length sid))) b3 = take (nat len) b @ map Some (request sid action)"
    using memcpy_at_append [OF b3] t2 by (simp add: request_def)
  moreover have "length b3 = length b" using l2 length_memcpy_at [OF b3] by simp
  ultimately show thesis using that [unfolded tk pos, OF b1 b2 b3] by blast
qed

lemma nq_contents_grown:
  assumes "nq_inv q" "nq_alloc q \<le> n"
  shows "take (nat (nq_len q)) (realloc_buf (nat n) (nq_buf q)) = take (nat (nq_len q)) (nq_buf q)"
  using assms by (intro take_realloc_buf) (auto simp: nq_inv_def)

text \<open>
  \<open>notify\<close> on a queue in order: the request is appended unless one of the \<open>int\<close>
  computations overflows.
\<close>

definition notify_fits :: "sizes \<Rightarrow> nqueue \<Rightarrow> bool" where
  "notify_fits z q \<longleftrightarrow> nq_len q + REQUEST_SIZE z \<le> int_max \<and>
     (nq_len q + REQUEST_SIZE z > nq_alloc q \<longrightarrow> (nq_alloc q + REQUEST_SIZE z) * 2 \<le> int_max)"

lemma notify_grown:
  assumes q: "nq_inv q" and z: "sizes_ok z" and sid: "int (length sid) = ID_SIZE z"
    and need: "c_int (nq_len q + REQUEST_SIZE z) = Inr (nq_len q + REQUEST_SIZE z)"
    and q1: "(if nq_len q + REQUEST_SIZE z > nq_alloc q then
              bindR (c_int (nq_alloc q + REQUEST_SIZE z)) (\<lambda>s. bindR (c_int (s * 2)) (\<lambda>n.
                Inr (q\<lparr>nq_alloc := n, nq_buf := realloc_buf (nat n) (nq_buf q)\<rparr>)))
            else Inr q) = Inr q1"
    and l1: "nq_len q1 = nq_len q" and fits: "nq_len q + REQUEST_SIZE z \<le> nq_alloc q1"
    and b1: "length (nq_buf q1) = nat (nq_alloc q1)"
    and t1: "take (nat (nq_len q)) (nq_buf q1) = take (nat (nq_len q)) (nq_buf q)"
  shows "\<exists>q'. notify z sid action q = Inr q' \<and> nq_inv q' \<and>
       nq_contents q' = nq_contents q @ request sid action \<and> nq_len q' = nq_len q + REQUEST_SIZE z"
proof -
  let ?R = "REQUEST_SIZE z"
  have R: "2 \<le> ?R" and chk: "nat (ID_SIZE z) \<le> Suc (length sid)"
    using z sid by (auto simp: sizes_ok_def)
  have len: "0 \<le> nq_len q1" "nq_len q1 + ?R \<le> int (length (nq_buf q1))"
    using q fits b1 l1 R by (auto simp: nq_inv_def)
  obtain c1 c2 c3 where c:
    "memcpy_at (nat (nq_len q1)) (take (nat (ID_SIZE z)) (sid @ [NUL])) (nq_buf q1) = Inr c1"
    "memcpy_at (nat (nq_len q1 + ?R - 2)) [char_of (48 + (of_bool action :: int))] c1 = Inr c2"
    "memcpy_at (nat (nq_len q1 + ?R - 1)) [CHR ''.''] c2 = Inr c3"
    "length c3 = length (nq_buf q1)"
    "take (nat (nq_len q1 + ?R)) c3 = take (nat (nq_len q1)) (nq_buf q1) @ map Some (request sid action)"
    using write_request [OF z sid len, of action] by metis
  let ?q' = "q1\<lparr>nq_buf := c3, nq_len := nq_len q + ?R\<rparr>"
  have "notify z sid action q = Inr ?q'"
    unfolding notify_def need q1 bindR.simps c(1,2,3) by (simp only: chk checkR_simps bindR.simps c(1,2,3))
  moreover have "nq_inv ?q'"
    using q fits b1 c(4,5) t1 l1 R by (auto simp: nq_inv_def list_all_iff)
  moreover have "nq_contents ?q' = nq_contents q @ request sid action"
    using c(5) t1 l1 by (simp add: nq_contents_def)
  ultimately show ?thesis by force
qed

lemma notify_ok:
  assumes q: "nq_inv q" and z: "sizes_ok z" and sid: "int (length sid) = ID_SIZE z"
    and fits: "notify_fits z q"
  shows "\<exists>q'. notify z sid action q = Inr q' \<and> nq_inv q' \<and>
       nq_contents q' = nq_contents q @ request sid action \<and> nq_len q' = nq_len q + REQUEST_SIZE z"
proof -
  let ?R = "REQUEST_SIZE z"
  have b: "0 \<le> nq_len q" "nq_len q \<le> nq_alloc q" "2 \<le> ?R"
    using q z by (auto simp: nq_inv_def sizes_ok_def)
  have need: "c_int (nq_len q + ?R) = Inr (nq_len q + ?R)"
    using fits b by (intro c_int_ok) (auto simp: notify_fits_def int_min_def)
  show ?thesis
  proof (cases "nq_len q + ?R > nq_alloc q")
    case True
    let ?n = "(nq_alloc q + ?R) * 2"
    have s: "c_int (nq_alloc q + ?R) = Inr (nq_alloc q + ?R)" and n: "c_int ?n = Inr ?n"
      using True fits b by (auto intro!: c_int_ok simp: notify_fits_def int_min_def)
    have "nq_alloc q \<le> ?n" using b by simp
    note grown = nq_contents_grown [OF q this]
    show ?thesis
      by (rule notify_grown [OF q z sid need,
            where ?q1.0 = "q\<lparr>nq_alloc := ?n, nq_buf := realloc_buf (nat ?n) (nq_buf q)\<rparr>"])
        (use True s n b grown in simp_all)
  next
    case False
    with q show ?thesis by (intro notify_grown [OF q z sid need]) (auto simp: nq_inv_def)
  qed
qed

lemma notify_overflow:
  assumes "nq_inv q" "sizes_ok z" "\<not> notify_fits z q"
  shows "notify z sid action q = Inl Signed_Overflow"
proof (cases "c_int (nq_len q + REQUEST_SIZE z)")
  case (Inl e)
  then show ?thesis by (auto simp: notify_def c_int_def split: if_splits)
next
  case (Inr n)
  then have n: "c_int (nq_len q + REQUEST_SIZE z) = Inr (nq_len q + REQUEST_SIZE z)"
    by (simp add: c_int_Inr_iff)
  with assms(3) have big: "nq_len q + REQUEST_SIZE z > nq_alloc q"
    "int_max < (nq_alloc q + REQUEST_SIZE z) * 2"
    by (auto simp: notify_fits_def c_int_Inr_iff)
  have "bindR (c_int (nq_alloc q + REQUEST_SIZE z)) (\<lambda>s. bindR (c_int (s * 2)) f) = Inl Signed_Overflow"
    for f :: "int \<Rightarrow> nqueue res"
    using big(2) by (simp add: c_int_def)
  with big(1) show ?thesis unfolding notify_def n bindR.simps by simp
qed

lemma notify_cases:
  assumes "nq_inv q" "sizes_ok z" "int (length sid) = ID_SIZE z"
  shows "notify z sid action q = Inl Signed_Overflow \<or>
    (\<exists>q'. notify z sid action q = Inr q' \<and> nq_inv q' \<and>
       nq_contents q' = nq_contents q @ request sid action \<and>
       nq_len q' = nq_len q + REQUEST_SIZE z)"
  using notify_ok [OF assms, of action] notify_overflow [OF assms(1,2)] by blast

interpretation nq: append_queue nq_notify nq_bytes nq_contents nq_inv nq_entry "{Signed_Overflow}"
proof unfold_locales
  fix q r q'
  assume a: "nq_inv q" "nq_entry r" "nq_notify r q = Inr q'"
  then obtain z sid act where r: "r = (z, sid, act)" by (cases r)
  show "nq_inv q'" "nq_contents q' = nq_contents q @ nq_bytes r"
    using notify_cases [OF a(1), of z sid act] a r by auto
next
  fix q r e
  assume a: "nq_inv q" "nq_entry r" "nq_notify r q = Inl e"
  then obtain z sid act where r: "r = (z, sid, act)" by (cases r)
  show "e \<in> {Signed_Overflow}"
    using notify_cases [OF a(1), of z sid act] a r by auto
qed

section \<open>What one pass over the timers computes\<close>

fun expired :: "conf \<Rightarrow> int \<Rightarrow> node \<Rightarrow> bool" where
  "expired cs now (a, k, v) = (now - sint v \<ge> config_int cs ''student.timeout'')"

definition lookup0 :: "(string \<Rightarrow> uint32 option) \<Rightarrow> string \<Rightarrow> uint32" where
  "lookup0 m k = (case m k of None \<Rightarrow> 0 | Some i \<Rightarrow> i)"

fun report :: "sizes \<Rightarrow> (string \<Rightarrow> uint32 option) \<Rightarrow> node \<Rightarrow> (sizes \<times> string \<times> bool) list" where
  "report z m (a, k, v) =
     (case judge (state_of_int (lookup0 m k)) of None \<Rightarrow> [] | Some b \<Rightarrow> [(z, k, b)])"

definition reports :: "sizes \<Rightarrow> (string \<Rightarrow> uint32 option) \<Rightarrow> node list \<Rightarrow> (sizes \<times> string \<times> bool) list" where
  "reports z m ns = concat (map (report z m) ns)"

text \<open>The clock difference of every timer fits an \<open>int\<close>.\<close>

fun age_ok :: "int \<Rightarrow> node \<Rightarrow> bool" where
  "age_ok now (a, k, v) = (int_min \<le> now - sint v \<and> now - sint v \<le> int_max)"

definition merger_at :: "merger \<Rightarrow> node list \<Rightarrow> node list \<Rightarrow> bool" where
  "merger_at st ss ts \<longleftrightarrow> dict_at (heap st) (students st) ss \<and> dict_at (heap st) (timers st) ts \<and>
     footprint (students st) ss \<inter> footprint (timers st) ts = {}"

lemma reports_simps [simp]: "reports z m [] = []" "reports z m (n # ns) = report z m n @ reports z m ns"
  by (simp_all add: reports_def)

lemma reports_cong:
  "(\<And>k. k \<in> set (keys ns) \<Longrightarrow> m k = m' k) \<Longrightarrow> reports z m ns = reports z m' ns"
  by (induction ns) (auto simp: lookup0_def)

lemma dict_at_node:
  assumes "dict_at h d (ms @ (a, k, v) # ns)"
  obtains it where "cell h a = Some it" "di_key it = Some k" "di_value it = v" "di_next it = hd_addr ns"
    "a \<noteq> 0"
proof -
  obtain s where "cell h d = Some s" "di_key s = None" "seg h (di_next s) (ms @ (a, k, v) # ns) 0"
    using assms by (rule dict_at_obtain)
  from this(3) obtain it where it: "cell h a = Some it" "di_key it = Some k" "di_value it = v"
    "seg h (di_next it) ns 0" by (rule seg_split)
  with that seg_hd [OF it(4)] cell_Some_bounds [OF it(1)] show thesis by auto
qed

text \<open>Removing the students entry and then the timer of one expired student.\<close>

lemma expire_one:
  assumes st: "merger_at st ss (ms @ (a, k, v) # ns)"
  obtains h1 it1 h2 where
    "dict_get (heap st) (students st) k = Inr (lookup0 (dmap ss) k)"
    "dict_del (heap st) (students st) k = Inr (k \<in> set (keys ss), h1)"
    "load h1 a = Inr it1" "di_next it1 = hd_addr ns"
    "dict_remove h1 (last (timers st # addrs ms)) = Inr h2"
    "merger_at (st\<lparr>heap := h2\<rparr>) (del_node k ss) (ms @ ns)"
    "dmap (del_node k ss) = (dmap ss)(k := None)"
proof -
  have s: "dict_at (heap st) (students st) ss" and t: "dict_at (heap st) (timers st) (ms @ (a, k, v) # ns)"
    and disj: "footprint (students st) ss \<inter> footprint (timers st) (ms @ (a, k, v) # ns) = {}"
    using st by (simp_all add: merger_at_def)
  obtain h1 where h1: "dict_del (heap st) (students st) k = Inr (k \<in> set (keys ss), h1)"
    "dict_at h1 (students st) (del_node k ss)" "dmap (del_node k ss) = (dmap ss)(k := None)"
    "dict_at h1 (timers st) (ms @ (a, k, v) # ns)"
    "footprint (students st) (del_node k ss) \<inter> footprint (timers st) (ms @ (a, k, v) # ns) = {}"
    using dict_del_frame [OF s, of k] t disj by blast
  obtain it1 where it1: "cell h1 a = Some it1" "di_next it1 = hd_addr ns"
    using h1(4) by (rule dict_at_node)
  obtain h2 where h2: "dict_remove h1 (last (timers st # addrs ms)) = Inr h2"
    "dict_at h2 (timers st) (ms @ ns)"
    "same_outside (footprint (timers st) (ms @ (a, k, v) # ns)) h1 h2"
    using dict_remove_at [OF h1(4)] by blast
  have s2: "dict_at h2 (students st) (del_node k ss)"
    using dict_at_frame [OF h1(2) h2(3)] h1(5) by blast
  have "footprint (timers st) (ms @ ns) \<subseteq> footprint (timers st) (ms @ (a, k, v) # ns)"
    by (auto simp: footprint_def)
  then have "merger_at (st\<lparr>heap := h2\<rparr>) (del_node k ss) (ms @ ns)"
    using s2 h2(2) h1(5) by (auto simp: merger_at_def)
  with that h1 it1 h2 dict_get_correct [OF s, of k] show thesis by (simp add: lookup0_def)
qed

lemma merger_at_queue [simp]: "merger_at (st\<lparr>heap := h, queue := q\<rparr>) ss ts = merger_at (st\<lparr>heap := h\<rparr>) ss ts"
  "merger_at (st\<lparr>queue := q, heap := h\<rparr>) ss ts = merger_at (st\<lparr>heap := h\<rparr>) ss ts"
  by (simp_all add: merger_at_def)

lemma timers_loop_correct:
  "merger_at st ss (ms @ ns) \<Longrightarrow> list_all (age_ok now) ns \<Longrightarrow> length ns < n \<Longrightarrow>
    \<exists>h' ss'. timers_loop n cs z now (last (timers st # addrs ms)) (hd_addr ns) st =
        bindR (nq.enq_all (reports z (dmap ss) (filter (expired cs now) ns)) (queue st))
          (\<lambda>q. Inr (st\<lparr>heap := h', queue := q\<rparr>)) \<and>
      merger_at (st\<lparr>heap := h'\<rparr>) ss' (ms @ filter (\<lambda>x. \<not> expired cs now x) ns) \<and>
      dmap ss' = dmap ss |` (- set (keys (filter (expired cs now) ns)))"
proof (induction ns arbitrary: st ss ms n)
  case Nil
  then obtain m where "n = Suc m" by (cases n) auto
  then show ?case using Nil by (intro exI [of _ "heap st"] exI [of _ ss]) simp
next
  case (Cons x ns)
  obtain a k v where x: "x = (a, k, v)" by (cases x)
  obtain m where n: "n = Suc m" "length ns < m" using Cons.prems(3) by (cases n) auto
  have st: "merger_at st ss (ms @ (a, k, v) # ns)" using Cons.prems(1) x by simp
  then have "dict_at (heap st) (timers st) (ms @ (a, k, v) # ns)" by (simp add: merger_at_def)
  then obtain it where it: "cell (heap st) a = Some it" "di_key it = Some k" "di_value it = v"
    "di_next it = hd_addr ns" "a \<noteq> 0" by (rule dict_at_node)
  have age: "c_int (now - sint v) = Inr (now - sint v)" using Cons.prems(2) x by simp
  show ?case
  proof (cases "expired cs now x")
    case False
    have "merger_at st ss ((ms @ [x]) @ ns)" using Cons.prems(1) by simp
    from Cons.IH [OF this _ n(2)] Cons.prems(2)
    show ?thesis using False it age x n by (simp add: load_Some)
  next
    case True
    obtain h1 it1 h2 where e:
      "dict_get (heap st) (students st) k = Inr (lookup0 (dmap ss) k)"
      "dict_del (heap st) (students st) k = Inr (k \<in> set (keys ss), h1)"
      "load h1 a = Inr it1" "di_next it1 = hd_addr ns"
      "dict_remove h1 (last (timers st # addrs ms)) = Inr h2"
      "merger_at (st\<lparr>heap := h2\<rparr>) (del_node k ss) (ms @ ns)"
      "dmap (del_node k ss) = (dmap ss)(k := None)"
      using st by (rule expire_one)
    define note1 where "note1 = (case judge (state_of_int (lookup0 (dmap ss) k)) of
       None \<Rightarrow> Inr (queue st) | Some action \<Rightarrow> notify z k action (queue st))"
    have step: "timers_loop n cs z now (last (timers st # addrs ms)) (hd_addr (x # ns)) st =
      bindR note1 (\<lambda>q. timers_loop m cs z now (last (timers st # addrs ms)) (hd_addr ns)
        (st\<lparr>heap := h2, queue := q\<rparr>))"
      using True it age x n e by (simp add: load_Some note1_def del: last.simps)
    let ?E = "filter (expired cs now) ns"
    have dist: "k \<notin> set (keys ns)" using st by (auto simp: merger_at_def dict_at_def)
    define M where "M = (dmap ss)(k := None)"
    have rep: "reports z M ?E = reports z (dmap ss) ?E"
      using dist unfolding M_def by (intro reports_cong) auto
    have enq: "nq.enq_all (reports z (dmap ss) (filter (expired cs now) (x # ns))) (queue st) =
      bindR note1 (nq.enq_all (reports z (dmap ss) ?E))"
      using True x by (simp add: note1_def split: option.split)
    have IH: "\<exists>h' ss'. timers_loop m cs z now (last (timers st # addrs ms)) (hd_addr ns)
          (st\<lparr>heap := h2, queue := q\<rparr>) =
        bindR (nq.enq_all (reports z (dmap ss) ?E) q) (\<lambda>q. Inr (st\<lparr>heap := h', queue := q\<rparr>)) \<and>
      merger_at (st\<lparr>heap := h'\<rparr>) ss' (ms @ filter (\<lambda>x. \<not> expired cs now x) ns) \<and>
      dmap ss' = M |` (- set (keys ?E))" for q
      using Cons.IH [of "st\<lparr>heap := h2, queue := q\<rparr>" "del_node k ss" ms m] e(6) e(7) [folded M_def] Cons.prems(2) n(2) rep
      by (simp del: last.simps)
    have dm: "M |` (- set (keys ?E)) = dmap ss |` (- set (keys (x # ?E)))"
      using x by (auto simp: M_def restrict_map_def fun_eq_iff)
    have f: "filter (expired cs now) (x # ns) = x # ?E"
      "filter (\<lambda>x. \<not> expired cs now x) (x # ns) = filter (\<lambda>x. \<not> expired cs now x) ns"
      using True by simp_all
    note enq' = enq [unfolded f(1)]
    show ?thesis
    proof (cases note1)
      case (Inl err)
      from IH [of "queue st"] obtain h' ss' where
        "merger_at (st\<lparr>heap := h'\<rparr>) ss' (ms @ filter (\<lambda>x. \<not> expired cs now x) ns)"
        "dmap ss' = M |` (- set (keys ?E))" by blast
      then show ?thesis unfolding step f enq' Inl bindR.simps dm by blast
    next
      case (Inr q)
      from IH [of q] show ?thesis unfolding step f enq' Inr bindR.simps dm .
    qed
  qed
qed

lemma report_entries:
  assumes "sizes_ok z" "\<forall>k\<in>set (keys ns). int (length k) = ID_SIZE z"
  shows "\<forall>r\<in>set (reports z m ns). nq_entry r"
  using assms by (induction ns) (auto split: option.splits)

lemma timer_iter_correct:
  assumes st: "merger_at st ss (ms @ (a, k, v) # ns)" and age: "age_ok now (a, k, v)"
  shows "\<exists>h. timer_iter cs z now (last (timers st # addrs ms)) a st =
      (if expired cs now (a, k, v)
       then bindR (case judge (state_of_int (lookup0 (dmap ss) k)) of None \<Rightarrow> Inr (queue st)
           | Some action \<Rightarrow> notify z k action (queue st)) (\<lambda>q.
             Inr (last (timers st # addrs ms), hd_addr ns, st\<lparr>heap := h, queue := q\<rparr>, Some k))
       else Inr (a, hd_addr ns, st, None)) \<and>
    merger_at (st\<lparr>heap := h\<rparr>) (del_node k ss) (ms @ ns) \<and> dmap (del_node k ss) = (dmap ss)(k := None)"
proof -
  have "dict_at (heap st) (timers st) (ms @ (a, k, v) # ns)" using st by (simp add: merger_at_def)
  then obtain it where it: "cell (heap st) a = Some it" "di_key it = Some k" "di_value it = v"
    "di_next it = hd_addr ns" "a \<noteq> 0" by (rule dict_at_node)
  have c: "c_int (now - sint v) = Inr (now - sint v)" using age by simp
  obtain h1 it1 h2 where e:
    "dict_get (heap st) (students st) k = Inr (lookup0 (dmap ss) k)"
    "dict_del (heap st) (students st) k = Inr (k \<in> set (keys ss), h1)"
    "load h1 a = Inr it1" "di_next it1 = hd_addr ns"
    "dict_remove h1 (last (timers st # addrs ms)) = Inr h2"
    "merger_at (st\<lparr>heap := h2\<rparr>) (del_node k ss) (ms @ ns)"
    "dmap (del_node k ss) = (dmap ss)(k := None)"
    using st by (rule expire_one)
  show ?thesis
    using it c e by (intro exI [of _ h2]) (simp add: timer_iter_def load_Some del: last.simps)
qed

text \<open>A whole pass: the loop from the head of the timers, with the queue it leaves.\<close>

lemma check_timers_run:
  assumes st: "merger_at st ss ts" and ages: "list_all (age_ok now) ts"
    and q: "nq_inv (queue st)" and z: "sizes_ok z"
    and len: "\<forall>k\<in>set (keys ts). int (length k) = ID_SIZE z"
  shows "check_timers cs z now st = Inl Signed_Overflow \<or>
    (\<exists>st' ss'. check_timers cs z now st = Inr st' \<and>
       students st' = students st \<and> timers st' = timers st \<and>
       merger_at st' ss' (filter (\<lambda>x. \<not> expired cs now x) ts) \<and>
       dmap ss' = dmap ss |` (- set (keys (filter (expired cs now) ts))) \<and> nq_inv (queue st') \<and>
       nq_contents (queue st') = nq_contents (queue st) @
         concat (map nq_bytes (reports z (dmap ss) (filter (expired cs now) ts))))"
proof -
  have t: "dict_at (heap st) (timers st) ts" using st by (simp add: merger_at_def)
  obtain c where c: "cell (heap st) (timers st) = Some c" "di_key c = None"
    "seg (heap st) (di_next c) ts 0" using t by (rule dict_at_obtain)
  let ?R = "reports z (dmap ss) (filter (expired cs now) ts)"
  have bound: "length ts < length (heap st)" using dict_at_bound [OF t] by simp
  obtain h' ss' where run: "check_timers cs z now st =
      bindR (nq.enq_all ?R (queue st)) (\<lambda>q. Inr (st\<lparr>heap := h', queue := q\<rparr>))"
    and at: "merger_at (st\<lparr>heap := h'\<rparr>) ss' (filter (\<lambda>x. \<not> expired cs now x) ts)"
    and dm: "dmap ss' = dmap ss |` (- set (keys (filter (expired cs now) ts)))"
    using timers_loop_correct [of st ss "[]" ts now "length (heap st)" cs z] st ages bound c
      seg_hd [OF c(3)] by (auto simp: check_timers_def load_Some)
  have "\<forall>k\<in>set (keys (filter (expired cs now) ts)). int (length k) = ID_SIZE z"
    using len by auto
  from nq.enq_all_cases [OF q report_entries [OF z this, of "dmap ss"]] run at dm
  show ?thesis by auto
qed

section \<open>Properties\<close>

text \<open>
  The notification queue holds the requests in the order they were made: from an empty
  queue, any sequence of notifications of numbers of the configured length either overflows
  \<open>int\<close> or leaves exactly the concatenated requests, with every byte written; no
  sequence writes outside the reallocated block.
\<close>

theorem notify_sequence:
  assumes "\<forall>r\<in>set rs. nq_entry r"
  shows "nq.enq_all rs nq_empty = Inl Signed_Overflow \<or>
    (\<exists>q. nq.enq_all rs nq_empty = Inr q \<and> nq_inv q \<and> nq_contents q = concat (map nq_bytes rs))"
proof -
  have "nq_inv nq_empty" "nq_contents nq_empty = []"
    by (simp_all add: nq_inv_def nq_empty_def nq_contents_def)
  with nq.enq_all_cases [OF _ assms] show ?thesis by fastforce
qed

theorem notify_sequence_witness:
  "\<exists>q. nq.enq_all
      [(\<lparr>PACKET_SIZE = 1, ID_SIZE = 2, REQUEST_SIZE = 4\<rparr>, ''0a'', True),
       (\<lparr>PACKET_SIZE = 1, ID_SIZE = 2, REQUEST_SIZE = 4\<rparr>, ''0b'', False)] nq_empty = Inr q \<and>
     nq_contents q = ''0a1.0b0.''"
proof -
  let ?z = "\<lparr>PACKET_SIZE = 1, ID_SIZE = 2, REQUEST_SIZE = 4\<rparr> :: sizes"
  let ?rs = "[(?z, ''0a'', True), (?z, ''0b'', False)]"
  have e: "\<forall>r\<in>set ?rs. nq_entry r" by (simp add: sizes_ok_def int_max_def)
  have "nq.enq_all ?rs nq_empty \<noteq> Inl Signed_Overflow"
    unfolding nq.enq_all.simps by code_simp
  with notify_sequence [OF e] show ?thesis by (auto simp: request_def)
qed

text \<open>
  A single notification succeeds whenever the two \<open>int\<close> computations of the new sizes
  fit, and appends the number, the action digit and the dot.
\<close>

theorem notify_appends:
  assumes "nq_inv q" "sizes_ok z" "int (length sid) = ID_SIZE z" "notify_fits z q"
  shows "\<exists>q'. notify z sid action q = Inr q' \<and> nq_inv q' \<and>
    nq_contents q' = nq_contents q @ sid @ [if action then CHR ''1'' else CHR ''0'', CHR ''.''] \<and>
    nq_len q' = nq_len q + REQUEST_SIZE z"
  using notify_ok [OF assms, of action] by (simp add: request_def)

theorem notify_appends_witness:
  "\<exists>q'. notify \<lparr>PACKET_SIZE = 1, ID_SIZE = 2, REQUEST_SIZE = 4\<rparr> ''0a'' True nq_empty = Inr q' \<and>
     nq_contents q' = ''0a1.''"
proof -
  let ?z = "\<lparr>PACKET_SIZE = 1, ID_SIZE = 2, REQUEST_SIZE = 4\<rparr> :: sizes"
  have h: "nq_inv nq_empty" "sizes_ok ?z" "int (length ''0a'') = ID_SIZE ?z" "notify_fits ?z nq_empty"
    by (simp_all add: nq_inv_def nq_empty_def sizes_ok_def notify_fits_def int_max_def)
  show ?thesis using notify_appends [OF h, of True]
    by (auto simp: nq_contents_def nq_empty_def)
qed

text \<open>
  C9: one pass of \<open>check_timers\<close> over well-formed dictionaries touches no freed node and
  ends; unless the queue sizes overflow, it removes exactly the expired timers and their
  students, keeps the others in their order, and appends one request per expired student
  whose head and tail differ, in timer order.
\<close>

theorem check_timers_correct:
  assumes st: "merger_at st ss ts" and ages: "list_all (age_ok now) ts"
    and q: "nq_inv (queue st)" and z: "sizes_ok z"
    and len: "\<forall>k\<in>set (keys ts). int (length k) = ID_SIZE z"
  shows "check_timers cs z now st = Inl Signed_Overflow \<or>
    (\<exists>st' ss'. check_timers cs z now st = Inr st' \<and>
       students st' = students st \<and> timers st' = timers st \<and>
       merger_at st' ss' (filter (\<lambda>x. \<not> expired cs now x) ts) \<and>
       dmap ss' = dmap ss |` (- set (keys (filter (expired cs now) ts))) \<and> nq_inv (queue st') \<and>
       nq_contents (queue st') = nq_contents (queue st) @
         concat (map nq_bytes (reports z (dmap ss) (filter (expired cs now) ts))))"
  by (rule check_timers_run [OF assms])

theorem check_timers_correct_witness:
  "\<exists>st'. check_timers [(''student.timeout'', ''5'')] \<lparr>PACKET_SIZE = 1, ID_SIZE = 2, REQUEST_SIZE = 4\<rparr> 12
      \<lparr>heap = [None, Some \<lparr>di_key = None, di_value = 0, di_next = 3\<rparr>,
         Some \<lparr>di_key = None, di_value = 0, di_next = 4\<rparr>,
         Some \<lparr>di_key = Some ''05'', di_value = int_of_state (run [True, True, True, False, False, False]), di_next = 0\<rparr>,
         Some \<lparr>di_key = Some ''05'', di_value = 7, di_next = 0\<rparr>],
       students = 1, timers = 2, queue = nq_empty\<rparr> = Inr st' \<and>
    nq_contents (queue st') = ''051.''"
proof -
  let ?z = "\<lparr>PACKET_SIZE = 1, ID_SIZE = 2, REQUEST_SIZE = 4\<rparr> :: sizes"
  let ?w = "int_of_state (run [True, True, True, False, False, False])"
  let ?st = "\<lparr>heap = [None, Some \<lparr>di_key = None, di_value = 0, di_next = 3\<rparr>,
         Some \<lparr>di_key = None, di_value = 0, di_next = 4\<rparr>,
         Some \<lparr>di_key = Some ''05'', di_value = ?w, di_next = 0\<rparr>,
         Some \<lparr>di_key = Some ''05'', di_value = 7, di_next = 0\<rparr>],
       students = 1, timers = 2, queue = nq_empty\<rparr>"
  let ?cs = "[(''student.timeout'', ''5'')] :: conf"
  have st: "merger_at ?st [(3, ''05'', ?w)] [(4, ''05'', 7)]"
    by (simp add: merger_at_def dict_at_def footprint_def cell_def)
  have a: "list_all (age_ok 12) [(4, ''05'', 7)]" by code_simp
  have q: "nq_inv (queue ?st)" by (simp add: nq_inv_def nq_empty_def)
  have z: "sizes_ok ?z" by (simp add: sizes_ok_def int_max_def)
  have k: "\<forall>k\<in>set (keys [(4, ''05'', 7)]). int (length k) = ID_SIZE ?z" by simp
  have no: "check_timers ?cs ?z 12 ?st \<noteq> Inl Signed_Overflow" by code_simp
  have e: "filter (expired ?cs 12) [(4, ''05'', 7)] = [(4, ''05'', 7)]" by code_simp
  have r: "concat (map nq_bytes (reports ?z (dmap [(3, ''05'', ?w)]) [(4, ''05'', 7)])) = ''051.''"
    by code_simp
  have "nq_contents (queue ?st) = ''''" by (simp add: nq_contents_def nq_empty_def)
  with check_timers_correct [OF st a q z k, of ?cs] no show ?thesis unfolding e r by auto
qed

end
