(* ===== verification/Net.thy ===== *)
theory Net
  imports C_Prelude
begin

text \<open>
  \<open>recvn\<close> and \<open>sendn\<close> of \<open>common/http.c\<close>. The kernel is the environment: what the next
  calls of \<open>recv\<close> or \<open>send\<close> on a socket report is a list of outcomes. A list that runs
  out is a call that blocks for ever, \<open>No_Return\<close>.
\<close>

section \<open>Receiving a fixed number of bytes\<close>

text \<open>
  Bytes that arrive, an interrupted call, any other error. An empty arrival is the end of
  the stream. \<open>recv\<close> returns at most the bytes asked for; the others stay in the socket.
\<close>

datatype recv_outcome = Arrive "uchar list" | Interrupted | Recv_Error

fun recvn :: "nat \<Rightarrow> recv_outcome list \<Rightarrow> uchar list \<Rightarrow> (int \<times> uchar list \<times> recv_outcome list) res" where
  "recvn sz [] got = (if length got < sz then Inl No_Return else Inr (int (length got), got, []))"
| "recvn sz (r # rs) got =
     (if length got < sz then
        (case r of
           Interrupted \<Rightarrow> recvn sz rs got
         | Recv_Error \<Rightarrow> Inr (- 1, got, rs)
         | Arrive bs \<Rightarrow>
             (if bs = [] then Inr (int (length got), got, rs)
              else if length bs \<le> sz - length got then recvn sz rs (got @ bs)
              else Inr (int sz, got @ take (sz - length got) bs,
                        Arrive (drop (sz - length got) bs) # rs)))
      else Inr (int (length got), got, r # rs))"

text \<open>The bytes in the socket, in order.\<close>

fun pending :: "recv_outcome list \<Rightarrow> uchar list" where
  "pending [] = []"
| "pending (Arrive bs # rs) = bs @ pending rs"
| "pending (_ # rs) = pending rs"

text \<open>A stream without errors, cut into arrivals and interruptions in any way.\<close>

fun clean :: "recv_outcome list \<Rightarrow> bool" where
  "clean [] = True"
| "clean (Arrive bs # rs) = (bs \<noteq> [] \<and> clean rs)"
| "clean (Interrupted # rs) = clean rs"
| "clean (Recv_Error # rs) = False"

lemma recvn_clean:
  "clean rs \<Longrightarrow> length got \<le> sz \<Longrightarrow> sz \<le> length got + length (pending rs) \<Longrightarrow>
    \<exists>rs'. recvn sz rs got = Inr (int sz, got @ take (sz - length got) (pending rs), rs') \<and>
      clean rs' \<and> pending rs' = drop (sz - length got) (pending rs)"
proof (induction sz rs got rule: recvn.induct)
  case (1 sz got)
  then show ?case by auto
next
  case (2 sz r rs got)
  show ?case
  proof (cases "length got < sz")
    case False
    with 2 show ?thesis by (auto simp: recvn.simps)
  next
    case less: True
    show ?thesis
    proof (cases r)
      case (Arrive bs)
      show ?thesis
      proof (cases "length bs \<le> sz - length got")
        case True
        then have room: "length (got @ bs) \<le> sz" using less by simp
        have ne: "bs \<noteq> []" "clean rs" "sz \<le> length (got @ bs) + length (pending rs)"
          using "2.prems" Arrive by simp_all
        obtain rs' where
          "recvn sz rs (got @ bs) =
             Inr (int sz, (got @ bs) @ take (sz - length (got @ bs)) (pending rs), rs')"
          "clean rs'" "pending rs' = drop (sz - length (got @ bs)) (pending rs)"
          using "2.IH"(1) [OF less Arrive ne(1) True ne(2) room ne(3)] by blast
        with 2 Arrive less True show ?thesis by (auto simp: diff_diff_left)
      next
        case False
        with 2 Arrive less show ?thesis by auto
      qed
    next
      case Interrupted
      with 2 less show ?thesis by auto
    next
      case Recv_Error
      with 2 show ?thesis by simp
    qed
  qed
qed

text \<open>
  \<open>recvn\<close> reassembles: however the kernel cuts the incoming bytes into pieces and
  however often the calls are interrupted, it returns exactly the next \<open>size\<close> bytes and
  leaves the following ones in the socket.
\<close>

theorem recvn_reassembles:
  assumes "clean rs" "sz \<le> length (pending rs)"
  shows "\<exists>rs'. recvn sz rs [] = Inr (int sz, take sz (pending rs), rs') \<and>
    clean rs' \<and> pending rs' = drop sz (pending rs)"
  using recvn_clean [OF assms(1), of "[]" sz] assms(2) by simp

theorem recvn_reassembles_witness:
  "\<exists>rs'. recvn 3 [Arrive [1, 2], Interrupted, Arrive [3, 4]] [] = Inr (3, [1, 2, 3], rs') \<and>
     pending rs' = [4]"
proof -
  have "clean [Arrive [1, 2], Interrupted, Arrive [3, 4]]" by simp
  from recvn_reassembles [OF this, of 3] show ?thesis by (auto simp: numeral_eq_Suc)
qed

text \<open>
  What the caller can conclude from the return value: -1 for an error, the full size, or
  fewer bytes at the end of the stream.
\<close>

lemma recvn_result:
  "recvn sz rs got = Inr (n, bs, rs') \<Longrightarrow> length got \<le> sz \<Longrightarrow>
    n = - 1 \<and> Recv_Error \<in> set rs \<or> n = int (length bs) \<and> length bs \<le> sz"
  by (induction sz rs got rule: recvn.induct) (auto split: if_splits recv_outcome.splits)

section \<open>Sending\<close>

text \<open>
  The number of bytes a \<open>send\<close> accepted, or an error. A call that accepts 0 bytes makes
  \<open>sendn\<close> report the full size.
\<close>

datatype send_outcome = Accept nat | Send_Interrupted | Send_Error

fun sendn :: "nat \<Rightarrow> send_outcome list \<Rightarrow> nat \<Rightarrow> (int \<times> nat) res" where
  "sendn sz [] sent = (if sent < sz then Inl No_Return else Inr (int sent, sent))"
| "sendn sz (r # rs) sent =
     (if sent < sz then
        (case r of
           Send_Interrupted \<Rightarrow> sendn sz rs sent
         | Send_Error \<Rightarrow> Inr (- 1, sent)
         | Accept n \<Rightarrow> (if n = 0 then Inr (int sz, sent)
                       else sendn sz rs (sent + min n (sz - sent))))
      else Inr (int sent, sent))"

lemma sendn_result:
  "sendn sz rs sent = Inr (n, m) \<Longrightarrow> sent \<le> sz \<Longrightarrow> Accept 0 \<notin> set rs \<Longrightarrow>
    n = - 1 \<or> n = int sz \<and> m = sz"
  by (induction sz rs sent rule: sendn.induct) (auto split: if_splits send_outcome.splits)

text \<open>
  When \<open>sendn\<close> returns, it reports either an error or the full size, and without a
  call that accepts no bytes the full size means that every byte was handed over.
\<close>

theorem sendn_all_or_error:
  assumes "sendn sz rs 0 = Inr (n, m)"
  shows "(n = - 1 \<or> n = int sz) \<and> (Accept 0 \<notin> set rs \<longrightarrow> n = int sz \<longrightarrow> m = sz)"
proof -
  have "sendn sz rs s = Inr (n, m) \<Longrightarrow> s \<le> sz \<Longrightarrow> n = - 1 \<or> n = int sz" for s
    by (induction sz rs s rule: sendn.induct) (auto split: if_splits send_outcome.splits)
  with assms sendn_result [OF assms] show ?thesis by auto
qed

theorem sendn_all_or_error_witness:
  "sendn 5 [Accept 2, Send_Interrupted, Accept 9] 0 = Inr (5, 5) \<and> (5::nat) = 5"
proof -
  have r: "sendn 5 [Accept 2, Send_Interrupted, Accept 9] 0 = Inr (5, 5)"
    by (simp add: numeral_eq_Suc)
  show ?thesis using sendn_all_or_error [OF r] r by simp
qed

end
