(* ===== verification/Hex.thy ===== *)
theory Hex
  imports C_Prelude
begin

text \<open>
  The hexadecimal helpers of \<open>common/common.c\<close>: \<open>tohexchar\<close>, \<open>hex2int\<close> and
  \<open>sprint_buf\<close>, and \<open>load_hex_config\<close> of \<open>receive/helper.c\<close>, which reads an
  address back. Printing and reading are shown to be inverse.
\<close>

section \<open>The functions\<close>

text \<open>\<open>char\<close> arithmetic: the sum is taken in \<open>int\<close> and returned as a \<open>char\<close>.\<close>

definition tohexchar :: "int \<Rightarrow> char" where
  "tohexchar n = (if n < 10 then char_of (48 + n) else char_of (97 + n - 10))"

definition hex2int :: "char \<Rightarrow> int" where
  "hex2int c =
     (if ord CHR ''a'' \<le> ord c \<and> ord c \<le> ord CHR ''f'' then ord c - ord CHR ''a'' + 10
      else if ord CHR ''A'' \<le> ord c \<and> ord c \<le> ord CHR ''F'' then ord c - ord CHR ''A'' + 10
      else if ord CHR ''0'' \<le> ord c \<and> ord c \<le> ord CHR ''9'' then ord c - ord CHR ''0''
      else - 1)"

fun sprint_buf :: "uchar list \<Rightarrow> string" where
  "sprint_buf [] = []"
| "sprint_buf (b # bs) =
     tohexchar (uint (drop_bit 4 b)) # tohexchar (uint (b AND 15)) # sprint_buf bs"

text \<open>
  The loop of \<open>load_hex_config\<close>: two characters per byte, \<open>*cur = hex2int(..) << 4\<close>
  then \<open>*cur += hex2int(..)\<close>, both truncated to the \<open>uchar\<close> they are stored in. The
  length is even when the loop is entered, so it never reads past the NUL.
\<close>

fun read_hex_pairs :: "string \<Rightarrow> uchar list" where
  "read_hex_pairs (c # d # cs) =
     (word_of_int (hex2int c * 16) + word_of_int (hex2int d)) # read_hex_pairs cs"
| "read_hex_pairs _ = []"

text \<open>The value written to \<open>*len\<close> and \<open>*buf\<close>; \<open>None\<close> is the NULL buffer.\<close>

definition load_hex_config :: "string \<Rightarrow> nat \<times> uchar list option" where
  "load_hex_config str =
     (case str of
        c0 # c1 # digits \<Rightarrow>
          if c0 \<noteq> CHR ''0'' \<or> (c1 \<noteq> CHR ''x'' \<and> c1 \<noteq> CHR ''X'') then (0, None)
          else let origlen = length digits; len = origlen div 2
               in if len * 2 \<noteq> origlen then (0, None) else (len, Some (read_hex_pairs digits))
      | _ \<Rightarrow> (0, None))"

section \<open>Digits\<close>

lemma nibble_bounds:
  "0 \<le> uint (drop_bit 4 (b :: uchar))" "uint (drop_bit 4 b) < 16"
  "0 \<le> uint (b AND 15)" "uint (b AND 15) < 16"
proof -
  have "uint (drop_bit 4 b) = uint b div 16" by (simp add: uint_div_distrib drop_bit_eq_div)
  moreover have "uint b < 256" using uint_bounded [of b] by simp
  ultimately show "uint (drop_bit 4 b) < 16" by linarith
  have "b AND 15 = take_bit 4 b" by (simp add: take_bit_eq_mask mask_eq_exp_minus_1)
  then have "uint (b AND 15) = take_bit 4 (uint b)" by (simp add: unsigned_take_bit_eq)
  then show "uint (b AND 15) < 16" by (simp add: take_bit_eq_mod)
qed simp_all

lemma nibbles_join: "drop_bit 4 b * 16 + (b AND 15) = (b :: uchar)"
proof -
  have low: "b AND 15 = take_bit 4 b" by (simp add: take_bit_eq_mask mask_eq_exp_minus_1)
  have "push_bit 4 (drop_bit 4 b) + take_bit 4 b = b"
    by (metis bits_ident)
  then show ?thesis by (simp add: low push_bit_eq_mult)
qed

lemma hex2int_tohexchar: "0 \<le> n \<Longrightarrow> n < 16 \<Longrightarrow> hex2int (tohexchar n) = n"
  by (auto simp: hex2int_def tohexchar_def ord_char_of, auto simp: ord_def)

lemma tohexchar_range:
  assumes "0 \<le> n" "n < 16"
  shows "48 \<le> ord (tohexchar n) \<and> ord (tohexchar n) \<le> 57 \<or>
    97 \<le> ord (tohexchar n) \<and> ord (tohexchar n) \<le> 102"
  using assms by (auto simp: tohexchar_def ord_char_of)

lemmas tohexchar_nibbles =
  hex2int_tohexchar [OF nibble_bounds(1,2)] hex2int_tohexchar [OF nibble_bounds(3,4)]

section \<open>Buffers\<close>

lemma length_sprint_buf [simp]: "length (sprint_buf bs) = 2 * length bs"
  by (induction bs) auto

lemma read_sprint_buf [simp]: "read_hex_pairs (sprint_buf bs) = bs"
  by (induction bs) (simp_all add: tohexchar_nibbles nibbles_join)

lemma length_read_hex_pairs [simp]: "length (read_hex_pairs cs) = length cs div 2"
  by (induction cs rule: read_hex_pairs.induct) auto

definition lower_hex :: "char \<Rightarrow> bool" where
  "lower_hex c \<longleftrightarrow> 48 \<le> ord c \<and> ord c \<le> 57 \<or> 97 \<le> ord c \<and> ord c \<le> 102"

lemma tohexchar_lower_hex [simp]:
  "lower_hex (tohexchar (uint (drop_bit 4 b)))" "lower_hex (tohexchar (uint ((b :: uchar) AND 15)))"
  using tohexchar_range [OF nibble_bounds(1,2)] tohexchar_range [OF nibble_bounds(3,4)]
  by (auto simp: lower_hex_def)

lemma sprint_buf_lower_hex: "list_all lower_hex (sprint_buf bs)"
  by (induction bs) (simp_all del: uint_and)

definition read_ID :: "string \<Rightarrow> uchar list option" where
  "read_ID s = Some (read_hex_pairs s)"

interpretation hex: codec sprint_buf read_ID "\<lambda>_. True"
  by unfold_locales (simp add: read_ID_def)

lemma sprint_buf_eq_iff: "sprint_buf a = sprint_buf b \<longleftrightarrow> a = b"
  by (rule hex.enc_inj) simp_all

text \<open>
  An address printed with \<open>sprint_buf\<close> behind \<open>0x\<close> is read back by
  \<open>load_hex_config\<close> byte for byte, with its length, and the two digits of a byte are
  always lower-case hexadecimal digits.
\<close>

theorem load_hex_config_roundtrip:
  "load_hex_config (''0x'' @ sprint_buf bs) = (length bs, Some bs) \<and>
   length (sprint_buf bs) = 2 * length bs \<and> list_all lower_hex (sprint_buf bs)"
  by (simp add: load_hex_config_def Let_def sprint_buf_lower_hex)

end
