(* ===== verification/Merger_Server.thy ===== *)
theory Merger_Server
  imports Merger_Timeout Net Hex "HOL-Library.Multiset"
begin

text \<open>
  \<open>merger/server.c\<close>: the packets of the two receivers. \<open>handle_packet\<close> checks a packet
  and turns it into a student number, \<open>handle_student\<close> records the detection, and the
  loop \<open>msg_loop\<close> accepts connections and reads packets from them. What \<open>poll\<close>,
  \<open>accept\<close>, \<open>recv\<close> and \<open>time\<close> report in one iteration is its input.
\<close>

section \<open>Packets\<close>

definition check_packet :: "sizes \<Rightarrow> uchar list \<Rightarrow> bool" where
  "check_packet z pack \<longleftrightarrow>
     fold (\<lambda>b checksum. checksum XOR b) (take (nat (PACKET_SIZE z)) pack) 0 = 0"

text \<open>\<open>action\<close> is 0 for the master and 1 for the slave.\<close>

definition handle_student :: "string \<Rightarrow> int \<Rightarrow> int \<Rightarrow> merger \<Rightarrow> merger res" where
  "handle_student sid action now st =
     bindR (dict_get (heap st) (students st) sid) (\<lambda>i.
     bindR (dict_set (heap st) (students st) sid (int_of_state (update_state action (state_of_int i))))
       (\<lambda>(_, h). set_timeout now sid (st\<lparr>heap := h\<rparr>)))"

text \<open>The packet buffer has \<open>PACKET_SIZE\<close> bytes; the number is their hexadecimal print.\<close>

definition handle_packet :: "conf \<Rightarrow> sizes \<Rightarrow> uchar list \<Rightarrow> int \<Rightarrow> int \<Rightarrow> merger \<Rightarrow> merger res" where
  "handle_packet cs z pack action now st =
     (if length pack < nat (PACKET_SIZE z) then Inl Out_Of_Bounds
      else if config_int cs ''student.checksum_enable'' \<noteq> 0 \<and> \<not> check_packet z pack then Inr st
      else handle_student (sprint_buf (take (nat (PACKET_SIZE z)) pack)) action now st)"

section \<open>Connections\<close>

text \<open>
  \<open>fds\<close> holds the descriptors of master, slave and listening socket, -1 for none;
  \<open>sock_in\<close> is what the kernel holds for a descriptor, \<open>closed\<close> the descriptors closed so
  far, \<open>receiver_alive\<close> the flags the watchdog reads.
\<close>

record server =
  fds :: "int list"
  sock_in :: "int \<Rightarrow> recv_outcome list"
  closed :: "int list"
  receiver_alive :: "bool list"

text \<open>What the system calls of one iteration report.\<close>

record poll_result =
  poll_ok :: bool
  pollin :: "bool list"
  pollerr :: "bool list"
  accepted :: "(int \<times> string) option"
  local_ip :: string
  time_now :: int

datatype loop_result = Continue server merger | Return int server merger

definition accept_connection :: "poll_result \<Rightarrow> server \<Rightarrow> server res" where
  "accept_connection ev sv =
     (if pollin ev ! 2 then
        (case accepted ev of None \<Rightarrow> Inl Exited
         | Some (newfd, client_addr) \<Rightarrow>
             let i = (if client_addr = local_ip ev \<or> client_addr = ''127.0.0.1'' then 0 else 1 :: nat);
                 sv1 = (if fds sv ! i \<noteq> - 1 then sv\<lparr>closed := closed sv @ [fds sv ! i]\<rparr> else sv)
             in Inr (sv1\<lparr>fds := (fds sv1)[i := newfd]\<rparr>))
      else Inr sv)"

text \<open>Whether a packet is a detection rather than a heartbeat or a test packet.\<close>

definition is_detection :: "conf \<Rightarrow> uchar list \<Rightarrow> bool" where
  "is_detection cs buf \<longleftrightarrow>
     (if config_int cs ''student.first_byte_zero_enable'' \<noteq> 0 then list_ex (\<lambda>b. b \<noteq> 0) buf
      else buf ! 0 \<noteq> 0)"

text \<open>
  The body of the read loop for connection \<open>i\<close>; the first component of the result is true
  where the source jumps to \<open>err\<close>.
\<close>

definition read_connection ::
  "conf \<Rightarrow> sizes \<Rightarrow> int \<Rightarrow> nat \<Rightarrow> server \<Rightarrow> merger \<Rightarrow> (bool \<times> server \<times> merger) res" where
  "read_connection cs z now i sv st =
     (let fd = fds sv ! i in
      bindR (recvn (nat (PACKET_SIZE z)) (sock_in sv fd) []) (\<lambda>(readlen, buf, rest).
        let sv1 = sv\<lparr>sock_in := (sock_in sv)(fd := rest)\<rparr> in
        if readlen = - 1 then Inr (True, sv1, st)
        else if readlen < PACKET_SIZE z then
          Inr (False, sv1\<lparr>closed := closed sv1 @ [fd], fds := (fds sv1)[i := - 1]\<rparr>, st)
        else
          let sv2 = sv1\<lparr>receiver_alive := (receiver_alive sv1)[i := True]\<rparr> in
          bindR (if is_detection cs buf then handle_packet cs z buf (int i) now st else Inr st)
            (\<lambda>st'. Inr (False, sv2, st'))))"

fun read_loop ::
  "conf \<Rightarrow> sizes \<Rightarrow> int \<Rightarrow> bool list \<Rightarrow> nat list \<Rightarrow> server \<Rightarrow> merger \<Rightarrow> (bool \<times> server \<times> merger) res" where
  "read_loop cs z now revents [] sv st = Inr (False, sv, st)"
| "read_loop cs z now revents (i # js) sv st =
     (if revents ! i then
        bindR (read_connection cs z now i sv st) (\<lambda>(err, sv', st').
          if err then Inr (True, sv', st') else read_loop cs z now revents js sv' st')
      else read_loop cs z now revents js sv st)"

definition msg_iteration :: "conf \<Rightarrow> sizes \<Rightarrow> poll_result \<Rightarrow> server \<Rightarrow> merger \<Rightarrow> loop_result res" where
  "msg_iteration cs z ev sv st =
     (if \<not> poll_ok ev then Inl Exited
      else if pollerr ev ! 0 \<or> pollerr ev ! 1 \<or> pollerr ev ! 2 then Inr (Return (- 1) sv st)
      else bindR (accept_connection ev sv) (\<lambda>sv1.
        bindR (read_loop cs z (time_now ev) (pollin ev) [0, 1] sv1 st) (\<lambda>(err, sv2, st2).
          if err then
            Inr (Return (- 1) (sv2\<lparr>closed := closed sv2 @ filter (\<lambda>fd. fd \<noteq> - 1) (fds sv2)\<rparr>) st2)
          else Inr (Continue sv2 st2))))"

text \<open>The loop over the iterations the environment provides.\<close>

fun msg_loop :: "conf \<Rightarrow> sizes \<Rightarrow> poll_result list \<Rightarrow> server \<Rightarrow> merger \<Rightarrow> loop_result res" where
  "msg_loop cs z [] sv st = Inr (Continue sv st)"
| "msg_loop cs z (ev # evs) sv st =
     bindR (msg_iteration cs z ev sv st) (\<lambda>r. case r of
         Return n sv' st' \<Rightarrow> Inr (Return n sv' st')
       | Continue sv' st' \<Rightarrow> msg_loop cs z evs sv' st')"

text \<open>The state with which \<open>init_server\<close> enters the loop.\<close>

definition init_fds :: "int \<Rightarrow> int list" where
  "init_fds sockfd = [- 1, - 1, sockfd]"

text \<open>
  The server thread: the results of \<open>socket\<close>, \<open>setsockopt\<close>, \<open>bind\<close> and \<open>listen\<close>, then the
  loop; what arrives on the descriptors is given by \<open>net\<close>.
\<close>

record listen_env =
  le_socket :: int
  le_setsockopt :: int
  le_bind :: int
  le_listen :: int

definition init_server ::
  "conf \<Rightarrow> sizes \<Rightarrow> listen_env \<Rightarrow> (int \<Rightarrow> recv_outcome list) \<Rightarrow> poll_result list \<Rightarrow> merger \<Rightarrow> loop_result res" where
  "init_server cs z le net evs st =
     bindR (checkR (le_socket le \<noteq> - 1) Exited) (\<lambda>_.
     bindR (checkR (le_setsockopt le \<noteq> - 1) Exited) (\<lambda>_.
     bindR (checkR (le_bind le \<noteq> - 1) Exited) (\<lambda>_.
     bindR (checkR (le_listen le \<noteq> - 1) Exited) (\<lambda>_.
       msg_loop cs z evs \<lparr>fds = init_fds (le_socket le), sock_in = net, closed = [],
         receiver_alive = [False, False]\<rparr> st))))"

section \<open>Checksums\<close>

lemma check_packet_iff: "check_packet z pack \<longleftrightarrow> xor_bytes (take (nat (PACKET_SIZE z)) pack) = 0"
  by (simp add: check_packet_def xor_bytes_def)

section \<open>Descriptors\<close>

text \<open>The descriptors in use, and the one an iteration accepts.\<close>

definition open_fds :: "server \<Rightarrow> int list" where
  "open_fds sv = filter (\<lambda>fd. fd \<noteq> - 1) (fds sv)"

definition new_fds :: "poll_result \<Rightarrow> int list" where
  "new_fds ev = (if pollin ev ! 2 then (case accepted ev of None \<Rightarrow> [] | Some (fd, _) \<Rightarrow> [fd]) else [])"

text \<open>\<open>poll\<close> reports input only for connections that are in use; \<open>accept\<close> returns a descriptor.\<close>

definition poll_sound :: "poll_result \<Rightarrow> server \<Rightarrow> bool" where
  "poll_sound ev sv \<longleftrightarrow> (\<forall>i<2. pollin ev ! i \<longrightarrow> fds sv ! i \<noteq> - 1) \<and>
     (case accepted ev of None \<Rightarrow> True | Some (fd, _) \<Rightarrow> fd \<noteq> - 1)"

lemma filter_update_balance:
  "i < length xs \<Longrightarrow>
    mset (filter P (xs[i := y])) + mset (filter P [xs ! i]) = mset (filter P xs) + mset (filter P [y])"
proof (induction xs arbitrary: i)
  case Nil
  then show ?case by simp
next
  case (Cons x xs)
  show ?case
  proof (cases i)
    case 0
    then show ?thesis by simp
  next
    case (Suc j)
    with Cons show ?thesis by (simp del: filter.simps(1) split del: if_split) simp
  qed
qed

definition fd_balance :: "server \<Rightarrow> int multiset" where
  "fd_balance sv = mset (open_fds sv) + mset (closed sv)"

lemma fd_balance_update:
  assumes "i < length (fds sv)" "fds sv' = (fds sv)[i := fd]"
    "closed sv' = closed sv @ filter (\<lambda>fd. fd \<noteq> - 1) [fds sv ! i]"
  shows "fd_balance sv' = fd_balance sv + mset (filter (\<lambda>fd. fd \<noteq> - 1) [fd])"
proof -
  let ?P = "\<lambda>fd :: int. fd \<noteq> - 1"
  have "fd_balance sv' = (mset (filter ?P ((fds sv)[i := fd])) + mset (filter ?P [fds sv ! i])) + mset (closed sv)"
    unfolding fd_balance_def open_fds_def assms(2,3) mset_append by (simp only: ac_simps)
  also have "\<dots> = (mset (filter ?P (fds sv)) + mset (filter ?P [fd])) + mset (closed sv)"
    unfolding filter_update_balance [OF assms(1)] ..
  also have "\<dots> = fd_balance sv + mset (filter ?P [fd])"
    unfolding fd_balance_def open_fds_def by (simp only: ac_simps)
  finally show ?thesis .
qed

lemma accept_cases:
  assumes "accept_connection ev sv = Inr sv'" "poll_sound ev sv"
  obtains "sv' = sv" "new_fds ev = []"
  | fd i where "i < 2" "new_fds ev = [fd]" "fd \<noteq> - 1" "fds sv' = (fds sv)[i := fd]"
      "closed sv' = closed sv @ filter (\<lambda>fd. fd \<noteq> - 1) [fds sv ! i]"
proof (cases "pollin ev ! 2")
  case False
  with assms(1) that(1) show thesis by (simp add: accept_connection_def new_fds_def)
next
  case True
  with assms(1) obtain fd addr where acc: "accepted ev = Some (fd, addr)"
    by (auto simp: accept_connection_def split: option.splits)
  define i where "i = (if addr = local_ip ev \<or> addr = ''127.0.0.1'' then 0 else 1 :: nat)"
  have "i < 2" "new_fds ev = [fd]" "fd \<noteq> - 1"
    using True acc assms(2) by (simp_all add: i_def new_fds_def poll_sound_def)
  moreover have "sv' = (if fds sv ! i \<noteq> - 1 then sv\<lparr>closed := closed sv @ [fds sv ! i]\<rparr> else sv)
      \<lparr>fds := (fds sv)[i := fd]\<rparr>"
    using assms(1) True acc unfolding accept_connection_def i_def by (auto simp: Let_def)
  ultimately show thesis using that(2) [of i fd] by simp
qed

lemma accept_balance:
  assumes "accept_connection ev sv = Inr sv'" "length (fds sv) = 3" "poll_sound ev sv"
  shows "fd_balance sv' = fd_balance sv + mset (new_fds ev)" "length (fds sv') = 3"
    "\<forall>i<2. pollin ev ! i \<longrightarrow> fds sv' ! i \<noteq> - 1"
proof -
  have "fd_balance sv' = fd_balance sv + mset (new_fds ev) \<and> length (fds sv') = 3 \<and>
    (\<forall>i<2. pollin ev ! i \<longrightarrow> fds sv' ! i \<noteq> - 1)"
  proof (rule accept_cases [OF assms(1,3)])
    assume "sv' = sv" "new_fds ev = []"
    with assms show ?thesis by (simp add: poll_sound_def)
  next
    fix fd i
    assume i: "i < 2" and n: "new_fds ev = [fd]" "fd \<noteq> - 1" and f': "fds sv' = (fds sv)[i := fd]"
      and c': "closed sv' = closed sv @ filter (\<lambda>fd. fd \<noteq> - 1) [fds sv ! i]"
    have "fd_balance sv' = fd_balance sv + mset (new_fds ev)"
      using fd_balance_update [OF _ f' c'] assms(2) i n by simp
    moreover have "fds sv' ! j \<noteq> - 1" if "j < 2" "pollin ev ! j" for j
      using that assms(2,3) n(2) f' by (cases "j = i") (auto simp: poll_sound_def)
    ultimately show ?thesis using assms(2) f' by simp
  qed
  then show "fd_balance sv' = fd_balance sv + mset (new_fds ev)" "length (fds sv') = 3"
    "\<forall>i<2. pollin ev ! i \<longrightarrow> fds sv' ! i \<noteq> - 1" by blast+
qed

lemma read_connection_fds:
  assumes "read_connection cs z now i sv st = Inr (err, sv', st')"
  shows "fds sv' = fds sv \<and> closed sv' = closed sv \<or>
    fds sv' = (fds sv)[i := - 1] \<and> closed sv' = closed sv @ [fds sv ! i]"
proof -
  obtain n buf rest where rv: "recvn (nat (PACKET_SIZE z)) (sock_in sv (fds sv ! i)) [] = Inr (n, buf, rest)"
    using assms by (auto simp: read_connection_def Let_def)
  consider "n = - 1" | "n \<noteq> - 1" "n < PACKET_SIZE z" | "n \<noteq> - 1" "\<not> n < PACKET_SIZE z" by blast
  then show ?thesis
  proof cases
    case 1
    with assms rv show ?thesis by (clarsimp simp: read_connection_def Let_def)
  next
    case 2
    with assms rv show ?thesis by (clarsimp simp: read_connection_def Let_def)
  next
    case 3
    with assms rv show ?thesis by (auto simp add: read_connection_def Let_def simp del: not_less)
  qed
qed

lemma read_balance:
  assumes "read_connection cs z now i sv st = Inr (err, sv', st')" "length (fds sv) = 3" "i < 2"
    "fds sv ! i \<noteq> - 1"
  shows "fd_balance sv' = fd_balance sv" "length (fds sv') = 3"
    "\<And>j. j \<noteq> i \<Longrightarrow> fds sv' ! j = fds sv ! j"
proof -
  have "fd_balance sv' = fd_balance sv \<and> length (fds sv') = 3"
    using read_connection_fds [OF assms(1)]
  proof
    assume "fds sv' = fds sv \<and> closed sv' = closed sv"
    with assms(2) show ?thesis by (simp add: fd_balance_def open_fds_def)
  next
    assume f: "fds sv' = (fds sv)[i := - 1] \<and> closed sv' = closed sv @ [fds sv ! i]"
    then have "fd_balance sv' = fd_balance sv + mset (filter (\<lambda>fd. fd \<noteq> - 1) [- 1])"
      using assms(2,3,4) by (intro fd_balance_update [of i]) simp_all
    with f assms(2) show ?thesis by simp
  qed
  then show "fd_balance sv' = fd_balance sv" "length (fds sv') = 3" by simp_all
  show "fds sv' ! j = fds sv ! j" if "j \<noteq> i" for j
    using read_connection_fds [OF assms(1)] that by auto
qed

lemma read_loop_balance:
  assumes "read_loop cs z now revents [0, 1] sv st = Inr (err, sv', st')" "length (fds sv) = 3"
    "\<forall>i<2. revents ! i \<longrightarrow> fds sv ! i \<noteq> - 1"
  shows "fd_balance sv' = fd_balance sv \<and> length (fds sv') = 3"
proof -
  have one: "fd_balance s2 = fd_balance s1 \<and> length (fds s2) = 3"
    if "read_loop cs z now revents [1] s1 t1 = Inr (e, s2, t2)" "length (fds s1) = 3"
      "revents ! 1 \<longrightarrow> fds s1 ! 1 \<noteq> - 1" for s1 t1 e s2 t2
    using that read_balance [of cs z now 1 s1 t1] by (auto split: if_splits)
  show ?thesis
  proof (cases "revents ! 0")
    case False
    with assms one [of sv st] show ?thesis by (auto simp del: One_nat_def)
  next
    case True
    with assms(1) obtain e1 s1 t1 where r: "read_connection cs z now 0 sv st = Inr (e1, s1, t1)"
      and rest: "if e1 then (err, sv', st') = (True, s1, t1)
        else read_loop cs z now revents [1] s1 t1 = Inr (err, sv', st')"
      unfolding read_loop.simps(2) [of cs z now revents 0 "[1]" sv st]
      by (auto simp del: read_loop.simps split: if_splits prod.splits)
    have b: "fd_balance s1 = fd_balance sv" "length (fds s1) = 3" "fds s1 ! 1 = fds sv ! 1"
      using read_balance [OF r assms(2)] True assms(3) by auto
    show ?thesis
    proof (cases e1)
      case True
      with rest b show ?thesis by simp
    next
      case False
      with rest have "read_loop cs z now revents [1] s1 t1 = Inr (err, sv', st')" by simp
      from one [OF this b(2)] assms(3) b show ?thesis by auto
    qed
  qed
qed



lemma read_connection_arrival:
  assumes "clean (sock_in sv (fds sv ! i))" "1 \<le> PACKET_SIZE z"
    "nat (PACKET_SIZE z) \<le> length (pending (sock_in sv (fds sv ! i)))"
  shows "\<exists>rest. clean rest \<and>
    pending rest = drop (nat (PACKET_SIZE z)) (pending (sock_in sv (fds sv ! i))) \<and>
    (let p = take (nat (PACKET_SIZE z)) (pending (sock_in sv (fds sv ! i)));
         sv' = sv\<lparr>sock_in := (sock_in sv)(fds sv ! i := rest),
                  receiver_alive := (receiver_alive sv)[i := True]\<rparr>
     in read_connection cs z now i sv st =
        bindR (if is_detection cs p then handle_packet cs z p (int i) now st else Inr st)
          (\<lambda>st'. Inr (False, sv', st')))"
proof -
  obtain rest where "recvn (nat (PACKET_SIZE z)) (sock_in sv (fds sv ! i)) [] =
      Inr (int (nat (PACKET_SIZE z)), take (nat (PACKET_SIZE z)) (pending (sock_in sv (fds sv ! i))), rest)"
    "clean rest" "pending rest = drop (nat (PACKET_SIZE z)) (pending (sock_in sv (fds sv ! i)))"
    using recvn_clean [OF assms(1), of "[]" "nat (PACKET_SIZE z)"] assms(3) by auto
  with assms(2) show ?thesis
    by (intro exI [of _ rest]) (simp add: read_connection_def Let_def)
qed

text \<open>
  A packet that has arrived completely on connection \<open>i\<close> - in whatever pieces - marks
  receiver \<open>i\<close> alive and, unless it is a heartbeat, is handed to \<open>handle_packet\<close> with
  action \<open>i\<close>; the bytes after it stay in the socket and the connections stay open.
\<close>

theorem read_connection_packet:
  assumes "clean (sock_in sv (fds sv ! i))" "1 \<le> PACKET_SIZE z"
    "nat (PACKET_SIZE z) \<le> length (pending (sock_in sv (fds sv ! i)))"
  shows "\<exists>rest. clean rest \<and>
    pending rest = drop (nat (PACKET_SIZE z)) (pending (sock_in sv (fds sv ! i))) \<and>
    (let p = take (nat (PACKET_SIZE z)) (pending (sock_in sv (fds sv ! i)));
         sv' = sv\<lparr>sock_in := (sock_in sv)(fds sv ! i := rest),
                  receiver_alive := (receiver_alive sv)[i := True]\<rparr>
     in read_connection cs z now i sv st =
        bindR (if is_detection cs p then handle_packet cs z p (int i) now st else Inr st)
          (\<lambda>st'. Inr (False, sv', st')))"
  by (rule read_connection_arrival [OF assms])

theorem read_connection_packet_witness:
  "\<exists>rest. pending rest = [9] \<and>
    read_connection [] \<lparr>PACKET_SIZE = 2, ID_SIZE = 4, REQUEST_SIZE = 6\<rparr> 5 1
      \<lparr>fds = [7, 8, 3], sock_in = (\<lambda>_. [Arrive [0], Arrive [4, 9]]), closed = [], receiver_alive = [False, False]\<rparr>
      \<lparr>heap = [], students = 0, timers = 0, queue = nq_empty\<rparr> =
    Inr (False, \<lparr>fds = [7, 8, 3], sock_in = (\<lambda>_. [Arrive [0], Arrive [4, 9]])(8 := rest), closed = [],
        receiver_alive = [False, True]\<rparr>, \<lparr>heap = [], students = 0, timers = 0, queue = nq_empty\<rparr>)"
proof -
  let ?sv = "\<lparr>fds = [7, 8, 3], sock_in = (\<lambda>_. [Arrive [0], Arrive [4, 9]]), closed = [],
    receiver_alive = [False, False]\<rparr> :: server"
  let ?z = "\<lparr>PACKET_SIZE = 2, ID_SIZE = 4, REQUEST_SIZE = 6\<rparr> :: sizes"
  have h: "clean (sock_in ?sv (fds ?sv ! 1))" "1 \<le> PACKET_SIZE ?z"
    "nat (PACKET_SIZE ?z) \<le> length (pending (sock_in ?sv (fds ?sv ! 1)))" by simp_all
  show ?thesis using read_connection_packet [OF h, of "[]" 5] by (auto simp: is_detection_def config_int_def)
qed

end
