(* ===== verification/Merger_Spec.thy ===== *)
theory Merger_Spec
  imports Merger_Server "HOL-Library.Multiset"
begin

text \<open>
  What the server and timeout threads of the merger promise together, free of heaps and bit
  fields: a gate that remembers for each student the receivers that saw it since it was last
  forgotten, forgets a student after the configured silence, and tells the direction of
  those whose first and last detections disagree. The heap-level operations are shown to
  refine it, operation by operation and for every sequence of packets and timer ticks.
\<close>

section \<open>The gate\<close>

record gate =
  hist :: "string \<Rightarrow> bool list"
  seen :: "string \<Rightarrow> int"
  told :: "(string \<times> bool) multiset"

definition decision :: "bool list \<Rightarrow> bool option" where
  "decision as =
     (if majority (first_five as) = majority (last_five as) then None
      else Some (majority (first_five as)))"

definition detect :: "string \<Rightarrow> bool \<Rightarrow> int \<Rightarrow> gate \<Rightarrow> gate" where
  "detect k a now g = g\<lparr>hist := (hist g)(k := hist g k @ [a]), seen := (seen g)(k := now)\<rparr>"

definition gone :: "conf \<Rightarrow> int \<Rightarrow> gate \<Rightarrow> string set" where
  "gone cs now g = {k. hist g k \<noteq> [] \<and> now - seen g k \<ge> config_int cs ''student.timeout''}"

definition expire :: "conf \<Rightarrow> int \<Rightarrow> gate \<Rightarrow> gate" where
  "expire cs now g =
     g\<lparr>hist := (\<lambda>k. if k \<in> gone cs now g then [] else hist g k),
       told := told g + image_mset (\<lambda>k. (k, the (decision (hist g k))))
                 (mset_set {k \<in> gone cs now g. decision (hist g k) \<noteq> None})\<rparr>"

text \<open>
  A receiver sends its batch again when it cannot tell whether it arrived. If it did arrive,
  the detections count twice: three repeated detections by the receiver that saw the student
  first outvote those of the other one, and the passage is not told.
\<close>

lemma repeats_hide_passage:
  assumes "5 \<le> length h" "3 \<le> n"
  shows "decision (h @ replicate n (majority (first_five h))) = None"
proof -
  let ?m = "majority (first_five h)"
  have f: "first_five (h @ replicate n ?m) = first_five h" using assms(1) by (simp add: first_five_def HEAD_SAMPLE_LEN_def)
  have l: "last_five (h @ replicate n ?m) = drop (length h - (5 - min 5 n)) h @ replicate (min 5 n) ?m"
    using assms by (auto simp: last_five_def HEAD_SAMPLE_LEN_def drop_replicate min_def)
  have c: "Student.count (drop (length h - (5 - min 5 n)) h) \<le> 5 - min 5 n"
    using Student.count_le [of "drop (length h - (5 - min 5 n)) h"] assms(1) by simp
  have "majority (last_five (h @ replicate n ?m)) = ?m"
    unfolding l using c assms by (cases ?m) (auto simp: majority_def)
  with f show ?thesis by (simp add: decision_def)
qed

lemma repeats_hide_passage_example:
  "decision [True, True, True, False, False, False] = Some True"
  "decision ([True, True, True, False, False, False] @ [True, True, True]) = None"
  by code_simp+

section \<open>The relation to the merger's memory\<close>

definition hist_map :: "gate \<Rightarrow> string \<Rightarrow> uint32 option" where
  "hist_map g = (\<lambda>k. if hist g k = [] then None else Some (int_of_state (run (hist g k))))"

definition seen_map :: "gate \<Rightarrow> string \<Rightarrow> uint32 option" where
  "seen_map g = (\<lambda>k. if hist g k = [] then None else Some (word_of_int (seen g k)))"

definition c_time :: "int \<Rightarrow> bool" where
  "c_time t \<longleftrightarrow> 0 \<le> t \<and> t \<le> int_max"

fun request_of :: "string \<times> bool \<Rightarrow> string" where
  "request_of (k, b) = request k b"

definition tracks :: "sizes \<Rightarrow> gate \<Rightarrow> merger \<Rightarrow> bool" where
  "tracks z g st \<longleftrightarrow>
     (\<exists>ss ts. merger_at st ss ts \<and> dmap ss = hist_map g \<and> dmap ts = seen_map g) \<and>
     (\<forall>k. hist g k \<noteq> [] \<longrightarrow> c_time (seen g k) \<and> int (length k) = ID_SIZE z) \<and>
     nq_inv (queue st) \<and>
     (\<exists>rs. mset rs = told g \<and> nq_contents (queue st) = concat (map request_of rs))"

section \<open>Recording a detection\<close>

lemma merger_at_two:
  "dm.two (heap st) (students st) m (timers st) n \<longleftrightarrow>
    (\<exists>ss ts. merger_at st ss ts \<and> dmap ss = m \<and> dmap ts = n)"
  unfolding dm.two_def dict_rep_def merger_at_def by blast

lemma state_lookup:
  "state_of_int (case hist_map g k of None \<Rightarrow> 0 | Some v \<Rightarrow> v) = run (hist g k)"
  by (simp add: hist_map_def state_roundtrip run_def)

lemma hist_map_detect:
  "hist_map (detect k a now g) = (hist_map g)(k \<mapsto> int_of_state (run (hist g k @ [a])))"
  by (auto simp: hist_map_def detect_def fun_eq_iff)

lemma seen_map_detect: "seen_map (detect k a now g) = (seen_map g)(k \<mapsto> word_of_int now)"
  by (auto simp: seen_map_def detect_def fun_eq_iff)

lemma handle_student_refines:
  assumes t: "tracks z g st" and now: "c_time now" and k: "int (length k) = ID_SIZE z"
  shows "handle_student k (of_bool a) now st = Inl Exited \<or>
    (\<exists>st'. handle_student k (of_bool a) now st = Inr st' \<and> tracks z (detect k a now g) st')"
proof -
  have two: "dm.two (heap st) (students st) (hist_map g) (timers st) (seen_map g)"
    using t merger_at_two unfolding tracks_def by blast
  let ?v = "int_of_state (run (hist g k @ [a]))"
  have get: "bindR (dict_get (heap st) (students st) k) f =
      f (case hist_map g k of None \<Rightarrow> 0 | Some v \<Rightarrow> v)" for f :: "uint32 \<Rightarrow> merger res"
    using dm.two_lookup [OF two] by simp
  have upd: "update_state (of_bool a) (state_of_int (case hist_map g k of None \<Rightarrow> 0 | Some v \<Rightarrow> v)) =
      run (hist g k @ [a])" by (simp add: state_lookup run_snoc)
  have unf: "handle_student k (of_bool a) now st =
      bindR (dict_set (heap st) (students st) k ?v) (\<lambda>(_, h). set_timeout now k (st\<lparr>heap := h\<rparr>))"
    unfolding handle_student_def get upd ..
  from dm.two_update [OF two, of k ?v] show ?thesis
  proof (elim disjE exE conjE)
    fix h1
    assume h1: "dict_set (heap st) (students st) k ?v = Inr (True, h1)"
      and two1: "dm.two h1 (students st) ((hist_map g)(k \<mapsto> ?v)) (timers st) (seen_map g)"
    from dm.two_update [OF dm.two_sym [OF two1], of k "word_of_int now"] show ?thesis
    proof (elim disjE exE conjE)
      fix h2
      assume h2: "dict_set h1 (timers st) k (word_of_int now) = Inr (True, h2)"
        and two2: "dm.two h2 (timers st) ((seen_map g)(k \<mapsto> word_of_int now)) (students st)
          ((hist_map g)(k \<mapsto> ?v))"
      let ?st = "st\<lparr>heap := h2\<rparr>" and ?g = "detect k a now g"
      have "handle_student k (of_bool a) now st = Inr ?st"
        using h1 h2 by (simp add: unf set_timeout_def)
      moreover have "dm.two (heap ?st) (students ?st) (hist_map ?g) (timers ?st) (seen_map ?g)"
        using dm.two_sym [OF two2] by (simp add: hist_map_detect seen_map_detect)
      then have "tracks z ?g ?st"
        using t now k merger_at_two [of ?st] by (auto simp: tracks_def detect_def)
      ultimately show ?thesis by blast
    qed (simp add: unf h1 set_timeout_def)
  qed (simp add: unf)
qed

section \<open>A pass over the timers\<close>

lemma dmap_in: "distinct (keys ns) \<Longrightarrow> dmap ns k = Some v \<longleftrightarrow> (\<exists>a. (a, k, v) \<in> set ns)"
  by (induction ns) (auto simp: image_iff split: if_splits)

lemma distinct_keys_filter: "distinct (keys ns) \<Longrightarrow> distinct (keys (filter P ns))"
  by (induction ns) auto

text \<open>The timers of a tracked merger: each holds the time its student was last seen.\<close>

lemma timer_entry:
  assumes ts: "dmap ts = seen_map g" "distinct (keys ts)" and "(a, k, v) \<in> set ts"
    and live: "\<forall>k. hist g k \<noteq> [] \<longrightarrow> c_time (seen g k)"
  shows "hist g k \<noteq> []" "v = word_of_int (seen g k)" "sint v = seen g k"
proof -
  have "seen_map g k = Some v" using assms dmap_in by metis
  then show h: "hist g k \<noteq> []" and v: "v = word_of_int (seen g k)"
    by (auto simp: seen_map_def split: if_splits)
  have "c_time (seen g k)" using live h by blast
  then show "sint v = seen g k"
    unfolding v c_time_def by (intro sint_time) simp_all
qed

lemma gone_keys:
  assumes ts: "dmap ts = seen_map g" "distinct (keys ts)"
    and live: "\<forall>k. hist g k \<noteq> [] \<longrightarrow> c_time (seen g k)"
  shows "set (keys (filter (expired cs now) ts)) = gone cs now g"
proof (rule set_eqI)
  fix k
  have "k \<in> set (keys (filter (expired cs now) ts)) \<longleftrightarrow>
      (\<exists>a v. (a, k, v) \<in> set ts \<and> expired cs now (a, k, v))"
    by (force simp: image_iff)
  also have "\<dots> \<longleftrightarrow> (\<exists>a v. (a, k, v) \<in> set ts \<and> config_int cs ''student.timeout'' \<le> now - seen g k)"
    using timer_entry(3) [OF ts _ live] by (metis expired.simps)
  also have "\<dots> \<longleftrightarrow> (\<exists>v. dmap ts k = Some v) \<and> config_int cs ''student.timeout'' \<le> now - seen g k"
    using dmap_in [OF ts(2)] by blast
  also have "\<dots> \<longleftrightarrow> k \<in> gone cs now g"
    by (auto simp: ts(1) seen_map_def gone_def)
  finally show "k \<in> set (keys (filter (expired cs now) ts)) \<longleftrightarrow> k \<in> gone cs now g" .
qed

lemma dmap_kept:
  assumes ts: "dmap ts = seen_map g" "distinct (keys ts)"
    and live: "\<forall>k. hist g k \<noteq> [] \<longrightarrow> c_time (seen g k)"
  shows "dmap (filter (\<lambda>x. \<not> expired cs now x) ts) = seen_map (expire cs now g)"
proof (rule ext)
  fix k
  let ?F = "filter (\<lambda>x. \<not> expired cs now x) ts"
  have iff: "dmap ?F k = Some v \<longleftrightarrow> dmap ts k = Some v \<and> k \<notin> gone cs now g" for v
  proof -
    have "dmap ?F k = Some v \<longleftrightarrow> (\<exists>a. (a, k, v) \<in> set ts \<and> \<not> expired cs now (a, k, v))"
      using dmap_in [OF distinct_keys_filter [OF ts(2)]] by auto
    also have "\<dots> \<longleftrightarrow> (\<exists>a. (a, k, v) \<in> set ts) \<and> \<not> config_int cs ''student.timeout'' \<le> now - seen g k"
      using timer_entry(3) [OF ts _ live] by (metis expired.simps)
    also have "\<dots> \<longleftrightarrow> dmap ts k = Some v \<and> k \<notin> gone cs now g"
      using dmap_in [OF ts(2)] timer_entry(1) [OF ts _ live] by (auto simp: gone_def)
    finally show ?thesis .
  qed
  show "dmap ?F k = seen_map (expire cs now g) k"
  proof (cases "dmap ?F k")
    case None
    then have "dmap ts k = None \<or> k \<in> gone cs now g" using iff by (cases "dmap ts k") auto
    with None show ?thesis by (auto simp: ts(1) seen_map_def expire_def split: if_splits)
  next
    case (Some v)
    then have "seen_map g k = Some v" "k \<notin> gone cs now g" using iff [of v] ts(1) by auto
    with Some show ?thesis by (simp add: seen_map_def expire_def split: if_splits)
  qed
qed

lemma hist_map_expire: "hist_map g |` (- gone cs now g) = hist_map (expire cs now g)"
  by (auto simp: hist_map_def expire_def restrict_map_def fun_eq_iff)

text \<open>The requests of one pass, as student numbers with their decisions.\<close>

definition verdicts :: "gate \<Rightarrow> string list \<Rightarrow> (string \<times> bool) list" where
  "verdicts g ks = map (\<lambda>k. (k, the (decision (hist g k)))) (filter (\<lambda>k. decision (hist g k) \<noteq> None) ks)"

lemma judge_lookup: "judge (state_of_int (lookup0 (hist_map g) k)) = decision (hist g k)"
  by (simp add: lookup0_def state_lookup judge_run decision_def)

lemma report_bytes:
  "concat (map nq_bytes (reports z (hist_map g) ns)) = concat (map request_of (verdicts g (keys ns)))"
proof (induction ns)
  case Nil
  then show ?case by (simp add: verdicts_def)
next
  case (Cons n ns)
  obtain a k v where n: "n = (a, k, v)" by (cases n)
  with Cons judge_lookup [of g k] show ?case by (auto simp: verdicts_def split: option.split)
qed

lemma mset_verdicts:
  "distinct ks \<Longrightarrow> mset (verdicts g ks) =
    image_mset (\<lambda>k. (k, the (decision (hist g k)))) (mset_set {k \<in> set ks. decision (hist g k) \<noteq> None})"
  by (simp add: verdicts_def mset_set_set flip: set_filter mset_filter)

text \<open>
  A pass over the timers, whatever \<open>students\<close> holds for the students that stay: the timers
  and the queue follow the gate, and the gone students are dropped from \<open>students\<close>.
\<close>

lemma check_timers_pass:
  assumes at: "merger_at st ss ts" and ts: "dmap ts = seen_map g"
    and agree: "\<And>k. k \<in> gone cs now g \<Longrightarrow> dmap ss k = hist_map g k"
    and live: "\<forall>k. hist g k \<noteq> [] \<longrightarrow> c_time (seen g k) \<and> int (length k) = ID_SIZE z"
    and q: "nq_inv (queue st)" and rs: "mset rs = told g" "nq_contents (queue st) = concat (map request_of rs)"
    and now: "c_time now" and z: "sizes_ok z"
  shows "check_timers cs z now st = Inl Signed_Overflow \<or>
    (\<exists>st' ss' ts' rs'. check_timers cs z now st = Inr st' \<and> merger_at st' ss' ts' \<and>
       students st' = students st \<and> timers st' = timers st \<and>
       dmap ss' = dmap ss |` (- gone cs now g) \<and> dmap ts' = seen_map (expire cs now g) \<and> nq_inv (queue st') \<and>
       mset rs' = told (expire cs now g) \<and> nq_contents (queue st') = concat (map request_of rs'))"
proof -
  have time: "\<forall>k. hist g k \<noteq> [] \<longrightarrow> c_time (seen g k)" using live by blast
  have dist: "distinct (keys ts)" using at by (simp add: merger_at_def dict_at_def)
  have ages: "list_all (age_ok now) ts"
  proof (unfold list_all_iff, intro ballI)
    fix x assume x: "x \<in> set ts"
    obtain a k v where xk: "x = (a, k, v)" by (cases x)
    have "sint v = seen g k" "c_time (seen g k)"
      using timer_entry [OF ts dist x [unfolded xk] time] time by blast+
    then show "age_ok now x" using now by (simp add: xk c_time_def int_min_def int_max_def)
  qed
  have keys_len: "\<forall>k\<in>set (keys ts). int (length k) = ID_SIZE z"
    using timer_entry(1) [OF ts dist _ time] live by fastforce
  let ?E = "filter (expired cs now) ts"
  note E = gone_keys [OF ts dist time, of cs now]
  have rep: "reports z (dmap ss) ?E = reports z (hist_map g) ?E"
    using E agree by (intro reports_cong) blast
  from check_timers_run [OF at ages q z keys_len, of cs] show ?thesis
  proof (elim disjE exE conjE)
    fix st' ss'
    assume run: "check_timers cs z now st = Inr st'" "students st' = students st" "timers st' = timers st"
      and at': "merger_at st' ss' (filter (\<lambda>x. \<not> expired cs now x) ts)"
      and ss': "dmap ss' = dmap ss |` (- set (keys ?E))" and q': "nq_inv (queue st')"
      and c': "nq_contents (queue st') = nq_contents (queue st) @ concat (map nq_bytes (reports z (dmap ss) ?E))"
    have "mset (rs @ verdicts g (keys ?E)) = told (expire cs now g)"
      using mset_verdicts [OF distinct_keys_filter [OF dist], of g "expired cs now"] rs(1) E
      by (simp add: expire_def)
    moreover have "nq_contents (queue st') = concat (map request_of (rs @ verdicts g (keys ?E)))"
      using c' rs(2) report_bytes [of z g ?E] rep by simp
    ultimately show ?thesis
      using run at' ss' [unfolded E] q' dmap_kept [OF ts dist time, of cs now] by blast
  qed blast
qed

lemma live_expire:
  "\<forall>k. hist g k \<noteq> [] \<longrightarrow> c_time (seen g k) \<and> int (length k) = n \<Longrightarrow>
    \<forall>k. hist (expire cs now g) k \<noteq> [] \<longrightarrow> c_time (seen (expire cs now g) k) \<and> int (length k) = n"
  by (simp add: expire_def)

lemma check_timers_refines:
  assumes t: "tracks z g st" and now: "c_time now" and z: "sizes_ok z"
  shows "check_timers cs z now st = Inl Signed_Overflow \<or>
    (\<exists>st'. check_timers cs z now st = Inr st' \<and> tracks z (expire cs now g) st')"
proof -
  obtain ss ts rs where at: "merger_at st ss ts" "dmap ts = seen_map g" and ss: "dmap ss = hist_map g"
    and rs: "mset rs = told g" "nq_contents (queue st) = concat (map request_of rs)"
    and live: "\<forall>k. hist g k \<noteq> [] \<longrightarrow> c_time (seen g k) \<and> int (length k) = ID_SIZE z" and q: "nq_inv (queue st)"
    using t unfolding tracks_def by blast
  have "dmap ss k = hist_map g k" for k using ss by simp
  from check_timers_pass [OF at this live q rs now z, of cs] show ?thesis
  proof (elim disjE exE conjE)
    fix st' ss' ts' rs'
    assume "check_timers cs z now st = Inr st'" "merger_at st' ss' ts'" "dmap ss' = dmap ss |` (- gone cs now g)"
      "dmap ts' = seen_map (expire cs now g)" "nq_inv (queue st')" "mset rs' = told (expire cs now g)"
      "nq_contents (queue st') = concat (map request_of rs')"
    then show ?thesis
      using live_expire [OF live] hist_map_expire [of g cs now] ss unfolding tracks_def by (metis (no_types, lifting))
  qed simp_all
qed

section \<open>Sequences of packets and timer ticks\<close>

text \<open>
  The inputs of the two threads, each with the configuration in force when it is handled: a
  packet read from connection \<open>a\<close> (false: master, true: slave), or a run of the timers.
\<close>

datatype input = Packet conf "uchar list" bool int | Tick conf int

fun cstep :: "input \<Rightarrow> sizes \<times> merger \<Rightarrow> (sizes \<times> merger) res" where
  "cstep (Packet cs p a now) (z, st) =
     bindR (if is_detection cs p then handle_packet cs z p (of_bool a) now st else Inr st)
       (\<lambda>st'. Inr (z, st'))"
| "cstep (Tick cs now) (z, st) = bindR (check_timers cs z now st) (\<lambda>st'. Inr (z, st'))"

text \<open>A packet counts if it is no heartbeat and its checksum holds or is not asked for.\<close>

definition counts :: "conf \<Rightarrow> uchar list \<Rightarrow> bool" where
  "counts cs p \<longleftrightarrow> is_detection cs p \<and>
     (config_int cs ''student.checksum_enable'' = 0 \<or> xor_bytes p = 0)"

fun astep :: "input \<Rightarrow> sizes \<times> gate \<Rightarrow> sizes \<times> gate" where
  "astep (Packet cs p a now) (z, g) = (z, if counts cs p then detect (sprint_buf p) a now g else g)"
| "astep (Tick cs now) (z, g) = (z, expire cs now g)"

fun input_ok :: "input \<Rightarrow> sizes \<times> gate \<Rightarrow> bool" where
  "input_ok (Packet cs p a now) (z, g) = (int (length p) = PACKET_SIZE z \<and> c_time now)"
| "input_ok (Tick cs now) (z, g) = c_time now"

fun gate_rel :: "sizes \<times> gate \<Rightarrow> sizes \<times> merger \<Rightarrow> bool" where
  "gate_rel (z, g) (z', st) = (z' = z \<and> sizes_ok z \<and> tracks z g st)"

interpretation merger: simulation gate_rel astep cstep input_ok "{Exited, Signed_Overflow}"
proof unfold_locales
  fix a s i
  assume rel: "gate_rel a s" and ok: "input_ok i a"
  obtain z g where a: "a = (z, g)" by (cases a)
  obtain st where s: "s = (z, st)" and z: "sizes_ok z" and t: "tracks z g st"
    using rel a by (cases s) auto
  show "(\<exists>e\<in>{Exited, Signed_Overflow}. cstep i s = Inl e) \<or>
    (\<exists>s'. cstep i s = Inr s' \<and> gate_rel (astep i a) s')"
  proof (cases i)
    case (Tick cs now)
    with ok a have "c_time now" by simp
    from check_timers_refines [OF t this z, of cs] show ?thesis using Tick a s z by auto
  next
    case (Packet cs p b now)
    with ok a have p: "int (length p) = PACKET_SIZE z" and now: "c_time now" by simp_all
    have k: "int (length (sprint_buf p)) = ID_SIZE z" using p z by (simp add: sizes_ok_def)
    have hp: "handle_packet cs z p (of_bool b) now st =
      (if config_int cs ''student.checksum_enable'' \<noteq> 0 \<and> xor_bytes p \<noteq> 0 then Inr st
       else handle_student (sprint_buf p) (of_bool b) now st)"
      using p by (simp add: handle_packet_def check_packet_iff flip: p)
    from handle_student_refines [OF t now k, of b] show ?thesis
      using Packet a s z t hp by (auto simp: counts_def)
  qed
qed

text \<open>
  The state \<open>main\<close> sets up: two new dictionaries in a heap and an empty queue.
\<close>

definition init_merger :: "heap \<Rightarrow> merger res" where
  "init_merger h =
     bindR (new_dict h) (\<lambda>(s, h1). bindR (new_dict h1) (\<lambda>(t, h2).
       Inr \<lparr>heap = h2, students = s, timers = t, queue = nq_empty\<rparr>))"

definition init_gate :: gate where
  "init_gate = \<lparr>hist = (\<lambda>_. []), seen = (\<lambda>_. 0), told = {#}\<rparr>"

lemma init_tracks: "init_merger h = Inr st \<Longrightarrow> tracks z init_gate st"
proof -
  assume "init_merger h = Inr st"
  then obtain s h1 t h2 where n: "new_dict h = Inr (s, h1)" "new_dict h1 = Inr (t, h2)"
    and st: "st = \<lparr>heap = h2, students = s, timers = t, queue = nq_empty\<rparr>"
    by (auto simp: init_merger_def)
  have s: "dict_at h1 s []" using new_dict_cases [of h] n(1) by auto
  have t: "dict_at h2 t []" "cell h1 t = None" "same_outside {t} h1 h2"
    using new_dict_cases [of h1] n(2) by auto
  have "s \<noteq> t" using footprint_cells [OF s, of s] t(2) by (auto simp: footprint_def)
  moreover have "dict_at h2 s []"
    using dict_at_frame [OF s t(3)] \<open>s \<noteq> t\<close> by (simp add: footprint_def)
  ultimately have "merger_at st [] []" using t(1) st by (simp add: merger_at_def footprint_def)
  then show ?thesis
    unfolding tracks_def using st
    by (intro conjI exI [of _ "[]"])
      (auto simp: init_gate_def hist_map_def seen_map_def nq_inv_def nq_empty_def nq_contents_def)
qed

text \<open>A small heap after \<open>main\<close> created its dictionaries.\<close>

definition small_merger :: merger where
  "small_merger = \<lparr>heap = [None, Some \<lparr>di_key = None, di_value = 0, di_next = 0\<rparr>,
     Some \<lparr>di_key = None, di_value = 0, di_next = 0\<rparr>, None, None, None],
     students = 1, timers = 2, queue = nq_empty\<rparr>"

lemma small_merger_init: "init_merger (replicate 6 None) = Inr small_merger"
  by code_simp

lemma packet_step:
  assumes "tracks z g st" "sizes_ok z" "int (length p) = PACKET_SIZE z" "c_time now"
  shows "(if is_detection cs p then handle_packet cs z p (of_bool a) now st else Inr st) = Inl Exited \<or>
    (\<exists>st'. (if is_detection cs p then handle_packet cs z p (of_bool a) now st else Inr st) = Inr st' \<and>
       tracks z (if counts cs p then detect (sprint_buf p) a now g else g) st')"
proof -
  have k: "int (length (sprint_buf p)) = ID_SIZE z" using assms(2,3) by (simp add: sizes_ok_def)
  have hp: "handle_packet cs z p (of_bool a) now st =
      (if config_int cs ''student.checksum_enable'' \<noteq> 0 \<and> xor_bytes p \<noteq> 0 then Inr st
       else handle_student (sprint_buf p) (of_bool a) now st)"
    using assms(3) by (simp add: handle_packet_def check_packet_iff flip: assms(3))
  from handle_student_refines [OF assms(1,4) k, of a] show ?thesis
    using assms(1) hp by (auto simp: counts_def)
qed

section \<open>Properties\<close>

text \<open>
  One packet follows the gate: a packet that counts adds its connection to the history
  of the student it names, every other packet changes nothing, and the only failure is a
  full heap. No freed node is touched.
\<close>

theorem packet_refines:
  assumes "tracks z g st" "sizes_ok z" "int (length p) = PACKET_SIZE z" "c_time now"
  shows "(if is_detection cs p then handle_packet cs z p (of_bool a) now st else Inr st) = Inl Exited \<or>
    (\<exists>st'. (if is_detection cs p then handle_packet cs z p (of_bool a) now st else Inr st) = Inr st' \<and>
       tracks z (if counts cs p then detect (sprint_buf p) a now g else g) st')"
  by (rule packet_step [OF assms])

theorem packet_refines_witness:
  "\<exists>st. init_merger (replicate 6 None) = Inr st \<and>
    (handle_packet [] \<lparr>PACKET_SIZE = 1, ID_SIZE = 2, REQUEST_SIZE = 4\<rparr> [5] 1 7 st = Inl Exited \<or>
     (\<exists>st'. handle_packet [] \<lparr>PACKET_SIZE = 1, ID_SIZE = 2, REQUEST_SIZE = 4\<rparr> [5] 1 7 st = Inr st' \<and>
        tracks \<lparr>PACKET_SIZE = 1, ID_SIZE = 2, REQUEST_SIZE = 4\<rparr> (detect ''05'' True 7 init_gate) st'))"
proof -
  let ?z = "\<lparr>PACKET_SIZE = 1, ID_SIZE = 2, REQUEST_SIZE = 4\<rparr> :: sizes"
  note st = small_merger_init
  have z: "sizes_ok ?z" and p: "int (length [5 :: uchar]) = PACKET_SIZE ?z" and now: "c_time 7"
    by (simp_all add: sizes_ok_def int_max_def c_time_def)
  have d: "is_detection [] [5]" and c: "counts [] [5]" and b: "sprint_buf [5] = ''05''" by code_simp+
  show ?thesis
    using packet_refines [OF init_tracks [OF st] z p now, of "[]" True] st d c b by simp
qed

text \<open>
  One run of the timers follows the gate: the students silent for the configured time
  are forgotten, and the queue grows by one request for each of those whose first and last
  five detections have different majorities; a queue size beyond \<open>int\<close> is the only failure.
\<close>

theorem tick_refines:
  assumes "tracks z g st" "c_time now" "sizes_ok z"
  shows "check_timers cs z now st = Inl Signed_Overflow \<or>
    (\<exists>st'. check_timers cs z now st = Inr st' \<and> tracks z (expire cs now g) st')"
  by (rule check_timers_refines [OF assms])

theorem tick_refines_witness:
  "\<exists>st. init_merger (replicate 6 None) = Inr st \<and>
    (check_timers [] \<lparr>PACKET_SIZE = 1, ID_SIZE = 2, REQUEST_SIZE = 4\<rparr> 7 st = Inl Signed_Overflow \<or>
     (\<exists>st'. check_timers [] \<lparr>PACKET_SIZE = 1, ID_SIZE = 2, REQUEST_SIZE = 4\<rparr> 7 st = Inr st' \<and>
        tracks \<lparr>PACKET_SIZE = 1, ID_SIZE = 2, REQUEST_SIZE = 4\<rparr> (expire [] 7 init_gate) st'))"
proof -
  let ?z = "\<lparr>PACKET_SIZE = 1, ID_SIZE = 2, REQUEST_SIZE = 4\<rparr> :: sizes"
  note st = small_merger_init
  have z: "sizes_ok ?z" and now: "c_time 7" by (simp_all add: sizes_ok_def int_max_def c_time_def)
  show ?thesis using tick_refines [OF init_tracks [OF st] now z, of "[]"] st by blast
qed

text \<open>
  C1: from the state \<open>main\<close> sets up, every sequence of packets and timer runs - each with the
  configuration in force at the time - either stops the process (heap full, queue size beyond
  \<open>int\<close>) or ends in a state that represents the gate after the same sequence: the heap, the
  bit fields and the queue carry exactly the histories, times and told directions.
\<close>

theorem merger_implements_gate:
  assumes "init_merger h = Inr st" "sizes_ok z" "merger.inputs_ok js (z, init_gate)"
  shows "merger.crun js (z, st) = Inl Exited \<or> merger.crun js (z, st) = Inl Signed_Overflow \<or>
    (\<exists>st'. merger.crun js (z, st) = Inr (z, st') \<and> tracks z (snd (fold astep js (z, init_gate))) st')"
proof -
  have "gate_rel (z, init_gate) (z, st)" using init_tracks [OF assms(1)] assms(2) by simp
  from merger.crun_simulates [OF this assms(3)] show ?thesis
  proof (elim disjE exE conjE bexE)
    fix s' assume run: "merger.crun js (z, st) = Inr s'" and rel: "gate_rel (fold astep js (z, init_gate)) s'"
    have "fst (fold astep js (z', g)) = z'" for z' g
    proof (induction js arbitrary: g)
      case Nil
      then show ?case by simp
    next
      case (Cons j js)
      then show ?case by (cases j) simp_all
    qed
    then obtain g' where "fold astep js (z, init_gate) = (z, g')" by (metis prod.collapse)
    with run rel show ?thesis by (cases s') auto
  qed auto
qed

theorem merger_implements_gate_witness:
  "\<exists>st'. merger.crun [Packet [] [5] True 7, Packet [] [5] True 8, Packet [] [5] True 9, Packet [] [5] False 9,
        Packet [] [5] False 10, Packet [] [5] False 11, Tick [] 11]
       (\<lparr>PACKET_SIZE = 1, ID_SIZE = 2, REQUEST_SIZE = 4\<rparr>, small_merger) =
       Inr (\<lparr>PACKET_SIZE = 1, ID_SIZE = 2, REQUEST_SIZE = 4\<rparr>, st') \<and>
     nq_contents (queue st') = ''051.''"
proof -
  let ?z = "\<lparr>PACKET_SIZE = 1, ID_SIZE = 2, REQUEST_SIZE = 4\<rparr> :: sizes"
  let ?js = "[Packet [] [5] True 7, Packet [] [5] True 8, Packet [] [5] True 9, Packet [] [5] False 9,
        Packet [] [5] False 10, Packet [] [5] False 11, Tick [] 11]"
  note st = small_merger_init
  have z: "sizes_ok ?z" by (simp add: sizes_ok_def int_max_def)
  have ok: "merger.inputs_ok ?js (?z, init_gate)" by (simp add: c_time_def int_max_def)
  have run: "case merger.crun ?js (?z, small_merger) of Inl e \<Rightarrow> False
      | Inr (_, st') \<Rightarrow> nq_contents (queue st') = ''051.''"
    unfolding merger.crun.simps by code_simp
  from merger_implements_gate [OF st z ok] run show ?thesis by auto
qed

end
