(* ===== verification/Spi_Bus.thy ===== *)
theory Spi_Bus
  imports C_Prelude
begin

text \<open>
  The accesses of \<open>receive/nrf.c\<close> and \<open>send/nrf.c\<close> to the nRF24L01 chip, which both files
  define in the same words: pin changes and SPI transfers are recorded in a trace, and the
  chip is a function from the trace so far and the bytes of a transfer to the bytes it
  returns. A decoder reads the trace as the chip does, cutting it into command frames at
  the edges of the chip-select pin, and register values out of the frames.
\<close>

section \<open>Bus operations\<close>

text \<open>\<open>digitalWrite\<close> of the two pins, a transfer of \<open>wiringPiSPIDataRW\<close>, \<open>usleep\<close>.\<close>

datatype bus_op = CSN int | CE int | Spi "uchar list" | Sleep int

type_synonym bus = "bus_op list"

text \<open>
  The bytes the chip returns during a transfer, as many as it is sent. The library stores
  them over the bytes sent.
\<close>

type_synonym dev = "bus \<Rightarrow> uchar list \<Rightarrow> uchar list"

definition dev_ok :: "dev \<Rightarrow> bool" where
  "dev_ok d \<longleftrightarrow> (\<forall>b bs. length (d b bs) = length bs)"

definition csn :: "int \<Rightarrow> bus \<Rightarrow> bus" where
  "csn n b = b @ [CSN n]"

definition ce :: "int \<Rightarrow> bus \<Rightarrow> bus" where
  "ce n b = b @ [CE n]"

definition usleep :: "int \<Rightarrow> bus \<Rightarrow> bus" where
  "usleep n b = b @ [Sleep n]"

definition spi_rw :: "dev \<Rightarrow> uchar list \<Rightarrow> bus \<Rightarrow> uchar list \<times> bus" where
  "spi_rw d bs b = (d b bs, b @ [Spi bs])"

definition spi_write_byte :: "dev \<Rightarrow> uchar \<Rightarrow> bus \<Rightarrow> bus" where
  "spi_write_byte d v b = snd (spi_rw d [v] b)"

definition spi_read_byte :: "dev \<Rightarrow> bus \<Rightarrow> uchar \<times> bus" where
  "spi_read_byte d b = (let (r, b1) = spi_rw d [0xCC] b in (hd r, b1))"

definition SPI_write_reg :: "dev \<Rightarrow> uchar \<Rightarrow> uchar \<Rightarrow> bus \<Rightarrow> bus" where
  "SPI_write_reg d reg val b = csn 1 (spi_write_byte d val (spi_write_byte d reg (csn 0 b)))"

definition SPI_Read :: "dev \<Rightarrow> uchar \<Rightarrow> bus \<Rightarrow> uchar \<times> bus" where
  "SPI_Read d reg b =
     (let (reg_val, b1) = spi_read_byte d (spi_write_byte d reg (csn 0 b)) in (reg_val, csn 1 b1))"

text \<open>
  The buffer accesses: the first \<open>bytes\<close> bytes of the buffer are sent and replaced. The
  result is the buffer afterwards.
\<close>

definition spi_buf :: "dev \<Rightarrow> uchar \<Rightarrow> uchar list \<Rightarrow> uchar \<Rightarrow> bus \<Rightarrow> (uchar list \<times> bus) res" where
  "spi_buf d reg buf bytes b =
     bindR (checkR (unat bytes \<le> length buf) Out_Of_Bounds) (\<lambda>_.
       let (r, b1) = spi_rw d (take (unat bytes) buf) (spi_write_byte d reg (csn 0 b))
       in Inr (r @ drop (unat bytes) buf, csn 1 b1))"

definition SPI_Read_Buf :: "dev \<Rightarrow> uchar \<Rightarrow> uchar list \<Rightarrow> uchar \<Rightarrow> bus \<Rightarrow> (uchar list \<times> bus) res" where
  "SPI_Read_Buf d reg buf bytes b = spi_buf d reg buf bytes b"

definition SPI_Write_Buf :: "dev \<Rightarrow> uchar \<Rightarrow> uchar list \<Rightarrow> uchar \<Rightarrow> bus \<Rightarrow> (uchar list \<times> bus) res" where
  "SPI_Write_Buf d reg buf bytes b = spi_buf d reg buf bytes b"

text \<open>The copy is clobbered instead of \<open>buf\<close>.\<close>

definition SPI_Write_Buf_safe :: "dev \<Rightarrow> uchar \<Rightarrow> uchar list \<Rightarrow> uchar \<Rightarrow> bus \<Rightarrow> bus res" where
  "SPI_Write_Buf_safe d reg buf bytes b =
     bindR (checkR (unat bytes \<le> length buf) Out_Of_Bounds) (\<lambda>_.
       let copied = take (unat bytes) buf
       in bindR (SPI_Write_Buf d reg copied bytes b) (\<lambda>(_, b1). Inr b1))"

text \<open>The reads of a \<open>print_configs\<close>, one register after the other.\<close>

fun read_regs :: "dev \<Rightarrow> uchar list \<Rightarrow> bus \<Rightarrow> uchar list \<times> bus" where
  "read_regs d [] b = ([], b)"
| "read_regs d (r # rs) b = (let (v, b1) = SPI_Read d r b; (vs, b2) = read_regs d rs b1 in (v # vs, b2))"

section \<open>Commands and registers\<close>

abbreviation (input) WRITE_REG :: uchar where "WRITE_REG \<equiv> 0x20"
abbreviation (input) RD_RX_PLOAD :: uchar where "RD_RX_PLOAD \<equiv> 0x61"
abbreviation (input) WR_TX_PLOAD :: uchar where "WR_TX_PLOAD \<equiv> 0xA0"
abbreviation (input) FLUSH_TX :: uchar where "FLUSH_TX \<equiv> 0xE1"
abbreviation (input) FLUSH_RX :: uchar where "FLUSH_RX \<equiv> 0xE2"
abbreviation (input) CONFIG :: uchar where "CONFIG \<equiv> 0x00"
abbreviation (input) EN_AA :: uchar where "EN_AA \<equiv> 0x01"
abbreviation (input) EN_RXADDR :: uchar where "EN_RXADDR \<equiv> 0x02"
abbreviation (input) SETUP_AW :: uchar where "SETUP_AW \<equiv> 0x03"
abbreviation (input) SETUP_RETR :: uchar where "SETUP_RETR \<equiv> 0x04"
abbreviation (input) RF_CH :: uchar where "RF_CH \<equiv> 0x05"
abbreviation (input) RF_SETUP :: uchar where "RF_SETUP \<equiv> 0x06"
abbreviation (input) STATUS :: uchar where "STATUS \<equiv> 0x07"
abbreviation (input) RX_ADDR_P0 :: uchar where "RX_ADDR_P0 \<equiv> 0x0A"
abbreviation (input) TX_ADDR :: uchar where "TX_ADDR \<equiv> 0x10"
abbreviation (input) RX_PW_P0 :: uchar where "RX_PW_P0 \<equiv> 0x11"

section \<open>What the chip sees\<close>

text \<open>
  The decoder: whether the chip is selected, the bytes of the current frame, the complete
  frames, whether the radio is enabled, and whether every transfer so far happened with the
  chip selected and the radio off. A frame begins at the falling edge of the select pin.
\<close>

record decoder =
  selected :: bool
  current :: "uchar list"
  done_frames :: "uchar list list"
  radio :: bool
  orderly :: bool

definition idle :: decoder where
  "idle = \<lparr>selected = False, current = [], done_frames = [], radio = False, orderly = True\<rparr>"

fun decode_op :: "bus_op \<Rightarrow> decoder \<Rightarrow> decoder" where
  "decode_op (CSN n) s =
     (if n = 0 then (if selected s then s else s\<lparr>selected := True, current := []\<rparr>)
      else if selected s
           then s\<lparr>selected := False, current := [],
                  done_frames := done_frames s @ (if current s = [] then [] else [current s])\<rparr>
           else s)"
| "decode_op (CE n) s = s\<lparr>radio := (n \<noteq> 0)\<rparr>"
| "decode_op (Spi bs) s =
     s\<lparr>current := (if selected s then current s @ bs else current s),
       orderly := orderly s \<and> selected s \<and> \<not> radio s\<rparr>"
| "decode_op (Sleep n) s = s"

definition decode :: "bus \<Rightarrow> decoder" where
  "decode b = fold decode_op b idle"

abbreviation frames :: "bus \<Rightarrow> uchar list list" where
  "frames b \<equiv> done_frames (decode b)"

text \<open>The bytes last written to a register.\<close>

definition register :: "uchar list list \<Rightarrow> uchar \<Rightarrow> uchar list option" where
  "register fs r =
     (let gs = filter (\<lambda>f. f \<noteq> [] \<and> hd f = WRITE_REG + r) fs in if gs = [] then None else Some (tl (last gs)))"

lemma decode_append [simp]: "decode (b @ ops) = fold decode_op ops (decode b)"
  by (simp add: decode_def)

text \<open>
  One access as the chip sees it: a frame more, orderly if the radio is off. The access may
  begin with the chip already selected, as in \<open>flush_rx\<close>.
\<close>

definition add_frame :: "uchar list \<Rightarrow> decoder \<Rightarrow> decoder" where
  "add_frame f s = s\<lparr>selected := False, done_frames := done_frames s @ [f], orderly := orderly s \<and> \<not> radio s\<rparr>"

lemma decode_write_reg [simp]:
  "current (decode b) = [] \<Longrightarrow> decode (SPI_write_reg d r v b) = add_frame [r, v] (decode b)"
  by (cases "decode b") (auto simp: SPI_write_reg_def spi_write_byte_def spi_rw_def csn_def add_frame_def)

lemma decode_read [simp]:
  "current (decode b) = [] \<Longrightarrow> decode (snd (SPI_Read d r b)) = add_frame [r, 0xCC] (decode b)"
  by (cases "decode b")
    (auto simp: SPI_Read_def spi_read_byte_def spi_write_byte_def spi_rw_def csn_def add_frame_def)

lemma decode_spi_buf:
  assumes "spi_buf d r buf n b = Inr (buf', b')" "current (decode b) = []"
  shows "decode b' = add_frame (r # take (unat n) buf) (decode b)"
  using assms by (cases "decode b")
    (auto simp: spi_buf_def spi_write_byte_def spi_rw_def csn_def add_frame_def Let_def)

lemma spi_buf_ok:
  "unat n \<le> length buf \<Longrightarrow> \<exists>r b'. spi_buf d reg buf n b = Inr (r, b')"
  by (simp add: spi_buf_def Let_def split_def)

lemma decode_write_safe:
  assumes "unat n \<le> length buf" "current (decode b) = []"
  obtains b' where "SPI_Write_Buf_safe d r buf n b = Inr b'"
    "decode b' = add_frame (r # take (unat n) buf) (decode b)"
proof -
  have "unat n \<le> length (take (unat n) buf)" using assms(1) by simp
  from spi_buf_ok [OF this] obtain c b' where c: "spi_buf d r (take (unat n) buf) n b = Inr (c, b')" by blast
  with decode_spi_buf [OF c assms(2)] assms(1) that show thesis
    by (simp add: SPI_Write_Buf_safe_def SPI_Write_Buf_def Let_def)
qed

lemma decode_pins [simp]:
  "decode (ce n b) = (decode b)\<lparr>radio := (n \<noteq> 0)\<rparr>" "decode (usleep n b) = decode b"
  by (simp_all add: ce_def usleep_def)

lemma current_add_frame [simp]: "current (add_frame f s) = current s"
  by (simp add: add_frame_def)

lemma add_frame_fields [simp]:
  "selected (add_frame f s) = False" "done_frames (add_frame f s) = done_frames s @ [f]"
  "radio (add_frame f s) = radio s" "orderly (add_frame f s) \<longleftrightarrow> orderly s \<and> \<not> radio s"
  by (simp_all add: add_frame_def)

text \<open>The decoder between two accesses.\<close>

definition at_rest :: "bus \<Rightarrow> bool" where
  "at_rest b \<longleftrightarrow> \<not> selected (decode b) \<and> current (decode b) = [] \<and> orderly (decode b)"

lemma at_rest_Nil [simp]: "at_rest []"
  by (simp add: at_rest_def decode_def idle_def)

lemma register_append:
  "register (fs @ gs) r = (case register gs r of None \<Rightarrow> register fs r | Some v \<Rightarrow> Some v)"
  by (auto simp: register_def Let_def)

lemma register_Cons:
  "register (f # fs) r = (case register fs r of
     None \<Rightarrow> if f \<noteq> [] \<and> hd f = WRITE_REG + r then Some (tl f) else None | Some v \<Rightarrow> Some v)"
  by (auto simp: register_def Let_def)

lemma register_Nil [simp]: "register [] r = None"
  by (simp add: register_def)

lemma spi_bytes:
  "selected s \<Longrightarrow> \<not> radio s \<Longrightarrow> fold decode_op (map (\<lambda>v. Spi [v]) vs) s = s\<lparr>current := current s @ vs\<rparr>"
  by (induction vs arbitrary: s) simp_all

section \<open>Continuations of a trace\<close>

text \<open>The trace \<open>b'\<close> continues \<open>b\<close> with the frames \<open>fs\<close>, the radio off all the time.\<close>

definition continues :: "bus \<Rightarrow> uchar list list \<Rightarrow> bus \<Rightarrow> bool" where
  "continues b fs b' \<longleftrightarrow> at_rest b' \<and> frames b' = frames b @ fs \<and> radio (decode b') = radio (decode b)"

lemma continues_refl: "at_rest b \<Longrightarrow> continues b [] b"
  by (simp add: continues_def)

lemma continues_trans: "continues a fs b \<Longrightarrow> continues b gs c \<Longrightarrow> continues a (fs @ gs) c"
  by (simp add: continues_def)

definition quiet :: "bus \<Rightarrow> bool" where
  "quiet b \<longleftrightarrow> at_rest b \<and> \<not> radio (decode b)"

lemma continues_quiet: "quiet b \<Longrightarrow> continues b fs b' \<Longrightarrow> quiet b'"
  by (simp add: continues_def quiet_def)

lemma quiet_ce: "at_rest b \<Longrightarrow> quiet (ce 0 b)"
  by (simp add: quiet_def at_rest_def)

lemma rest_ce: "continues (ce 0 b) fs b' \<Longrightarrow> at_rest (ce 1 b') \<and> frames (ce 1 b') = frames b @ fs \<and> radio (decode (ce 1 b'))"
  by (simp add: continues_def at_rest_def)

lemma write_continues: "quiet b \<Longrightarrow> continues b [[r, v]] (SPI_write_reg d r v b)"
  by (simp add: continues_def quiet_def at_rest_def)

lemma read_continues: "quiet b \<Longrightarrow> continues b [[r, 0xCC]] (snd (SPI_Read d r b))"
  by (simp add: continues_def quiet_def at_rest_def)

lemma sleep_continues: "continues a fs b \<Longrightarrow> continues a fs (usleep n b)"
  by (simp add: continues_def at_rest_def)

lemma buf_continues:
  assumes "quiet b" "spi_buf d r buf n b = Inr (buf', b')"
  shows "continues b [r # take (unat n) buf] b'"
  using assms decode_spi_buf [OF assms(2)] by (simp add: continues_def quiet_def at_rest_def)

text \<open>The accesses, one after the other.\<close>

lemma then_write: "continues a fs b \<Longrightarrow> quiet a \<Longrightarrow> continues a (fs @ [[r, v]]) (SPI_write_reg d r v b)"
  using continues_trans write_continues continues_quiet by metis

lemma then_read: "continues a fs b \<Longrightarrow> quiet a \<Longrightarrow> continues a (fs @ [[r, 0xCC]]) (snd (SPI_Read d r b))"
  using continues_trans read_continues continues_quiet by metis

end
