(* ===== verification/Nrf.thy ===== *)
theory Nrf
  imports Spi_Bus Config Hex
begin

text \<open>
  \<open>receive/nrf.c\<close>: the receiver's driver of the nRF24L01, its initialisation loop, the
  reading of a packet and the switching of channels. The registers the initialisation
  leaves, the frames of a packet read and the orderly use of the bus are shown on the
  decoded trace; the channel list is read back from its printed form.
\<close>

section \<open>Settings\<close>

fun hex_value :: "int \<Rightarrow> string \<Rightarrow> int" where
  "hex_value acc [] = acc"
| "hex_value acc (c # cs) = (if hex2int c = - 1 then acc else hex_value (acc * 16 + hex2int c) cs)"

text \<open>\<open>strtol(s, NULL, 16)\<close>: white space, a sign, an optional \<open>0x\<close> before a digit, digits.\<close>

definition strtol16 :: "string \<Rightarrow> int" where
  "strtol16 s =
     (let (neg, ds) = split_sign (dropWhile isspace s);
          ds1 = (case ds of c0 # c1 # c2 # r \<Rightarrow>
                   if c0 = CHR ''0'' \<and> (c1 = CHR ''x'' \<or> c1 = CHR ''X'') \<and> hex2int c2 \<noteq> - 1 then c2 # r else ds
                 | _ \<Rightarrow> ds);
          v = hex_value 0 ds1
      in clamp_int (if neg then - v else v))"

definition NRFconf :: "conf \<Rightarrow> string \<Rightarrow> int" where
  "NRFconf cs conf = strtol16 (get_config cs (''nrf.'' @ conf))"

section \<open>The driver\<close>

text \<open>
  The globals of the file, with the trace of the bus. The widths of the addresses are those
  \<open>load_hex_config\<close> stored with them; a NULL address is the empty list.
\<close>

record nrf =
  bus :: bus
  station_R :: uchar
  station_T :: uchar
  current_channel :: uchar
  RX_PLOAD_WIDTH :: int
  TX_PLOAD_WIDTH :: int
  RX_ADR_WIDTH :: int
  TX_ADR_WIDTH :: int
  RX_ADDRESS :: "uchar list"
  TX_ADDRESS :: "uchar list"

abbreviation uc :: "int \<Rightarrow> uchar" where
  "uc \<equiv> word_of_int"

definition flush_rx :: "dev \<Rightarrow> bus \<Rightarrow> bus" where
  "flush_rx d b = csn 1 (SPI_write_reg d FLUSH_RX 0 (csn 0 b))"

definition SetRX_Mode :: "dev \<Rightarrow> nrf \<Rightarrow> nrf res" where
  "SetRX_Mode d s =
     bindR (SPI_Write_Buf d (WRITE_REG + RX_ADDR_P0) (RX_ADDRESS s) (uc (RX_ADR_WIDTH s)) (ce 0 (bus s)))
       (\<lambda>(buf, b1).
         let b2 = SPI_write_reg d (WRITE_REG + RF_CH) (station_R s) b1;
             b3 = SPI_write_reg d (WRITE_REG + CONFIG) 0x0f b2
         in Inr (s\<lparr>RX_ADDRESS := buf, bus := usleep 500 (ce 1 b3)\<rparr>))"

text \<open>The returned flag and the buffer afterwards.\<close>

definition nRF24L01_RxPacket :: "dev \<Rightarrow> uchar list \<Rightarrow> nrf \<Rightarrow> (bool \<times> uchar list \<times> nrf) res" where
  "nRF24L01_RxPacket d rx_buf s =
     (let (sta, b1) = SPI_Read d STATUS (ce 0 (bus s)) in
      bindR (if sta AND 0x40 \<noteq> 0
             then bindR (SPI_Read_Buf d RD_RX_PLOAD rx_buf (uc (RX_PLOAD_WIDTH s)) b1) (\<lambda>(buf, b2). Inr (True, buf, b2))
             else Inr (False, rx_buf, b1)) (\<lambda>(received, buf, b2).
        let b3 = SPI_write_reg d FLUSH_RX 0 b2;
            b4 = SPI_write_reg d (WRITE_REG + STATUS) sta b3
        in Inr (received, buf, s\<lparr>bus := ce 1 b4\<rparr>)))"

text \<open>The code between the label \<open>begin\<close> and the check of the configuration register.\<close>

definition init_pass :: "dev \<Rightarrow> conf \<Rightarrow> nrf \<Rightarrow> nrf res" where
  "init_pass d cs s =
     (let w = (\<lambda>reg val b. SPI_write_reg d (WRITE_REG + reg) val b);
          b1 = w CONFIG (uc (NRFconf cs ''CONFIG_intr_mask'')) (bus s);
          b2 = w STATUS (uc (NRFconf cs ''CONFIG_clear_intr'')) b1;
          b3 = w SETUP_AW (uc (TX_ADR_WIDTH s - 2)) b2
      in bindR (SPI_Write_Buf_safe d (WRITE_REG + TX_ADDR) (TX_ADDRESS s) (uc (TX_ADR_WIDTH s)) b3) (\<lambda>b4.
         let b5 = w SETUP_AW (uc (RX_ADR_WIDTH s - 2)) b4
         in bindR (SPI_Write_Buf_safe d (WRITE_REG + RX_ADDR_P0) (RX_ADDRESS s) (uc (RX_ADR_WIDTH s)) b5) (\<lambda>b6.
            let b7 = w EN_AA (uc (NRFconf cs ''EN_AA'')) b6;
                b8 = w EN_RXADDR (uc (NRFconf cs ''EN_RXADDR'')) b7;
                b9 = w SETUP_RETR (uc (NRFconf cs ''SETUP_RETR'')) b8;
                b10 = w RF_CH (station_R s) b9;
                b11 = w RX_PW_P0 (uc (RX_PLOAD_WIDTH s)) b10;
                b12 = w RF_SETUP (uc (NRFconf cs ''RF_SETUP'')) b11;
                b13 = flush_rx d b12;
                b14 = w CONFIG (uc (NRFconf cs ''CONFIG'')) b13
            in Inr (s\<lparr>bus := usleep 10000 b14\<rparr>))))"

text \<open>
  The loop back to \<open>begin\<close> while the register does not read back as configured; the fuel is
  the number of passes allowed. The comparison is between \<open>int\<close>s.
\<close>

fun init_loop :: "nat \<Rightarrow> dev \<Rightarrow> conf \<Rightarrow> nrf \<Rightarrow> nrf res" where
  "init_loop 0 d cs s = Inl No_Return"
| "init_loop (Suc n) d cs s =
     bindR (init_pass d cs s) (\<lambda>s1.
       let (v, b) = SPI_Read d CONFIG (bus s1); s2 = s1\<lparr>bus := b\<rparr>
       in if uint v \<noteq> NRFconf cs ''CONFIG'' then init_loop n d cs s2 else Inr s2)"

definition init_NRF24L01 :: "nat \<Rightarrow> dev \<Rightarrow> conf \<Rightarrow> uchar \<Rightarrow> nrf \<Rightarrow> nrf res" where
  "init_NRF24L01 n d cs station s =
     (let width = NRFconf cs ''RX_PLOAD_WIDTH'';
          s1 = s\<lparr>RX_PLOAD_WIDTH := width, TX_PLOAD_WIDTH := width, station_T := station,
                 station_R := station, bus := ce 0 (bus s)\<rparr>
      in bindR (init_loop n d cs s1) (\<lambda>s2. Inr (s2\<lparr>bus := ce 1 (bus s2)\<rparr>)))"

text \<open>The values logged, in order.\<close>

definition print_configs :: "dev \<Rightarrow> conf \<Rightarrow> nrf \<Rightarrow> (uchar list \<times> nrf) res" where
  "print_configs d cs s =
     (let b1 = SPI_write_reg d (WRITE_REG + STATUS) (uc (NRFconf cs ''CONFIG_clear_intr'')) (ce 0 (bus s));
          (vs, b2) = read_regs d [STATUS, SETUP_AW, EN_AA, EN_RXADDR, SETUP_RETR, RF_CH, RX_PW_P0, RF_SETUP, CONFIG] b1
      in bindR (checkR (3 \<le> length (RX_ADDRESS s)) Out_Of_Bounds) (\<lambda>_.
           Inr (vs @ [uc (TX_ADR_WIDTH s), uc (RX_ADR_WIDTH s)] @ take 3 (RX_ADDRESS s), s\<lparr>bus := ce 1 b2\<rparr>)))"

section \<open>Channels\<close>

definition CHANNEL_MAX :: nat where "CHANNEL_MAX = 256"

text \<open>
  The parser of the channel list: the characters, the NUL as the end of the list, and the
  variables \<open>curr\<close>, \<open>isempty\<close>, \<open>bitmap\<close>, \<open>num_channels\<close> and \<open>last_channel\<close>.
\<close>

record chan_list =
  bitmap :: "bool list"
  num_channels :: int
  last_channel :: int

definition end_of_number :: "int \<Rightarrow> bool \<Rightarrow> chan_list \<Rightarrow> chan_list" where
  "end_of_number cur isempty l =
     (if \<not> isempty \<and> cur \<ge> 0 \<and> cur < int CHANNEL_MAX
      then l\<lparr>bitmap := (bitmap l)[nat cur := True], num_channels := num_channels l + 1, last_channel := cur\<rparr>
      else l)"

fun parse_channels :: "string \<Rightarrow> int \<Rightarrow> bool \<Rightarrow> chan_list \<Rightarrow> chan_list res" where
  "parse_channels [] cur isempty l = Inr (end_of_number cur isempty l)"
| "parse_channels (c # cs) cur isempty l =
     (if isdigit c
      then bindR (c_int (cur * 10)) (\<lambda>t. bindR (c_int (t + (ord c - 48))) (\<lambda>v. parse_channels cs v False l))
      else parse_channels cs 0 True (end_of_number cur isempty l))"

definition no_channels :: chan_list where
  "no_channels = \<lparr>bitmap = replicate CHANNEL_MAX False, num_channels = 0, last_channel = - 1\<rparr>"

fun switch_loop :: "nat list \<Rightarrow> nat \<Rightarrow> dev \<Rightarrow> conf \<Rightarrow> bool list \<Rightarrow> int \<Rightarrow> nrf \<Rightarrow> nrf res" where
  "switch_loop [] n d cs bm usec s = Inr s"
| "switch_loop (channel # chs) n d cs bm usec s =
     (if bm ! channel then
        bindR (init_NRF24L01 n d cs (word_of_nat channel) (s\<lparr>current_channel := word_of_nat channel\<rparr>)) (\<lambda>s1.
          switch_loop chs n d cs bm usec (s1\<lparr>bus := usleep usec (bus s1)\<rparr>))
      else switch_loop chs n d cs bm usec s)"

definition switch_channels :: "nat \<Rightarrow> dev \<Rightarrow> conf \<Rightarrow> bool list \<Rightarrow> int \<Rightarrow> nrf \<Rightarrow> nrf res" where
  "switch_channels n d cs bm usec s = switch_loop [0..<CHANNEL_MAX] n d cs bm usec s"

text \<open>\<open>prev_num_channels\<close> and \<open>prev_last_channel\<close>.\<close>

record switcher =
  prev_num :: int
  prev_last :: int

definition init_switcher :: switcher where
  "init_switcher = \<lparr>prev_num = 0, prev_last = - 1\<rparr>"

text \<open>One round of the endless loop of \<open>cron_channel_switch\<close>.\<close>

definition channel_round :: "nat \<Rightarrow> dev \<Rightarrow> conf \<Rightarrow> switcher \<Rightarrow> nrf \<Rightarrow> (switcher \<times> nrf) res" where
  "channel_round n d cs w s =
     (let u = config_int cs ''nrf.channel_switch_interval''; usec = (if u < 10000 then 10000 else u) in
      bindR (parse_channels (get_config cs ''nrf.channel'') 0 True no_channels) (\<lambda>l.
      bindR (if num_channels l = 0 then Inr (s\<lparr>bus := usleep usec (bus s)\<rparr>)
             else if num_channels l = 1 \<and> prev_num w = 1 \<and> last_channel l = prev_last w then Inr s
             else switch_channels n d cs (bitmap l) usec s) (\<lambda>s1.
        Inr (\<lparr>prev_num = num_channels l, prev_last = last_channel l\<rparr>, s1))))"

section \<open>What the chip is told\<close>

definition widths_ok :: "nrf \<Rightarrow> bool" where
  "widths_ok s \<longleftrightarrow> int (length (TX_ADDRESS s)) = TX_ADR_WIDTH s \<and> length (TX_ADDRESS s) < 256 \<and>
     int (length (RX_ADDRESS s)) = RX_ADR_WIDTH s \<and> length (RX_ADDRESS s) < 256"

text \<open>The frames of one pass of the initialisation, its check included.\<close>

definition init_frames :: "conf \<Rightarrow> nrf \<Rightarrow> uchar list list" where
  "init_frames cs s =
     [[WRITE_REG + CONFIG, uc (NRFconf cs ''CONFIG_intr_mask'')],
      [WRITE_REG + STATUS, uc (NRFconf cs ''CONFIG_clear_intr'')],
      [WRITE_REG + SETUP_AW, uc (TX_ADR_WIDTH s - 2)],
      (WRITE_REG + TX_ADDR) # TX_ADDRESS s,
      [WRITE_REG + SETUP_AW, uc (RX_ADR_WIDTH s - 2)],
      (WRITE_REG + RX_ADDR_P0) # RX_ADDRESS s,
      [WRITE_REG + EN_AA, uc (NRFconf cs ''EN_AA'')],
      [WRITE_REG + EN_RXADDR, uc (NRFconf cs ''EN_RXADDR'')],
      [WRITE_REG + SETUP_RETR, uc (NRFconf cs ''SETUP_RETR'')],
      [WRITE_REG + RF_CH, station_R s],
      [WRITE_REG + RX_PW_P0, uc (RX_PLOAD_WIDTH s)],
      [WRITE_REG + RF_SETUP, uc (NRFconf cs ''RF_SETUP'')],
      [FLUSH_RX, 0],
      [WRITE_REG + CONFIG, uc (NRFconf cs ''CONFIG'')],
      [CONFIG, 0xCC]]"

lemma flush_continues: "quiet b \<Longrightarrow> continues b [[FLUSH_RX, 0]] (flush_rx d b)"
proof -
  assume q: "quiet b"
  let ?s = "(decode b)\<lparr>selected := True, current := []\<rparr>"
  have s: "decode (csn 0 b) = ?s" using q by (simp add: csn_def quiet_def at_rest_def)
  have "decode (csn 1 (SPI_write_reg d FLUSH_RX 0 (csn 0 b))) = add_frame [FLUSH_RX, 0] ?s"
    using s by (subst csn_def) simp
  then show ?thesis using q by (simp add: flush_rx_def continues_def quiet_def at_rest_def)
qed

lemma unat_uc:
  assumes "int k = w" "k < 256"
  shows "unat (uc w) = k"
proof -
  have "uc w = word_of_nat k" using assms(1) by auto
  with assms(2) show ?thesis by (simp add: unat_of_nat)
qed

lemma then_flush: "continues a fs b \<Longrightarrow> quiet a \<Longrightarrow> continues a (fs @ [[FLUSH_RX, 0]]) (flush_rx d b)"
  using continues_trans flush_continues continues_quiet by metis

lemma write_safe_continues:
  assumes "quiet b" "int (length buf) = w" "length buf < 256"
  obtains b' where "SPI_Write_Buf_safe d r buf (uc w) b = Inr b'" "continues b [r # buf] b'"
proof -
  have n: "unat (uc w) = length buf" using assms(2,3) by (rule unat_uc)
  have "current (decode b) = []" using assms(1) by (simp add: quiet_def at_rest_def)
  then obtain b' where "SPI_Write_Buf_safe d r buf (uc w) b = Inr b'"
    "decode b' = add_frame (r # take (unat (uc w)) buf) (decode b)"
    using decode_write_safe [of "uc w" buf b d r] n by auto
  then show thesis using that assms(1) n by (simp add: continues_def quiet_def at_rest_def)
qed

lemma then_write_safe:
  assumes "continues a fs b" "quiet a" "int (length buf) = w" "length buf < 256"
  obtains b' where "SPI_Write_Buf_safe d r buf (uc w) b = Inr b'" "continues a (fs @ [r # buf]) b'"
proof -
  have "quiet b" using continues_quiet assms(1,2) by blast
  then obtain b' where "SPI_Write_Buf_safe d r buf (uc w) b = Inr b'" "continues b [r # buf] b'"
    using write_safe_continues assms(3,4) by blast
  with that continues_trans [OF assms(1)] show thesis by blast
qed

lemma init_pass_frames:
  assumes w: "widths_ok s" and q: "quiet (bus s)"
  obtains b where "init_pass d cs s = Inr (s\<lparr>bus := b\<rparr>)"
    "continues (bus s) (init_frames cs s) (snd (SPI_Read d CONFIG b))"
proof -
  let ?w = "\<lambda>reg val b. SPI_write_reg d (WRITE_REG + reg) val b"
  define b3 where "b3 = ?w SETUP_AW (uc (TX_ADR_WIDTH s - 2)) (?w STATUS (uc (NRFconf cs ''CONFIG_clear_intr''))
    (?w CONFIG (uc (NRFconf cs ''CONFIG_intr_mask'')) (bus s)))"
  have "continues (bus s) [] (bus s)" using q by (simp add: continues_def quiet_def)
  then have c3: "continues (bus s) ([] @ [[WRITE_REG + CONFIG, uc (NRFconf cs ''CONFIG_intr_mask'')]] @
      [[WRITE_REG + STATUS, uc (NRFconf cs ''CONFIG_clear_intr'')]] @ [[WRITE_REG + SETUP_AW, uc (TX_ADR_WIDTH s - 2)]]) b3"
    unfolding b3_def append_assoc [symmetric] by (intro then_write q)
  obtain b4 where b4: "SPI_Write_Buf_safe d (WRITE_REG + TX_ADDR) (TX_ADDRESS s) (uc (TX_ADR_WIDTH s)) b3 = Inr b4"
    "continues (bus s) (([] @ [[WRITE_REG + CONFIG, uc (NRFconf cs ''CONFIG_intr_mask'')]] @
      [[WRITE_REG + STATUS, uc (NRFconf cs ''CONFIG_clear_intr'')]] @ [[WRITE_REG + SETUP_AW, uc (TX_ADR_WIDTH s - 2)]])
      @ [(WRITE_REG + TX_ADDR) # TX_ADDRESS s]) b4"
    using then_write_safe [OF c3 q] w unfolding widths_ok_def by metis
  define b5 where "b5 = ?w SETUP_AW (uc (RX_ADR_WIDTH s - 2)) b4"
  note c5 = then_write [OF b4(2) q, of "WRITE_REG + SETUP_AW" "uc (RX_ADR_WIDTH s - 2)" d, folded b5_def]
  obtain b6 where b6: "SPI_Write_Buf_safe d (WRITE_REG + RX_ADDR_P0) (RX_ADDRESS s) (uc (RX_ADR_WIDTH s)) b5 = Inr b6"
    and c6: "continues (bus s) (take 6 (init_frames cs s)) b6"
    using then_write_safe [OF c5 q] w unfolding widths_ok_def init_frames_def
    by (simp add: numeral_eq_Suc) metis
  define b12 where "b12 = ?w RF_SETUP (uc (NRFconf cs ''RF_SETUP'')) (?w RX_PW_P0 (uc (RX_PLOAD_WIDTH s))
    (?w RF_CH (station_R s) (?w SETUP_RETR (uc (NRFconf cs ''SETUP_RETR'')) (?w EN_RXADDR (uc (NRFconf cs ''EN_RXADDR''))
    (?w EN_AA (uc (NRFconf cs ''EN_AA'')) b6)))))"
  define b where "b = usleep 10000 (?w CONFIG (uc (NRFconf cs ''CONFIG'')) (flush_rx d b12))"
  have "continues (bus s) (take 6 (init_frames cs s) @ [[WRITE_REG + EN_AA, uc (NRFconf cs ''EN_AA'')]] @
      [[WRITE_REG + EN_RXADDR, uc (NRFconf cs ''EN_RXADDR'')]] @ [[WRITE_REG + SETUP_RETR, uc (NRFconf cs ''SETUP_RETR'')]] @
      [[WRITE_REG + RF_CH, station_R s]] @ [[WRITE_REG + RX_PW_P0, uc (RX_PLOAD_WIDTH s)]] @
      [[WRITE_REG + RF_SETUP, uc (NRFconf cs ''RF_SETUP'')]] @ [[FLUSH_RX, 0]] @
      [[WRITE_REG + CONFIG, uc (NRFconf cs ''CONFIG'')]] @ [[CONFIG, 0xCC]]) (snd (SPI_Read d CONFIG b))"
    unfolding b_def b12_def append_assoc [symmetric]
    by (intro then_read sleep_continues then_write then_flush q c6)
  then have "continues (bus s) (init_frames cs s) (snd (SPI_Read d CONFIG b))"
    by (simp add: init_frames_def numeral_eq_Suc)
  moreover have "init_pass d cs s = Inr (s\<lparr>bus := b\<rparr>)"
    unfolding init_pass_def Let_def b3_def [symmetric] b4(1) bindR.simps b5_def [symmetric] b6
    by (simp only: b_def b12_def)
  ultimately show thesis using that by blast
qed

lemma init_loop_frames:
  "init_loop n d cs s = Inr s' \<Longrightarrow> widths_ok s \<Longrightarrow> quiet (bus s) \<Longrightarrow>
    \<exists>k<n. \<exists>b. s' = s\<lparr>bus := b\<rparr> \<and> continues (bus s) (concat (replicate (Suc k) (init_frames cs s))) b"
proof (induction n arbitrary: s)
  case 0
  then show ?case by simp
next
  case (Suc n)
  obtain b where b: "init_pass d cs s = Inr (s\<lparr>bus := b\<rparr>)"
    "continues (bus s) (init_frames cs s) (snd (SPI_Read d CONFIG b))"
    using init_pass_frames [OF Suc.prems(2,3)] by blast
  let ?b = "snd (SPI_Read d CONFIG b)"
  show ?case
  proof (cases "uint (fst (SPI_Read d CONFIG b)) \<noteq> NRFconf cs ''CONFIG''")
    case True
    with Suc.prems(1) b(1) have "init_loop n d cs (s\<lparr>bus := ?b\<rparr>) = Inr s'"
      by (simp add: Let_def split_def)
    from Suc.IH [OF this] Suc.prems(2) continues_quiet [OF Suc.prems(3) b(2)]
    obtain k b' where k: "k < n" "s' = s\<lparr>bus := b'\<rparr>"
      "continues ?b (concat (replicate (Suc k) (init_frames cs s))) b'"
      by (auto simp: widths_ok_def init_frames_def)
    from continues_trans [OF b(2) k(3)] k(1,2) show ?thesis by (intro exI [of _ "Suc k"]) auto
  next
    case False
    with Suc.prems(1) b show ?thesis by (intro exI [of _ 0]) (simp add: Let_def split_def, blast)
  qed
qed

text \<open>The state \<open>init_NRF24L01\<close> enters its loop with.\<close>

definition set_up :: "conf \<Rightarrow> uchar \<Rightarrow> nrf \<Rightarrow> nrf" where
  "set_up cs station s = s\<lparr>RX_PLOAD_WIDTH := NRFconf cs ''RX_PLOAD_WIDTH'',
     TX_PLOAD_WIDTH := NRFconf cs ''RX_PLOAD_WIDTH'', station_T := station, station_R := station\<rparr>"

lemma init_frames_all:
  assumes "init_NRF24L01 n d cs station s = Inr s'" "widths_ok s" "at_rest (bus s)"
  obtains k b where "k < n" "s' = set_up cs station s\<lparr>bus := b\<rparr>" "at_rest b" "radio (decode b)"
    "frames b = frames (bus s) @ concat (replicate (Suc k) (init_frames cs (set_up cs station s)))"
proof -
  let ?s = "set_up cs station s\<lparr>bus := ce 0 (bus s)\<rparr>"
  obtain s2 where s2: "init_loop n d cs ?s = Inr s2" "s' = s2\<lparr>bus := ce 1 (bus s2)\<rparr>"
    using assms(1) by (auto simp: init_NRF24L01_def Let_def set_up_def)
  have "widths_ok ?s" "quiet (bus ?s)"
    using assms(2,3) by (simp_all add: widths_ok_def set_up_def quiet_def at_rest_def)
  with init_loop_frames [OF s2(1)] obtain k b where k: "k < n" "s2 = ?s\<lparr>bus := b\<rparr>"
    "continues (ce 0 (bus s)) (concat (replicate (Suc k) (init_frames cs ?s))) b" by auto
  have "init_frames cs ?s = init_frames cs (set_up cs station s)" by (simp add: init_frames_def)
  with k s2(2) that [of k "ce 1 b"] show thesis by (simp add: continues_def at_rest_def)
qed

lemma register_passes:
  "register gs r \<noteq> None \<Longrightarrow> register (fs @ concat (replicate (Suc k) gs)) r = register gs r"
proof -
  have "concat (replicate (Suc k) gs) = concat (replicate k gs) @ gs"
    by (induction k) simp_all
  then show "register gs r \<noteq> None \<Longrightarrow> ?thesis" by (auto simp: register_append split: option.split)
qed

lemma init_frames_registers:
  "register (init_frames cs s) RF_CH = Some [station_R s]"
  "register (init_frames cs s) RX_PW_P0 = Some [uc (RX_PLOAD_WIDTH s)]"
  "register (init_frames cs s) RX_ADDR_P0 = Some (RX_ADDRESS s)"
  "register (init_frames cs s) TX_ADDR = Some (TX_ADDRESS s)"
  "register (init_frames cs s) SETUP_AW = Some [uc (RX_ADR_WIDTH s - 2)]"
  "register (init_frames cs s) EN_AA = Some [uc (NRFconf cs ''EN_AA'')]"
  "register (init_frames cs s) EN_RXADDR = Some [uc (NRFconf cs ''EN_RXADDR'')]"
  "register (init_frames cs s) SETUP_RETR = Some [uc (NRFconf cs ''SETUP_RETR'')]"
  "register (init_frames cs s) RF_SETUP = Some [uc (NRFconf cs ''RF_SETUP'')]"
  "register (init_frames cs s) CONFIG = Some [uc (NRFconf cs ''CONFIG'')]"
  by (simp_all add: init_frames_def register_Cons)

text \<open>The radio listens on the channel that is put in front of the packets.\<close>

definition tuned :: "nrf \<Rightarrow> bool" where
  "tuned s \<longleftrightarrow> station_R s = current_channel s \<and> register (frames (bus s)) RF_CH = Some [current_channel s]"

definition driver_ok :: "nrf \<Rightarrow> bool" where
  "driver_ok s \<longleftrightarrow> widths_ok s \<and> at_rest (bus s)"

lemma init_driver:
  assumes "init_NRF24L01 n d cs (current_channel s) s = Inr s'" "driver_ok s"
  shows "driver_ok s' \<and> tuned s' \<and> current_channel s' = current_channel s"
proof -
  have w: "widths_ok s" "at_rest (bus s)" using assms(2) by (simp_all add: driver_ok_def)
  obtain k b where k: "s' = set_up cs (current_channel s) s\<lparr>bus := b\<rparr>" "at_rest b"
    "frames b = frames (bus s) @ concat (replicate (Suc k) (init_frames cs (set_up cs (current_channel s) s)))"
    using init_frames_all [OF assms(1) w] by blast
  have "register (frames b) RF_CH = Some [station_R (set_up cs (current_channel s) s)]"
    unfolding k(3) by (subst register_passes) (simp_all add: init_frames_registers)
  with k(1,2) w(1) show ?thesis by (simp add: driver_ok_def tuned_def set_up_def widths_ok_def)
qed

lemma driver_sleep: "driver_ok (s\<lparr>bus := usleep u (bus s)\<rparr>) = driver_ok s"
  "tuned (s\<lparr>bus := usleep u (bus s)\<rparr>) = tuned s"
  by (simp_all add: driver_ok_def widths_ok_def at_rest_def tuned_def)

lemma driver_channel: "driver_ok (s\<lparr>current_channel := c\<rparr>) = driver_ok s"
  by (simp add: driver_ok_def widths_ok_def)

lemma switch_loop_tuned:
  "switch_loop chs n d cs bm usec s = Inr s' \<Longrightarrow> driver_ok s \<Longrightarrow>
    driver_ok s' \<and> (tuned s \<or> (\<exists>c\<in>set chs. bm ! c) \<longrightarrow> tuned s')"
proof (induction chs n d cs bm usec s rule: switch_loop.induct)
  case (1 n d cs bm usec s)
  then show ?case by simp
next
  case (2 channel chs n d cs bm usec s)
  show ?case
  proof (cases "bm ! channel")
    case False
    with 2 show ?thesis by auto
  next
    case True
    let ?s = "s\<lparr>current_channel := word_of_nat channel\<rparr>"
    obtain s1 where s1: "init_NRF24L01 n d cs (current_channel ?s) ?s = Inr s1"
      and rest: "switch_loop chs n d cs bm usec (s1\<lparr>bus := usleep usec (bus s1)\<rparr>) = Inr s'"
      using "2.prems"(1) True by auto
    have "driver_ok ?s" using "2.prems"(2) by (simp add: driver_channel)
    from init_driver [OF s1 this] have "driver_ok s1" "tuned s1" by simp_all
    with "2.IH"(1) [OF True rest] s1 show ?thesis by (simp add: driver_sleep)
  qed
qed

lemma parse_channels_bit:
  "parse_channels cs cur e l = Inr l' \<Longrightarrow> length (bitmap l) = CHANNEL_MAX \<Longrightarrow>
    (num_channels l \<noteq> 0 \<longrightarrow> True \<in> set (bitmap l)) \<Longrightarrow> 0 \<le> num_channels l \<Longrightarrow>
    length (bitmap l') = CHANNEL_MAX \<and> 0 \<le> num_channels l' \<and> (num_channels l' \<noteq> 0 \<longrightarrow> True \<in> set (bitmap l'))"
proof (induction cs cur e l rule: parse_channels.induct)
  case (1 cur e l)
  then show ?case by (auto simp: end_of_number_def set_update_memI)
next
  case (2 c cs cur e l)
  show ?case
  proof (cases "isdigit c")
    case True
    with 2 show ?thesis by auto
  next
    case False
    have "length (bitmap (end_of_number cur e l)) = CHANNEL_MAX"
      "num_channels (end_of_number cur e l) \<noteq> 0 \<longrightarrow> True \<in> set (bitmap (end_of_number cur e l))"
      "0 \<le> num_channels (end_of_number cur e l)"
      using "2.prems"(2-4) by (auto simp: end_of_number_def set_update_memI)
    with 2 False show ?thesis by simp
  qed
qed

text \<open>The invariant of the channel thread between two rounds.\<close>

definition switcher_ok :: "switcher \<Rightarrow> nrf \<Rightarrow> bool" where
  "switcher_ok w s \<longleftrightarrow> driver_ok s \<and> (prev_num w \<noteq> 0 \<longrightarrow> tuned s)"

lemma channel_round_ok:
  assumes "channel_round n d cs w s = Inr (w', s')" "switcher_ok w s"
  shows "switcher_ok w' s'"
proof -
  define u where "u = (if config_int cs ''nrf.channel_switch_interval'' < 10000 then 10000
    else config_int cs ''nrf.channel_switch_interval'')"
  obtain l where l: "parse_channels (get_config cs ''nrf.channel'') 0 True no_channels = Inr l"
    and s': "(if num_channels l = 0 then Inr (s\<lparr>bus := usleep u (bus s)\<rparr>)
      else if num_channels l = 1 \<and> prev_num w = 1 \<and> last_channel l = prev_last w then Inr s
      else switch_channels n d cs (bitmap l) u s) = Inr s'"
    and w': "w' = \<lparr>prev_num = num_channels l, prev_last = last_channel l\<rparr>"
    using assms(1) unfolding channel_round_def Let_def u_def [symmetric] by auto
  have b: "length (bitmap l) = CHANNEL_MAX" "num_channels l \<noteq> 0 \<longrightarrow> True \<in> set (bitmap l)"
    using parse_channels_bit [OF l] by (simp_all add: no_channels_def)
  have d: "driver_ok s" using assms(2) by (simp add: switcher_ok_def)
  show ?thesis
  proof (cases "num_channels l = 0 \<or> num_channels l = 1 \<and> prev_num w = 1 \<and> last_channel l = prev_last w")
    case True
    with s' w' assms(2) show ?thesis
      by (cases "num_channels l = 0") (auto simp: switcher_ok_def driver_sleep)
  next
    case False
    then have n: "num_channels l \<noteq> 0"
      and "\<not> (num_channels l = 1 \<and> prev_num w = 1 \<and> last_channel l = prev_last w)" by blast+
    then have sw: "switch_channels n d cs (bitmap l) u s = Inr s'" using s' by (simp only: if_False)
    from n obtain i where "i < CHANNEL_MAX" "bitmap l ! i" using b by (auto simp: in_set_conv_nth)
    then have "\<exists>c\<in>set [0..<CHANNEL_MAX]. bitmap l ! c" by auto
    with switch_loop_tuned [OF sw [unfolded switch_channels_def] d] w' show ?thesis
      by (simp add: switcher_ok_def)
  qed
qed

section \<open>Reading a packet\<close>

text \<open>The trace at the moment the payload is clocked out.\<close>

definition payload_point :: "bus \<Rightarrow> bus" where
  "payload_point b = b @ [CE 0, CSN 0, Spi [STATUS], Spi [0xCC], CSN 1, CSN 0, Spi [RD_RX_PLOAD]]"

text \<open>The read of a packet, from the state of the bus after the status register was read.\<close>

lemma RxPacket_after_status:
  assumes c1: "quiet b1" and b1: "SPI_Read d STATUS (ce 0 (bus s)) = (sta, b1)"
    and len: "unat (uc (RX_PLOAD_WIDTH s)) = length rx_buf"
  obtains b where "nRF24L01_RxPacket d rx_buf s = Inr (sta AND 0x40 \<noteq> 0,
      if sta AND 0x40 \<noteq> 0 then d (b1 @ [CSN 0, Spi [RD_RX_PLOAD]]) rx_buf else rx_buf, s\<lparr>bus := b\<rparr>)"
    "frames b = frames b1 @ (if sta AND 0x40 \<noteq> 0 then [RD_RX_PLOAD # rx_buf] else []) @
       [[FLUSH_RX, 0], [WRITE_REG + STATUS, sta]]"
    "at_rest b" "radio (decode b)"
proof -
  define b2 where "b2 = (if sta AND 0x40 \<noteq> 0 then b1 @ [CSN 0, Spi [RD_RX_PLOAD], Spi rx_buf, CSN 1] else b1)"
  have rd: "SPI_Read_Buf d RD_RX_PLOAD rx_buf (uc (RX_PLOAD_WIDTH s)) b1 =
      Inr (d (b1 @ [CSN 0, Spi [RD_RX_PLOAD]]) rx_buf, b1 @ [CSN 0, Spi [RD_RX_PLOAD], Spi rx_buf, CSN 1])"
    using len by (simp add: SPI_Read_Buf_def spi_buf_def spi_write_byte_def spi_rw_def csn_def)
  have c2: "continues b1 (if sta AND 0x40 \<noteq> 0 then [RD_RX_PLOAD # rx_buf] else []) b2"
  proof (cases "sta AND 0x40 \<noteq> 0")
    case True
    have "continues b1 [RD_RX_PLOAD # rx_buf] (b1 @ [CSN 0, Spi [RD_RX_PLOAD], Spi rx_buf, CSN 1])"
      using buf_continues [OF c1 rd [unfolded SPI_Read_Buf_def]] len by simp
    with True show ?thesis by (simp add: b2_def)
  next
    case False
    with c1 show ?thesis by (simp add: b2_def continues_def quiet_def)
  qed
  define b where "b = ce 1 (SPI_write_reg d (WRITE_REG + STATUS) sta (SPI_write_reg d FLUSH_RX 0 b2))"
  have c: "continues b1 (((if sta AND 0x40 \<noteq> 0 then [RD_RX_PLOAD # rx_buf] else []) @
      [[FLUSH_RX, 0]]) @ [[WRITE_REG + STATUS, sta]]) (SPI_write_reg d (WRITE_REG + STATUS) sta (SPI_write_reg d FLUSH_RX 0 b2))"
    by (intro then_write c2 c1)
  show thesis
  proof (rule that [of b])
    show "nRF24L01_RxPacket d rx_buf s = Inr (sta AND 0x40 \<noteq> 0,
      if sta AND 0x40 \<noteq> 0 then d (b1 @ [CSN 0, Spi [RD_RX_PLOAD]]) rx_buf else rx_buf, s\<lparr>bus := b\<rparr>)"
      unfolding nRF24L01_RxPacket_def b1 Let_def split_def fst_conv snd_conv rd by (auto simp: b_def b2_def)
    show "frames b = frames b1 @ (if sta AND 0x40 \<noteq> 0 then [RD_RX_PLOAD # rx_buf] else []) @
       [[FLUSH_RX, 0], [WRITE_REG + STATUS, sta]]"
      using c by (simp add: continues_def b_def)
    show "at_rest b" "radio (decode b)" using c by (simp_all add: continues_def b_def at_rest_def)
  qed
qed

lemma RxPacket_result:
  assumes rest: "at_rest (bus s)" and len: "unat (uc (RX_PLOAD_WIDTH s)) = length rx_buf"
    and sta: "sta = hd (d (bus s @ [CE 0, CSN 0, Spi [STATUS]]) [0xCC])"
  obtains b where "nRF24L01_RxPacket d rx_buf s = Inr (sta AND 0x40 \<noteq> 0,
      if sta AND 0x40 \<noteq> 0 then d (payload_point (bus s)) rx_buf else rx_buf, s\<lparr>bus := b\<rparr>)"
    "frames b = frames (bus s) @ [[STATUS, 0xCC]] @
       (if sta AND 0x40 \<noteq> 0 then [RD_RX_PLOAD # rx_buf] else []) @ [[FLUSH_RX, 0], [WRITE_REG + STATUS, sta]]"
    "at_rest b" "radio (decode b)"
proof -
  let ?b0 = "ce 0 (bus s)" and ?b1 = "snd (SPI_Read d STATUS (ce 0 (bus s)))"
  have q: "quiet ?b0" using rest by (simp add: quiet_def at_rest_def)
  have r: "SPI_Read d STATUS ?b0 = (sta, ?b1)" "payload_point (bus s) = ?b1 @ [CSN 0, Spi [RD_RX_PLOAD]]"
    by (simp_all add: SPI_Read_def spi_read_byte_def spi_write_byte_def spi_rw_def csn_def ce_def sta payload_point_def)
  have c1: "continues ?b0 [[STATUS, 0xCC]] ?b1" by (rule read_continues [OF q])
  have f: "frames ?b1 = frames (bus s) @ [[STATUS, 0xCC]]" using c1 by (simp add: continues_def)
  show thesis
    by (rule RxPacket_after_status [OF continues_quiet [OF q c1] r(1) len]) (rule that; simp add: r(2) f)
qed

section \<open>The channel list\<close>

text \<open>The list as the configuration file documents it: numbers separated by commas.\<close>

fun render_channels :: "nat list \<Rightarrow> string" where
  "render_channels [] = []"
| "render_channels (c # chs) = dec_string c @ (if chs = [] then [] else CHR '','' # render_channels chs)"

lemma parse_digits:
  "list_all isdigit ds \<Longrightarrow> ds \<noteq> [] \<Longrightarrow> 0 \<le> cur \<Longrightarrow> dec_value cur ds \<le> int_max \<Longrightarrow>
    parse_channels (ds @ rest) cur e l = parse_channels rest (dec_value cur ds) False l"
proof (induction ds arbitrary: cur e)
  case Nil
  then show ?case by simp
next
  case (Cons c ds)
  let ?v = "cur * 10 + (ord c - 48)"
  have c: "isdigit c" "0 \<le> ord c - 48" using Cons.prems(1) by (simp_all add: isdigit_def)
  have v: "0 \<le> ?v" "?v \<le> int_max"
    using c Cons.prems(3,4) dec_value_mono [of ?v ds] by auto
  then have "c_int (cur * 10) = Inr (cur * 10)" "c_int ?v = Inr ?v"
    using c Cons.prems(3) by (auto intro!: c_int_ok simp: int_min_def)
  then have step: "parse_channels ((c # ds) @ rest) cur e l = parse_channels (ds @ rest) ?v False l"
    using c by simp
  show ?case
  proof (cases "ds = []")
    case True
    with step c show ?thesis by simp
  next
    case False
    with Cons.IH [OF _ False v(1)] Cons.prems step c show ?thesis by simp
  qed
qed

lemma parse_render:
  "list_all (\<lambda>c. c < CHANNEL_MAX) chs \<Longrightarrow> length (bitmap l) = CHANNEL_MAX \<Longrightarrow>
    parse_channels (render_channels chs) 0 True l =
      Inr (l\<lparr>bitmap := map (\<lambda>i. bitmap l ! i \<or> i \<in> set chs) [0..<CHANNEL_MAX],
        num_channels := num_channels l + int (length chs),
        last_channel := (if chs = [] then last_channel l else int (last chs))\<rparr>)"
proof (induction chs arbitrary: l)
  case Nil
  have "map (\<lambda>i. bitmap l ! i) [0..<CHANNEL_MAX] = bitmap l"
    using Nil.prems(2) by (metis map_nth)
  then show ?case by (simp add: end_of_number_def)
next
  case (Cons c chs)
  have d: "list_all isdigit (dec_string c)" "dec_string c \<noteq> []" "dec_value 0 (dec_string c) = int c"
    using dec_string_digits [of c] by auto
  have c: "int c < int CHANNEL_MAX" "int c \<le> int_max" using Cons.prems(1) by (simp_all add: CHANNEL_MAX_def int_max_def)
  let ?l = "end_of_number (int c) False l"
  have "parse_channels (render_channels (c # chs)) 0 True l =
      parse_channels (if chs = [] then [] else CHR '','' # render_channels chs) (int c) False l"
    using parse_digits [OF d(1,2), of 0 _ True l] d(3) c(2) by simp
  also have "\<dots> = parse_channels (render_channels chs) 0 True ?l"
    by (cases chs) (simp_all add: isdigit_def ord_def end_of_number_def)
  also have "\<dots> = Inr (?l\<lparr>bitmap := map (\<lambda>i. bitmap ?l ! i \<or> i \<in> set chs) [0..<CHANNEL_MAX],
        num_channels := num_channels ?l + int (length chs),
        last_channel := (if chs = [] then last_channel ?l else int (last chs))\<rparr>)"
    using Cons.prems by (intro Cons.IH) (simp_all add: end_of_number_def)
  also have "\<dots> = Inr (l\<lparr>bitmap := map (\<lambda>i. bitmap l ! i \<or> i \<in> set (c # chs)) [0..<CHANNEL_MAX],
        num_channels := num_channels l + int (length (c # chs)),
        last_channel := (if c # chs = [] then last_channel l else int (last (c # chs)))\<rparr>)"
    using c(1) Cons.prems(2) by (auto simp: end_of_number_def nth_list_update)
  finally show ?case .
qed

section \<open>Properties\<close>

text \<open>
  C11: when the initialisation returns, the chip has been told, in this order of effect, the
  channel, payload width, addresses and settings of the configuration; every transfer
  happened with the chip selected and the radio off; the radio is on at the end and the
  addresses in memory are unchanged.
\<close>

theorem init_configures:
  assumes "init_NRF24L01 n d cs station s = Inr s'" "widths_ok s" "at_rest (bus s)"
  shows "at_rest (bus s') \<and> radio (decode (bus s')) \<and>
    RX_ADDRESS s' = RX_ADDRESS s \<and> TX_ADDRESS s' = TX_ADDRESS s \<and>
    map (register (frames (bus s')))
      [RF_CH, RX_PW_P0, RX_ADDR_P0, TX_ADDR, SETUP_AW, EN_AA, EN_RXADDR, SETUP_RETR, RF_SETUP, CONFIG] =
    map Some [[station], [uc (NRFconf cs ''RX_PLOAD_WIDTH'')], RX_ADDRESS s, TX_ADDRESS s,
      [uc (RX_ADR_WIDTH s - 2)], [uc (NRFconf cs ''EN_AA'')], [uc (NRFconf cs ''EN_RXADDR'')],
      [uc (NRFconf cs ''SETUP_RETR'')], [uc (NRFconf cs ''RF_SETUP'')], [uc (NRFconf cs ''CONFIG'')]]"
proof -
  let ?s = "set_up cs station s"
  obtain k b where k: "s' = ?s\<lparr>bus := b\<rparr>" "at_rest b" "radio (decode b)"
    "frames b = frames (bus s) @ concat (replicate (Suc k) (init_frames cs ?s))"
    using init_frames_all [OF assms] by blast
  note r = init_frames_registers [of cs ?s]
  have "register (frames b) a = register (init_frames cs ?s) a" if "register (init_frames cs ?s) a \<noteq> None" for a
    unfolding k(4) by (rule register_passes [OF that])
  with r have "register (frames b) RF_CH = Some [station]" "register (frames b) RX_PW_P0 = Some [uc (NRFconf cs ''RX_PLOAD_WIDTH'')]"
    "register (frames b) RX_ADDR_P0 = Some (RX_ADDRESS s)" "register (frames b) TX_ADDR = Some (TX_ADDRESS s)"
    "register (frames b) SETUP_AW = Some [uc (RX_ADR_WIDTH s - 2)]"
    "register (frames b) EN_AA = Some [uc (NRFconf cs ''EN_AA'')]"
    "register (frames b) EN_RXADDR = Some [uc (NRFconf cs ''EN_RXADDR'')]"
    "register (frames b) SETUP_RETR = Some [uc (NRFconf cs ''SETUP_RETR'')]"
    "register (frames b) RF_SETUP = Some [uc (NRFconf cs ''RF_SETUP'')]"
    "register (frames b) CONFIG = Some [uc (NRFconf cs ''CONFIG'')]"
    by (simp_all add: set_up_def)
  with k(1-3) show ?thesis by (simp add: set_up_def)
qed

text \<open>A chip that reads its configuration register back and has a packet waiting.\<close>

definition test_chip :: dev where
  "test_chip b bs = (if b = [] then bs
     else map (\<lambda>_. if last b = Spi [CONFIG] then 0x0f else if last b = Spi [STATUS] then 0x40 else 7) bs)"

definition test_nrf :: nrf where
  "test_nrf = \<lparr>bus = [], station_R = 0, station_T = 0, current_channel = 50, RX_PLOAD_WIDTH = 0,
     TX_PLOAD_WIDTH = 0, RX_ADR_WIDTH = 3, TX_ADR_WIDTH = 3, RX_ADDRESS = [1, 2, 3], TX_ADDRESS = [1, 2, 3]\<rparr>"

definition test_conf :: conf where
  "test_conf = [(''nrf.CONFIG'', ''0x0f''), (''nrf.RX_PLOAD_WIDTH'', ''9''), (''nrf.channel'', ''50'')]"

theorem init_configures_witness:
  "\<exists>s'. init_NRF24L01 1 test_chip test_conf 50 test_nrf = Inr s' \<and> at_rest (bus s') \<and>
     register (frames (bus s')) RF_CH = Some [50] \<and> register (frames (bus s')) CONFIG = Some [0x0f]"
proof -
  have "map_sum id (\<lambda>_. ()) (init_NRF24L01 1 test_chip test_conf 50 test_nrf) = Inr ()" by code_simp
  then obtain s' where s': "init_NRF24L01 1 test_chip test_conf 50 test_nrf = Inr s'"
    by (cases "init_NRF24L01 1 test_chip test_conf 50 test_nrf") simp_all
  have "widths_ok test_nrf" "at_rest (bus test_nrf)" by (simp_all add: widths_ok_def test_nrf_def)
  moreover have "NRFconf test_conf ''CONFIG'' = 15" by code_simp
  ultimately show ?thesis using init_configures [OF s'] s' by auto
qed



text \<open>
  C14: one read of a packet: the status register is read, the payload is fetched exactly when
  its bit 6 is set and is what the chip returns, the receive queue is flushed and the
  status bits that were seen are written back to clear them, with the radio off until the
  end.
\<close>

theorem RxPacket_reads:
  assumes "at_rest (bus s)" "unat (uc (RX_PLOAD_WIDTH s)) = length rx_buf"
    and "sta = hd (d (bus s @ [CE 0, CSN 0, Spi [STATUS]]) [0xCC])"
  shows "\<exists>b. nRF24L01_RxPacket d rx_buf s = Inr (sta AND 0x40 \<noteq> 0,
      if sta AND 0x40 \<noteq> 0 then d (payload_point (bus s)) rx_buf else rx_buf, s\<lparr>bus := b\<rparr>) \<and>
    frames b = frames (bus s) @ [[STATUS, 0xCC]] @
      (if sta AND 0x40 \<noteq> 0 then [RD_RX_PLOAD # rx_buf] else []) @ [[FLUSH_RX, 0], [WRITE_REG + STATUS, sta]] \<and>
    at_rest b \<and> radio (decode b)"
proof -
  obtain b where "nRF24L01_RxPacket d rx_buf s = Inr (sta AND 0x40 \<noteq> 0,
      if sta AND 0x40 \<noteq> 0 then d (payload_point (bus s)) rx_buf else rx_buf, s\<lparr>bus := b\<rparr>)"
    "frames b = frames (bus s) @ [[STATUS, 0xCC]] @
      (if sta AND 0x40 \<noteq> 0 then [RD_RX_PLOAD # rx_buf] else []) @ [[FLUSH_RX, 0], [WRITE_REG + STATUS, sta]]"
    "at_rest b" "radio (decode b)"
    using RxPacket_result [where d = d and sta = sta, OF assms] by blast
  then show ?thesis by blast
qed

theorem RxPacket_reads_witness:
  "\<exists>b. nRF24L01_RxPacket test_chip [0, 0] (test_nrf\<lparr>RX_PLOAD_WIDTH := 2\<rparr>) =
      Inr (True, [7, 7], test_nrf\<lparr>RX_PLOAD_WIDTH := 2, bus := b\<rparr>) \<and> at_rest b"
proof -
  let ?s = "test_nrf\<lparr>RX_PLOAD_WIDTH := 2\<rparr>"
  have "at_rest (bus ?s)" "unat (uc (RX_PLOAD_WIDTH ?s)) = length [0, 0 :: uchar]"
    by (simp_all add: test_nrf_def)
  moreover have "0x40 = hd (test_chip (bus ?s @ [CE 0, CSN 0, Spi [STATUS]]) [0xCC])"
    by (simp add: test_chip_def)
  ultimately show ?thesis
    using RxPacket_reads [of ?s "[0, 0]" "0x40" test_chip] by (auto simp: test_chip_def payload_point_def)
qed

text \<open>
  C13: between the rounds of the channel thread, once a round has found a channel, the radio is
  tuned to \<open>current_channel\<close>, the byte put in front of every packet, and the bus has been
  used in order throughout.
\<close>

theorem channel_round_tuned:
  assumes "channel_round n d cs w s = Inr (w', s')" "switcher_ok w s"
  shows "switcher_ok w' s' \<and> (prev_num w' \<noteq> 0 \<longrightarrow>
    register (frames (bus s')) RF_CH = Some [current_channel s'] \<and> at_rest (bus s'))"
  using channel_round_ok [OF assms] by (simp add: switcher_ok_def tuned_def driver_ok_def)

theorem channel_round_tuned_witness:
  "\<exists>s'. channel_round 1 test_chip test_conf init_switcher test_nrf = Inr (\<lparr>prev_num = 1, prev_last = 50\<rparr>, s') \<and>
     register (frames (bus s')) RF_CH = Some [current_channel s']"
proof -
  have "map_sum id fst (channel_round 1 test_chip test_conf init_switcher test_nrf) =
      Inr \<lparr>prev_num = 1, prev_last = 50\<rparr>" by code_simp
  then obtain s' where s': "channel_round 1 test_chip test_conf init_switcher test_nrf = Inr (\<lparr>prev_num = 1, prev_last = 50\<rparr>, s')"
    by (cases "channel_round 1 test_chip test_conf init_switcher test_nrf") auto
  have "switcher_ok init_switcher test_nrf"
    by (simp add: switcher_ok_def init_switcher_def driver_ok_def widths_ok_def test_nrf_def)
  from channel_round_tuned [OF s' this] s' show ?thesis by auto
qed

text \<open>
  C32: the list of channels of the configuration is read as it is written: the channels named
  are the bits set, and the number and the last of them are what the thread remembers.
\<close>

theorem parse_channels_render:
  assumes "list_all (\<lambda>c. c < CHANNEL_MAX) chs"
  shows "parse_channels (render_channels chs) 0 True no_channels =
    Inr \<lparr>bitmap = map (\<lambda>i. i \<in> set chs) [0..<CHANNEL_MAX], num_channels = int (length chs),
      last_channel = (if chs = [] then - 1 else int (last chs))\<rparr>"
proof -
  have "length (bitmap no_channels) = CHANNEL_MAX" by (simp add: no_channels_def)
  from parse_render [OF assms this] show ?thesis
    by (simp add: no_channels_def cong: map_cong)
qed

theorem parse_channels_render_witness:
  "map_sum id (\<lambda>l. (num_channels l, last_channel l, bitmap l ! 7)) (parse_channels ''50,7'' 0 True no_channels) =
    Inr (2, 7, True)"
proof -
  have r: "render_channels [50, 7] = ''50,7''" by code_simp
  have "list_all (\<lambda>c. c < CHANNEL_MAX) [50, 7]" by (simp add: CHANNEL_MAX_def)
  from parse_channels_render [OF this] show ?thesis unfolding r by (simp del: parse_channels.simps add: CHANNEL_MAX_def)
qed

text \<open>
  With a single channel that stays the same, a round of the endless loop neither touches
  the bus nor sleeps: the thread spins.
\<close>

theorem single_channel_spins:
  assumes "get_config cs ''nrf.channel'' = render_channels [c]" "c < CHANNEL_MAX"
  shows "channel_round n d cs \<lparr>prev_num = 1, prev_last = int c\<rparr> s =
    Inr (\<lparr>prev_num = 1, prev_last = int c\<rparr>, s)"
proof -
  have "length (bitmap no_channels) = CHANNEL_MAX" by (simp add: no_channels_def)
  with parse_render [of "[c]" no_channels] assms show ?thesis
    by (simp add: channel_round_def no_channels_def)
qed

theorem single_channel_spins_witness:
  "channel_round 1 test_chip test_conf \<lparr>prev_num = 1, prev_last = 50\<rparr> test_nrf =
    Inr (\<lparr>prev_num = 1, prev_last = 50\<rparr>, test_nrf)"
proof -
  have "get_config test_conf ''nrf.channel'' = render_channels [50]" by code_simp
  from single_channel_spins [OF this, of 1] show ?thesis by (simp add: CHANNEL_MAX_def)
qed

end
