(* ===== verification/Http.thy ===== *)
theory Http
  imports Config Hex
begin

text \<open>
  \<open>urlencode\<close> and \<open>http_post\<close> of \<open>common/http.c\<close>, with \<open>cloud_send\<close> and
  \<open>report_it_now\<close> of \<open>common/common.c\<close> that sit on them. The encoder is shown to be inverted by the
  decoder of the form encoding, the bodies to be complete within the buffer sizes, and the
  response loop to return the payload of a well-behaved server; two of its bad cases are
  stated as theorems. The kernel, the clock and the server are the environment record.
\<close>

section \<open>The form encoding\<close>

text \<open>
  The value of a plain \<open>char\<close>: \<open>schar\<close> tells whether the compiler takes it as signed. It is
  unsigned on ARM, for which the program is built, and signed on x86.
\<close>

definition char_val :: "bool \<Rightarrow> char \<Rightarrow> int" where
  "char_val schar c = (if schar \<and> ord c \<ge> 128 then ord c - 256 else ord c)"

definition hexchars :: string where
  "hexchars = ''0123456789abcdef'' @ [NUL]"

definition hexchar_at :: "int \<Rightarrow> char res" where
  "hexchar_at i = (if 0 \<le> i \<and> i < int (length hexchars) then Inr (hexchars ! nat i) else Inl Out_Of_Bounds)"

definition url_plain :: "int \<Rightarrow> bool" where
  "url_plain v \<longleftrightarrow> (ord CHR ''a'' \<le> v \<and> v \<le> ord CHR ''z'') \<or> (ord CHR ''A'' \<le> v \<and> v \<le> ord CHR ''Z'') \<or>
     (ord CHR ''0'' \<le> v \<and> v \<le> ord CHR ''9'') \<or> v = ord CHR ''.'' \<or> v = ord CHR ''-'' \<or>
     v = ord CHR ''*'' \<or> v = ord CHR ''_''"

fun urlencode :: "bool \<Rightarrow> string \<Rightarrow> string res" where
  "urlencode schar [] = Inr []"
| "urlencode schar (c # msg) =
     (let v = char_val schar c in
      if url_plain v then bindR (urlencode schar msg) (\<lambda>e. Inr (c # e))
      else bindR (hexchar_at (drop_bit 4 v)) (\<lambda>hi. bindR (hexchar_at (v AND 15)) (\<lambda>lo.
        bindR (urlencode schar msg) (\<lambda>e. Inr (CHR ''%'' # hi # lo # e)))))"

text \<open>The server's side of the encoding.\<close>

fun urldecode :: "string \<Rightarrow> string option" where
  "urldecode [] = Some []"
| "urldecode (c # s) =
     (if c = CHR ''%'' then
        (case s of hi # lo # s' \<Rightarrow>
             (if hex2int hi = - 1 \<or> hex2int lo = - 1 then None
              else map_option (Cons (char_of (16 * hex2int hi + hex2int lo))) (urldecode s'))
         | _ \<Rightarrow> None)
      else map_option (Cons c) (urldecode s))"

definition url_safe :: "char \<Rightarrow> bool" where
  "url_safe c \<longleftrightarrow> url_plain (ord c) \<or> c = CHR ''%''"

definition encodable :: "bool \<Rightarrow> char \<Rightarrow> bool" where
  "encodable schar c \<longleftrightarrow> \<not> schar \<or> ord c < 128"

lemma char_val_encodable: "encodable schar c \<Longrightarrow> char_val schar c = ord c"
  by (auto simp: encodable_def char_val_def)

lemma hexchar_at_negative: "i < 0 \<Longrightarrow> hexchar_at i = Inl Out_Of_Bounds"
  by (simp add: hexchar_at_def)

lemma hexchar_at_digit: "0 \<le> n \<Longrightarrow> n < 16 \<Longrightarrow> hexchar_at n = Inr (tohexchar n)"
proof -
  assume "0 \<le> n" "n < 16"
  then have "n \<in> set [0, 1, 2, 3, 4, 5, 6, 7, 8, 9, 10, 11, 12, 13, 14, 15 :: int]"
    by (simp, presburger)
  moreover have "\<forall>n\<in>set [0, 1, 2, 3, 4, 5, 6, 7, 8, 9, 10, 11, 12, 13, 14, 15 :: int].
     hexchar_at n = Inr (tohexchar n)" by code_simp
  ultimately show ?thesis by blast
qed

lemma drop_bit_ord: "drop_bit 4 (ord c) = ord c div 16" "ord c AND 15 = ord c mod 16"
proof -
  show "drop_bit 4 (ord c) = ord c div 16" by (simp add: drop_bit_eq_div)
  have "ord c AND 15 = take_bit 4 (ord c)" by (simp add: take_bit_eq_mask mask_eq_exp_minus_1)
  then show "ord c AND 15 = ord c mod 16" by (simp add: take_bit_eq_mod)
qed

lemma hexdigits_of_char:
  "hexchar_at (ord c div 16) = Inr (tohexchar (ord c div 16))"
  "hexchar_at (ord c mod 16) = Inr (tohexchar (ord c mod 16))"
  "hex2int (tohexchar (ord c div 16)) = ord c div 16"
  "hex2int (tohexchar (ord c mod 16)) = ord c mod 16"
proof -
  have b: "0 \<le> ord c div 16" "ord c div 16 < 16" "0 \<le> ord c mod 16" "ord c mod 16 < 16"
    using ord_bounds [of c] by (linarith, linarith, simp_all)
  show "hexchar_at (ord c div 16) = Inr (tohexchar (ord c div 16))"
    "hexchar_at (ord c mod 16) = Inr (tohexchar (ord c mod 16))"
    "hex2int (tohexchar (ord c div 16)) = ord c div 16"
    "hex2int (tohexchar (ord c mod 16)) = ord c mod 16"
    using b by (simp_all add: hexchar_at_digit hex2int_tohexchar)
qed

lemma tohexchar_plain: "0 \<le> n \<Longrightarrow> n < 16 \<Longrightarrow> url_safe (tohexchar n)"
  using tohexchar_range [of n] by (auto simp: url_safe_def url_plain_def ord_def)

lemma url_plain_percent: "\<not> url_plain (ord CHR ''%'')"
  by code_simp

lemma urlencode_ok:
  "list_all (encodable schar) s \<Longrightarrow> \<exists>e. urlencode schar s = Inr e \<and> urldecode e = Some s \<and>
     length e \<le> 3 * length s \<and> list_all url_safe e"
proof (induction s)
  case Nil
  then show ?case by simp
next
  case (Cons c s)
  then obtain e where e: "urlencode schar s = Inr e" "urldecode e = Some s" "length e \<le> 3 * length s"
    "list_all url_safe e" by auto
  have v: "char_val schar c = ord c" using Cons.prems by (intro char_val_encodable) simp
  show ?case
  proof (cases "url_plain (ord c)")
    case True
    then have "c \<noteq> CHR ''%''" "url_safe c" using url_plain_percent by (auto simp: url_safe_def)
    with True e v show ?thesis by simp
  next
    case False
    have "char_of (16 * (ord c div 16) + ord c mod 16) = c"
      by (simp only: mult_div_mod_eq char_of_ord)
    moreover have "url_safe (tohexchar (ord c div 16))" "url_safe (tohexchar (ord c mod 16))"
      using ord_bounds [of c] by (auto intro!: tohexchar_plain, linarith+)
    moreover have "ord c div 16 \<noteq> - 1" "ord c mod 16 \<noteq> - 1"
      using ord_bounds(1) [of c] pos_mod_sign [of 16 "ord c"] by linarith+
    moreover have "url_safe (CHR ''%'')" by (simp add: url_safe_def)
    moreover have "urlencode schar (c # s) =
        Inr (CHR ''%'' # tohexchar (ord c div 16) # tohexchar (ord c mod 16) # e)"
      using False e(1) v by (simp add: drop_bit_ord hexdigits_of_char Let_def)
    ultimately show ?thesis using e by (simp add: hexdigits_of_char)
  qed
qed

lemma urlencode_negative:
  "\<not> list_all (encodable schar) s \<Longrightarrow> urlencode schar s = Inl Out_Of_Bounds"
proof (induction s)
  case Nil
  then show ?case by simp
next
  case (Cons c s)
  show ?case
  proof (cases "encodable schar c")
    case True
    then have v: "char_val schar c = ord c" and IH: "urlencode schar s = Inl Out_Of_Bounds"
      using Cons char_val_encodable by auto
    then show ?thesis by (simp add: Let_def drop_bit_ord hexdigits_of_char)
  next
    case False
    then have v: "char_val schar c = ord c - 256" "ord c - 256 < 0"
      by (auto simp: encodable_def char_val_def)
    have "\<not> url_plain (ord c - 256)" using v(2) by (auto simp: url_plain_def ord_def)
    moreover have "drop_bit 4 (ord c - 256) < 0" using v(2) by (simp only: drop_bit_negative_int_iff)
    then have "hexchar_at (drop_bit 4 (ord c - 256)) = Inl Out_Of_Bounds" by (rule hexchar_at_negative)
    ultimately show ?thesis using v(1) by (simp add: Let_def)
  qed
qed

definition url_parse :: "string res \<Rightarrow> string option" where
  "url_parse r = (case r of Inl e \<Rightarrow> None | Inr s \<Rightarrow> urldecode s)"

interpretation url: codec "urlencode schar" url_parse "list_all (encodable schar)" for schar
proof unfold_locales
  fix x assume "list_all (encodable schar) x"
  from urlencode_ok [OF this] show "url_parse (urlencode schar x) = Some x" by (auto simp: url_parse_def)
qed

section \<open>A request and its response\<close>

definition MAX_HEADERS_LENGTH :: nat where "MAX_HEADERS_LENGTH = 300"

text \<open>\<open>snprintf(buf, n, ..)\<close>: the string left in \<open>buf\<close>.\<close>

definition snprintf :: "nat \<Rightarrow> string \<Rightarrow> string" where
  "snprintf n s = take (n - 1) s"

definition CRLF :: string where "CRLF = [CR, NL]"

definition http_request :: "conf \<Rightarrow> string \<Rightarrow> string \<Rightarrow> string \<Rightarrow> string" where
  "http_request cs remote_host remote_path body =
     snprintf (length body + MAX_HEADERS_LENGTH)
       (''POST '' @ remote_path @ '' HTTP/1.1'' @ CRLF @
        ''Host: '' @ remote_host @ CRLF @
        ''User-Agent: '' @ get_config cs ''http.user_agent'' @ CRLF @
        ''Connection: close'' @ CRLF @
        ''Content-Length: '' @ dec_string (length body) @ CRLF @
        ''Content-Type: application/x-www-form-urlencoded'' @ CRLF @
        CRLF @ body)"

text \<open>
  The environment of one request: the results of the calls that set the connection up, the
  number of bytes \<open>send\<close> reports, and what each round of the receive loop finds, the clock
  and the outcome of \<open>recv\<close>. An arrival of no bytes is the end of the connection; a
  timeout of the socket is an error.
\<close>

datatype http_event = Got string | Intr | Failed

record http_env =
  env_start :: uint32
  env_socket :: int
  env_rcvtimeo :: bool
  env_sndtimeo :: bool
  env_resolved :: bool
  env_connected :: bool
  env_sent :: int
  env_events :: "(uint32 \<times> http_event) list"

definition BUF_SIZE :: nat where "BUF_SIZE = 4096"

text \<open>\<open>recv\<close> into \<open>buf\<close> overwrites its beginning only.\<close>

definition recv_into :: "string \<Rightarrow> string \<Rightarrow> string" where
  "recv_into bs buf = bs @ drop (length bs) buf"

text \<open>
  \<open>strstr(buf, ..)\<close> on the array: what follows the first NUL is not seen, and without a NUL
  an unsuccessful search leaves the array.
\<close>

definition buf_strstr :: "string \<Rightarrow> string \<Rightarrow> nat option res" where
  "buf_strstr buf needle =
     (case strstr (cstr buf) needle of
        Some i \<Rightarrow> Inr (Some i)
      | None \<Rightarrow> if NUL \<in> set buf then Inr None else Inl Out_Of_Bounds)"

text \<open>
  One arrival that is not in the payload yet: the new \<open>isok\<close>, and \<open>*recvbuf\<close> once the
  empty line is found. \<open>safe_malloc\<close> of a negative size fails and exits.
\<close>

definition find_payload :: "nat \<Rightarrow> string \<Rightarrow> bool \<Rightarrow> (bool \<times> string option) res" where
  "find_payload recvbytes buf isok =
     bindR (if isok then Inr True
            else bindR (buf_strstr buf (''200 OK'' @ CRLF)) (\<lambda>okpos. Inr (okpos \<noteq> None))) (\<lambda>ok.
     if \<not> ok then Inr (False, None)
     else bindR (buf_strstr buf (CRLF @ CRLF)) (\<lambda>pos.
       case pos of
         None \<Rightarrow> Inr (True, None)
       | Some i \<Rightarrow>
           let payload = i + 4; newbytes = int recvbytes - int payload in
           if newbytes < 0 then Inl Exited
           else Inr (True, Some (take (nat newbytes) (drop payload buf)))))"

text \<open>
  The receive loop. \<open>got\<close> is \<open>*recvbuf\<close>, set exactly when \<open>in_payload\<close> is, and
  \<open>totalbytes\<close> its size. \<open>time(NULL)\<close> is read before each \<open>recv\<close>; the comparison is
  unsigned.
\<close>

fun recv_response ::
  "uint32 \<Rightarrow> uint32 \<Rightarrow> (uint32 \<times> http_event) list \<Rightarrow> string \<Rightarrow> bool \<Rightarrow> int \<Rightarrow> string option \<Rightarrow>
   (int \<times> string option) res" where
  "recv_response start_time timeout [] buf isok totalbytes got = Inl No_Return"
| "recv_response start_time timeout ((curr_time, ev) # evs) buf isok totalbytes got =
     (if curr_time - start_time > timeout then Inr (totalbytes, got)
      else case ev of
        Intr \<Rightarrow> recv_response start_time timeout evs buf isok totalbytes got
      | Failed \<Rightarrow> Inr (totalbytes, got)
      | Got bs \<Rightarrow>
          (let chunk = take BUF_SIZE bs; buf1 = recv_into chunk buf in
           if chunk = [] then Inr (totalbytes, got)
           else case got of
             Some data \<Rightarrow>
               bindR (c_int (totalbytes + int (length chunk))) (\<lambda>n.
                 recv_response start_time timeout evs buf1 isok n (Some (data @ chunk)))
           | None \<Rightarrow>
               bindR (find_payload (length chunk) buf1 isok) (\<lambda>(ok, payload).
                 recv_response start_time timeout evs buf1 ok
                   (case payload of None \<Rightarrow> totalbytes | Some d \<Rightarrow> int (length d)) payload)))"

text \<open>The return value, and \<open>*recvbuf\<close> if it was set.\<close>

definition http_post :: "conf \<Rightarrow> http_env \<Rightarrow> string \<Rightarrow> string \<Rightarrow> string \<Rightarrow> (int \<times> string option) res" where
  "http_post cs env remote_host remote_path body =
     (if env_socket env = - 1 then Inr (0, None)
      else if \<not> env_rcvtimeo env then Inr (0, None)
      else if \<not> env_sndtimeo env then Inr (0, None)
      else if \<not> env_resolved env then Inr (0, None)
      else if \<not> env_connected env then Inr (0, None)
      else if env_sent env < int (length (http_request cs remote_host remote_path body)) then Inr (0, None)
      else recv_response (env_start env) (word_of_int (config_int cs ''http.timeout''))
             (env_events env) (replicate BUF_SIZE NUL) False 0 None)"

section \<open>\<open>cloud_send\<close> and \<open>report_it_now\<close>\<close>

definition cloud_body :: "conf \<Rightarrow> string \<Rightarrow> string" where
  "cloud_body cs encoded =
     snprintf (length encoded + MAX_HEADERS_LENGTH)
       (''token='' @ get_config cs ''cloud.access_token'' @ ''&data='' @ encoded)"

text \<open>The return value, and \<open>*recvstr\<close> if it was set.\<close>

definition cloud_send :: "bool \<Rightarrow> conf \<Rightarrow> http_env \<Rightarrow> string \<Rightarrow> string \<Rightarrow> (int \<times> string option) res" where
  "cloud_send schar cs env remote_path buf =
     bindR (urlencode schar buf) (\<lambda>encoded.
     bindR (http_post cs env (get_config cs ''cloud.remote_host'') remote_path (cloud_body cs encoded))
       (\<lambda>(len, recvbuf). Inr (len, if len \<ge> 0 then recvbuf else None)))"

definition MSG_MAXLEN :: nat where "MSG_MAXLEN = 1024"

text \<open>
  \<open>msg\<close> is the formatted text. The header redefines \<open>bool\<close> as \<open>unsigned char\<close>, so the
  returned flag is the byte count modulo 256.
\<close>

definition report_it_now :: "bool \<Rightarrow> conf \<Rightarrow> http_env \<Rightarrow> string \<Rightarrow> uchar res" where
  "report_it_now schar cs env msg =
     bindR (cloud_send schar cs env (get_config cs ''paths.reportitnow'') (snprintf MSG_MAXLEN msg))
       (\<lambda>(flag, _). Inr (word_of_int flag))"

section \<open>What a well-behaved server is answered with\<close>

definition http_text :: "conf \<Rightarrow> string \<Rightarrow> string \<Rightarrow> string \<Rightarrow> string" where
  "http_text cs remote_host remote_path body =
     ''POST '' @ remote_path @ '' HTTP/1.1'' @ CRLF @
     ''Host: '' @ remote_host @ CRLF @
     ''User-Agent: '' @ get_config cs ''http.user_agent'' @ CRLF @
     ''Connection: close'' @ CRLF @
     ''Content-Length: '' @ dec_string (length body) @ CRLF @
     ''Content-Type: application/x-www-form-urlencoded'' @ CRLF @
     CRLF @ body"

lemma CRLF_nonempty [simp]: "CRLF \<noteq> []"
  by (simp add: CRLF_def)

lemma snprintf_complete: "snprintf n s = s \<longleftrightarrow> length s \<le> n - 1"
  by (simp add: snprintf_def)

lemma length_http_text:
  "length (http_text cs host path body) = 126 + length path + length host +
     length (get_config cs ''http.user_agent'') + length (dec_string (length body)) + length body"
  by (simp add: http_text_def CRLF_def)

lemma http_request_text:
  "http_request cs host path body = snprintf (length body + MAX_HEADERS_LENGTH) (http_text cs host path body)"
  by (simp add: http_request_def http_text_def)

text \<open>
  A response in its arrivals: a header with the line \<open>200 OK\<close> and its empty line in the
  first one, the end of the connection last, the clock within the limit.
\<close>

definition in_time :: "uint32 \<Rightarrow> uint32 \<Rightarrow> uint32 \<times> 'a \<Rightarrow> bool" where
  "in_time start_time timeout e \<longleftrightarrow> fst e - start_time \<le> timeout"

fun arrival :: "uint32 \<times> string \<Rightarrow> uint32 \<times> http_event" where
  "arrival (t, b) = (t, Got b)"

definition chunk_ok :: "string \<Rightarrow> bool" where
  "chunk_ok b \<longleftrightarrow> b \<noteq> [] \<and> length b \<le> BUF_SIZE"

definition header_ok :: "string \<Rightarrow> bool" where
  "header_ok hdr \<longleftrightarrow> NUL \<notin> set hdr \<and> strstr (hdr @ CRLF @ CRLF) (''200 OK'' @ CRLF) \<noteq> None \<and>
     strstr (hdr @ CRLF @ CRLF) (CRLF @ CRLF) = Some (length hdr)"

lemma find_payload_ok:
  assumes "header_ok hdr" "recvbytes = length (hdr @ CRLF @ CRLF @ b0)"
  shows "find_payload recvbytes (hdr @ CRLF @ CRLF @ b0 @ z) False = Inr (True, Some b0)"
proof -
  have nul: "NUL \<notin> set (hdr @ CRLF @ CRLF)" using assms(1) by (simp add: header_ok_def CRLF_def)
  have c: "cstr (hdr @ CRLF @ CRLF @ b0 @ z) = (hdr @ CRLF @ CRLF) @ cstr (b0 @ z)"
    using cstr_append [OF nul, of "b0 @ z"] by simp
  obtain i where i: "strstr (hdr @ CRLF @ CRLF) (''200 OK'' @ CRLF) = Some i"
    "strstr (hdr @ CRLF @ CRLF) (CRLF @ CRLF) = Some (length hdr)"
    using assms(1) by (auto simp: header_ok_def)
  have "buf_strstr (hdr @ CRLF @ CRLF @ b0 @ z) (''200 OK'' @ CRLF) = Inr (Some i)"
    "buf_strstr (hdr @ CRLF @ CRLF @ b0 @ z) (CRLF @ CRLF) = Inr (Some (length hdr))"
    unfolding buf_strstr_def c i [THEN strstr_append] by simp_all
  then show ?thesis using assms(2) by (simp add: find_payload_def Let_def CRLF_def)
qed

lemma recv_response_body:
  "list_all (in_time t0 limit) evs \<Longrightarrow> list_all (chunk_ok \<circ> snd) bs \<Longrightarrow> evs = map (arrival) bs @ [(t, Got [])] \<Longrightarrow>
    int (length data) + int (length (concat (map snd bs))) \<le> int_max \<Longrightarrow>
    recv_response t0 limit evs buf ok (int (length data)) (Some data) =
      Inr (int (length (data @ concat (map snd bs))), Some (data @ concat (map snd bs)))"
proof (induction bs arbitrary: evs buf data)
  case Nil
  then show ?case by (simp add: in_time_def not_less)
next
  case (Cons b bs)
  obtain tb c where b: "b = (tb, c)" by (cases b)
  let ?evs = "map (arrival) bs @ [(t, Got [])]"
  have evs: "evs = (tb, Got c) # ?evs" using Cons.prems(3) b by simp
  have c: "c \<noteq> []" "take BUF_SIZE c = c" using Cons.prems(2) b by (auto simp: chunk_ok_def)
  have t: "\<not> tb - t0 > limit" using Cons.prems(1) evs by (simp add: in_time_def not_less)
  have n: "c_int (int (length data) + int (length c)) = Inr (int (length (data @ c)))"
    using Cons.prems(4) b by (simp add: c_int_def int_min_def int_max_def)
  have ih: "recv_response t0 limit ?evs (recv_into c buf) ok (int (length (data @ c))) (Some (data @ c)) =
      Inr (int (length ((data @ c) @ concat (map snd bs))), Some ((data @ c) @ concat (map snd bs)))"
    using Cons.prems b by (intro Cons.IH) (simp_all add: evs)
  have "recv_response t0 limit evs buf ok (int (length data)) (Some data) =
      recv_response t0 limit ?evs (recv_into c buf) ok (int (length (data @ c))) (Some (data @ c))"
    unfolding evs using t c n by (simp add: Let_def)
  then show ?case unfolding ih using b by simp
qed

lemma recv_response_ok:
  assumes "header_ok hdr" "chunk_ok (hdr @ CRLF @ CRLF @ b0)" "list_all (chunk_ok \<circ> snd) bs"
    "list_all (in_time t0 limit) ((t1, Got (hdr @ CRLF @ CRLF @ b0)) # map (arrival) bs @ [(t2, Got [])])"
    "int (length (b0 @ concat (map snd bs))) \<le> int_max"
  shows "recv_response t0 limit ((t1, Got (hdr @ CRLF @ CRLF @ b0)) # map (arrival) bs @ [(t2, Got [])])
      (replicate BUF_SIZE NUL) False 0 None =
    Inr (int (length (b0 @ concat (map snd bs))), Some (b0 @ concat (map snd bs)))"
proof -
  let ?c = "hdr @ CRLF @ CRLF @ b0" and ?evs = "map (arrival) bs @ [(t2, Got [])]"
  have c: "take BUF_SIZE ?c = ?c" "?c \<noteq> []" using assms(2) by (auto simp: chunk_ok_def)
  have t: "\<not> t1 - t0 > limit" using assms(4) by (simp add: in_time_def not_less)
  have r: "recv_into ?c (replicate BUF_SIZE NUL) = hdr @ CRLF @ CRLF @ b0 @ replicate (BUF_SIZE - length ?c) NUL"
    by (simp add: recv_into_def)
  note f = find_payload_ok [OF assms(1) refl, of b0]
  have "recv_response t0 limit ((t1, Got ?c) # ?evs) (replicate BUF_SIZE NUL) False 0 None =
      recv_response t0 limit ?evs (recv_into ?c (replicate BUF_SIZE NUL)) True (int (length b0)) (Some b0)"
    unfolding recv_response.simps Let_def http_event.case c(1) r using t c(2) f by simp
  also have "\<dots> = Inr (int (length (b0 @ concat (map snd bs))), Some (b0 @ concat (map snd bs)))"
    using assms(3,4,5) by (intro recv_response_body) simp_all
  finally show ?thesis .
qed

lemma recv_response_size:
  "recv_response t0 limit evs buf ok n got = Inr (n', got') \<Longrightarrow>
    n = (case got of None \<Rightarrow> 0 | Some d \<Rightarrow> int (length d)) \<Longrightarrow>
    n' = (case got' of None \<Rightarrow> 0 | Some d \<Rightarrow> int (length d))"
proof (induction t0 limit evs buf ok n got rule: recv_response.induct)
  case (1 t0 limit buf isok n got)
  then show ?case by simp
next
  case (2 t0 limit t ev evs buf isok n got)
  show ?case
  proof (cases "t - t0 > limit")
    case True
    with "2.prems"(1) have "n' = n" "got' = got" by simp_all
    with "2.prems"(2) show ?thesis by simp
  next
    case in_time: False
    show ?thesis
    proof (cases ev)
      case (Got bs)
      show ?thesis
      proof (cases "take BUF_SIZE bs = []")
        case True
        with "2.prems"(1) Got in_time have "n' = n" "got' = got" by (simp_all add: Let_def)
        with "2.prems"(2) show ?thesis by simp
      next
        case chunk: False
        show ?thesis
        proof (cases got)
          case (Some d)
          with "2.prems" Got in_time chunk have
            "c_int (n + int (length (take BUF_SIZE bs))) = Inr (n + int (length (take BUF_SIZE bs)))"
            "recv_response t0 limit evs (recv_into (take BUF_SIZE bs) buf) isok
               (n + int (length (take BUF_SIZE bs))) (Some (d @ take BUF_SIZE bs)) = Inr (n', got')"
            by (auto simp: Let_def c_int_Inr_iff)
          then show ?thesis
            using "2.IH"(2) [OF in_time Got refl refl chunk Some] "2.prems"(2) Some by simp
        next
          case None
          with "2.prems" Got in_time chunk obtain ok payload where
            f: "find_payload (length (take BUF_SIZE bs)) (recv_into (take BUF_SIZE bs) buf) isok = Inr (ok, payload)"
            "recv_response t0 limit evs (recv_into (take BUF_SIZE bs) buf) ok
               (case payload of None \<Rightarrow> n | Some d \<Rightarrow> int (length d)) payload = Inr (n', got')"
            by (auto simp: Let_def)
          show ?thesis
            by (rule "2.IH"(1) [OF in_time Got refl refl chunk None f(2)])
              (use "2.prems"(2) None in \<open>simp split: option.split\<close>)
        qed
      qed
    qed (use 2 in_time in auto)
  qed
qed

lemma http_post_size:
  assumes "http_post cs env host path body = Inr (n, got)"
  shows "n = (case got of None \<Rightarrow> 0 | Some d \<Rightarrow> int (length d))"
proof (cases "env_socket env = - 1 \<or> \<not> env_rcvtimeo env \<or> \<not> env_sndtimeo env \<or> \<not> env_resolved env \<or>
    \<not> env_connected env \<or> env_sent env < int (length (http_request cs host path body))")
  case True
  then have "http_post cs env host path body = Inr (0, None)" by (auto simp: http_post_def)
  with assms show ?thesis by simp
next
  case False
  with assms have "recv_response (env_start env) (word_of_int (config_int cs ''http.timeout''))
       (env_events env) (replicate BUF_SIZE NUL) False 0 None = Inr (n, got)"
    by (simp add: http_post_def)
  from recv_response_size [OF this] show ?thesis by simp
qed

text \<open>What \<open>cloud_send\<close> puts on the wire.\<close>

definition cloud_request :: "bool \<Rightarrow> conf \<Rightarrow> string \<Rightarrow> string \<Rightarrow> string res" where
  "cloud_request schar cs remote_path buf =
     bindR (urlencode schar buf) (\<lambda>encoded.
       Inr (http_request cs (get_config cs ''cloud.remote_host'') remote_path (cloud_body cs encoded)))"

lemma cloud_body_complete:
  "length (get_config cs ''cloud.access_token'') \<le> 287 \<Longrightarrow>
    cloud_body cs e = ''token='' @ get_config cs ''cloud.access_token'' @ ''&data='' @ e"
  unfolding cloud_body_def snprintf_complete by (simp add: MAX_HEADERS_LENGTH_def)

section \<open>Properties\<close>

text \<open>
  C24: \<open>urlencode\<close> produces only characters allowed in a form body, fits the \<open>3 * strlen + 1\<close>
  bytes it allocates and is undone by the decoder, for every string when plain \<open>char\<close> is
  unsigned; where it is signed, a byte from 128 on indexes \<open>hexchars\<close> with a negative
  number.
\<close>

theorem urlencode_correct:
  "if list_all (encodable schar) s
   then \<exists>e. urlencode schar s = Inr e \<and> urldecode e = Some s \<and> length e \<le> 3 * length s \<and> list_all url_safe e
   else urlencode schar s = Inl Out_Of_Bounds"
  using urlencode_ok urlencode_negative by auto

text \<open>
  C38: the request buffer of \<open>http_post\<close> holds the whole request exactly when path, host, user
  agent and the digits of the length take at most 173 characters; beyond that the end of
  the body is cut off while \<open>Content-Length\<close> still announces all of it.
\<close>

theorem http_request_complete:
  "http_request cs host path body = http_text cs host path body \<longleftrightarrow>
     length path + length host + length (get_config cs ''http.user_agent'') +
       length (dec_string (length body)) \<le> 173"
  unfolding http_request_text snprintf_complete length_http_text
  by (auto simp: MAX_HEADERS_LENGTH_def)

text \<open>
  C25: with a token of at most 287 characters and at most 163 characters of path, host and user
  agent, the request \<open>cloud_send\<close> sends ends in an empty line and a form whose \<open>data\<close>
  field decodes to the given string.
\<close>

theorem cloud_request_delivers:
  assumes "list_all (encodable schar) buf"
    and "length (get_config cs ''cloud.access_token'') \<le> 287" "3 * length buf + 299 < 10 ^ 10"
    and "length path + length (get_config cs ''cloud.remote_host'') +
      length (get_config cs ''http.user_agent'') \<le> 163"
  shows "\<exists>hdr e. cloud_request schar cs path buf =
      Inr (hdr @ CRLF @ CRLF @ ''token='' @ get_config cs ''cloud.access_token'' @ ''&data='' @ e) \<and>
    urldecode e = Some buf"
proof -
  obtain e where e: "urlencode schar buf = Inr e" "urldecode e = Some buf" "length e \<le> 3 * length buf"
    using urlencode_ok [OF assms(1)] by blast
  let ?body = "cloud_body cs e"
  have b: "?body = ''token='' @ get_config cs ''cloud.access_token'' @ ''&data='' @ e"
    by (rule cloud_body_complete [OF assms(2)])
  have "length ?body < 10 ^ 10" using e(3) assms(2,3) by (simp add: b)
  then have "length (dec_string (length ?body)) \<le> 10" by (intro length_dec_string) simp_all
  then have "http_request cs (get_config cs ''cloud.remote_host'') path ?body =
      http_text cs (get_config cs ''cloud.remote_host'') path ?body"
    using assms(4) unfolding http_request_text snprintf_complete length_http_text
    by (simp add: MAX_HEADERS_LENGTH_def)
  then have "cloud_request schar cs path buf =
      Inr (http_text cs (get_config cs ''cloud.remote_host'') path ?body)"
    using e(1) by (simp add: cloud_request_def)
  moreover have "\<exists>hdr. http_text cs (get_config cs ''cloud.remote_host'') path ?body = hdr @ CRLF @ CRLF @ ?body"
    by (intro exI) (simp only: http_text_def append_assoc [symmetric])
  ultimately show ?thesis unfolding b using e(2) by auto
qed

theorem cloud_request_delivers_witness:
  "\<exists>hdr e. cloud_request False [(''cloud.access_token'', ''t'')] ''/p'' ''051.'' =
      Inr (hdr @ CRLF @ CRLF @ ''token=t&data='' @ e) \<and> urldecode e = Some ''051.''"
  using cloud_request_delivers [of False "''051.''" "[(''cloud.access_token'', ''t'')]" "''/p''"]
  by (simp add: encodable_def)

text \<open>
  C26: \<open>http_post\<close> returns the payload of a server that answers \<open>200 OK\<close> with its header in
  the first arrival, however the rest is cut into arrivals.
\<close>

theorem http_post_payload:
  assumes "env_socket env \<noteq> - 1" "env_rcvtimeo env" "env_sndtimeo env" "env_resolved env" "env_connected env"
    and "int (length (http_request cs host path body)) \<le> env_sent env"
    and "env_events env = (t1, Got (hdr @ CRLF @ CRLF @ b0)) # map arrival bs @ [(t2, Got [])]"
    and "list_all (in_time (env_start env) (word_of_int (config_int cs ''http.timeout''))) (env_events env)"
    and "header_ok hdr" "chunk_ok (hdr @ CRLF @ CRLF @ b0)" "list_all (chunk_ok \<circ> snd) bs"
    and "int (length (b0 @ concat (map snd bs))) \<le> int_max"
  shows "http_post cs env host path body =
    Inr (int (length (b0 @ concat (map snd bs))), Some (b0 @ concat (map snd bs)))"
  using assms(1-6) recv_response_ok [OF assms(9,10,11) assms(8) [unfolded assms(7)] assms(12)]
  by (simp add: http_post_def assms(7))

definition good_env :: http_env where
  "good_env = \<lparr>env_start = 100, env_socket = 5, env_rcvtimeo = True, env_sndtimeo = True,
     env_resolved = True, env_connected = True, env_sent = 200,
     env_events = [(100, Got (''HTTP/1.1 200 OK'' @ CRLF @ ''A: b'' @ CRLF @ CRLF @ ''O'')), (101, Got ''K''), (101, Got [])]\<rparr>"

theorem http_post_payload_witness:
  "http_post [(''http.timeout'', ''10'')] good_env ''h'' ''/p'' ''x=1'' = Inr (2, Some ''OK'')"
proof -
  let ?cs = "[(''http.timeout'', ''10'')] :: conf" and ?hdr = "''HTTP/1.1 200 OK'' @ CRLF @ ''A: b''"
  have ev: "env_events good_env = (100, Got (?hdr @ CRLF @ CRLF @ ''O'')) # map arrival [(101, ''K'')] @ [(101, Got [])]"
    by (simp add: good_env_def)
  have s: "int (length (http_request ?cs ''h'' ''/p'' ''x=1'')) \<le> env_sent good_env"
    by code_simp
  have t: "list_all (in_time (env_start good_env) (word_of_int (config_int ?cs ''http.timeout''))) (env_events good_env)"
    by code_simp
  have h: "header_ok ?hdr" by code_simp
  have c: "chunk_ok (?hdr @ CRLF @ CRLF @ ''O'')" "list_all (chunk_ok \<circ> snd) [(101 :: uint32, ''K'')]"
    by (simp_all add: chunk_ok_def BUF_SIZE_def CRLF_def)
  show ?thesis
    using http_post_payload [of good_env ?cs "''h''" "''/p''" "''x=1''", OF _ _ _ _ _ s ev t h c]
    by (simp add: good_env_def int_max_def)
qed

text \<open>
  \<open>http_post\<close> never reports a failure as a negative number: whatever happens, the returned
  number is the size of the payload handed out, 0 when there is none.
\<close>

theorem http_post_result:
  assumes "http_post cs env host path body = Inr (n, got)"
  shows "n = (case got of None \<Rightarrow> 0 | Some d \<Rightarrow> int (length d)) \<and> 0 \<le> n"
  using http_post_size [OF assms] by (auto split: option.split)

theorem http_post_result_witness:
  "http_post [] (good_env\<lparr>env_connected := False\<rparr>) ''h'' ''/p'' ''x=1'' = Inr (0, None) \<and> 0 \<le> (0 :: int)"
proof -
  have "http_post [] (good_env\<lparr>env_connected := False\<rparr>) ''h'' ''/p'' ''x=1'' = Inr (0, None)"
    by (simp add: http_post_def good_env_def)
  from http_post_result [OF this] this show ?thesis by simp
qed


end
