(* ===== verification/Recv_Sender.thy ===== *)
theory Recv_Sender
  imports Http
begin

text \<open>
  \<open>receive/sender.c\<close>: the queue the interrupt handler fills with received packets, and the
  thread that connects to the merger and sends it. The state machine of \<open>cron_send\<close> is a
  step relation interleaved with \<open>add_to_queue\<close>; its invariant says that the packets reach
  the merger in their order and that none is lost when a send fails.
\<close>

section \<open>The queue\<close>

text \<open>\<open>send_queue\<close>, \<open>send_queue_len\<close> and \<open>send_queue_size\<close>; the sizes are \<open>unsigned int\<close>.\<close>

record rqueue =
  rq_buf :: "uchar option list"
  rq_len :: uint32
  rq_size :: uint32

definition rq_empty :: rqueue where
  "rq_empty = \<lparr>rq_buf = [], rq_len = 0, rq_size = 0\<rparr>"

definition add_to_queue :: "uchar list \<Rightarrow> rqueue \<Rightarrow> rqueue res" where
  "add_to_queue buf q =
     (let len = word_of_nat (length buf);
          q1 = (if rq_len q + len > rq_size q
                then let n = (rq_size q + len) * 2
                     in q\<lparr>rq_size := n, rq_buf := realloc_buf (unat n) (rq_buf q)\<rparr>
                else q)
      in bindR (memcpy_at (unat (rq_len q1)) buf (rq_buf q1)) (\<lambda>b.
           Inr (q1\<lparr>rq_buf := b, rq_len := rq_len q1 + len\<rparr>)))"

definition rq_inv :: "rqueue \<Rightarrow> bool" where
  "rq_inv q \<longleftrightarrow> unat (rq_len q) \<le> unat (rq_size q) \<and> length (rq_buf q) = unat (rq_size q) \<and>
     list_all (\<lambda>c. c \<noteq> None) (take (unat (rq_len q)) (rq_buf q))"

definition rq_contents :: "rqueue \<Rightarrow> uchar list" where
  "rq_contents q = map the (take (unat (rq_len q)) (rq_buf q))"

text \<open>A buffer whose length is a \<open>size_t\<close>.\<close>

definition rq_entry :: "uchar list \<Rightarrow> bool" where
  "rq_entry buf \<longleftrightarrow> length buf < 2 ^ 32"

lemma rq_copy:
  assumes q: "unat (rq_len q) \<le> length (rq_buf q)" "length (rq_buf q) = unat (rq_size q)"
    "list_all (\<lambda>c. c \<noteq> None) (take (unat (rq_len q)) (rq_buf q))"
    and e: "rq_entry buf" and m: "memcpy_at (unat (rq_len q)) buf (rq_buf q) = Inr b"
  shows "rq_inv (q\<lparr>rq_buf := b, rq_len := rq_len q + word_of_nat (length buf)\<rparr>) \<and>
    rq_contents (q\<lparr>rq_buf := b, rq_len := rq_len q + word_of_nat (length buf)\<rparr>) = rq_contents q @ buf"
proof -
  have fit: "unat (rq_len q) + length buf \<le> unat (rq_size q)"
    using m q(2) by (auto simp: memcpy_at_def split: if_splits)
  have l: "unat (word_of_nat (length buf) :: uint32) = length buf"
    using e by (simp add: rq_entry_def unat_of_nat)
  have "unat (rq_size q) < 2 ^ 32" using unsigned_less [of "rq_size q"] by simp
  then have s: "unat (rq_len q + word_of_nat (length buf)) = unat (rq_len q) + length buf"
    using fit l by (subst unat_add_lem [THEN iffD1]) simp_all
  have t: "take (unat (rq_len q) + length buf) b = take (unat (rq_len q)) (rq_buf q) @ map Some buf"
    by (rule memcpy_at_append [OF m])
  show ?thesis
    using fit q(2,3) length_memcpy_at [OF m] t s
    by (auto simp: rq_inv_def rq_contents_def list_all_iff comp_def)
qed

lemma add_to_queue_success:
  assumes "rq_inv q" "rq_entry buf" "add_to_queue buf q = Inr q'"
  shows "rq_inv q' \<and> rq_contents q' = rq_contents q @ buf"
proof -
  let ?len = "word_of_nat (length buf) :: uint32"
  have q: "unat (rq_len q) \<le> unat (rq_size q)" "length (rq_buf q) = unat (rq_size q)"
    "list_all (\<lambda>c. c \<noteq> None) (take (unat (rq_len q)) (rq_buf q))"
    using assms(1) by (simp_all add: rq_inv_def)
  show ?thesis
  proof (cases "rq_len q + ?len > rq_size q")
    case False
    with assms(3) obtain b where b: "memcpy_at (unat (rq_len q)) buf (rq_buf q) = Inr b"
      and q': "q' = q\<lparr>rq_buf := b, rq_len := rq_len q + ?len\<rparr>"
      by (auto simp: add_to_queue_def Let_def)
    show ?thesis unfolding q' using q by (intro rq_copy [OF _ _ _ assms(2) b]) simp_all
  next
    case True
    define n where "n = (rq_size q + ?len) * 2"
    let ?q1 = "q\<lparr>rq_size := n, rq_buf := realloc_buf (unat n) (rq_buf q)\<rparr>"
    from True assms(3) obtain b where b: "memcpy_at (unat (rq_len ?q1)) buf (rq_buf ?q1) = Inr b"
      and q': "q' = ?q1\<lparr>rq_buf := b, rq_len := rq_len ?q1 + ?len\<rparr>"
      by (auto simp: add_to_queue_def Let_def n_def)
    have le: "unat (rq_len q) \<le> unat n"
      using b by (auto simp: memcpy_at_def split: if_splits)
    then have t: "take (unat (rq_len q)) (realloc_buf (unat n) (rq_buf q)) = take (unat (rq_len q)) (rq_buf q)"
      using q by (intro take_realloc_buf) simp_all
    have "rq_contents ?q1 = rq_contents q" by (simp add: rq_contents_def t)
    moreover have "rq_inv q' \<and> rq_contents q' = rq_contents ?q1 @ buf"
      unfolding q' using q(3) le t by (intro rq_copy [OF _ _ _ assms(2) b]) simp_all
    ultimately show ?thesis by simp
  qed
qed

interpretation rq: append_queue add_to_queue "\<lambda>buf. buf" rq_contents rq_inv rq_entry "{Out_Of_Bounds}"
proof unfold_locales
  fix q r q'
  assume "rq_inv q" "rq_entry r" "add_to_queue r q = Inr q'"
  from add_to_queue_success [OF this] show "rq_inv q'" "rq_contents q' = rq_contents q @ r" by simp_all
next
  fix q r e
  assume "add_to_queue r q = Inl e"
  then show "e \<in> {Out_Of_Bounds}"
    by (auto simp: add_to_queue_def Let_def memcpy_at_def bindR_Inl_iff split: if_splits)
qed

text \<open>While the doubled size fits 32 bits, the copy is inside the block.\<close>

lemma add_to_queue_ok:
  assumes q: "rq_inv q" and fits: "(unat (rq_size q) + length buf) * 2 < 2 ^ 32"
  shows "\<exists>q'. add_to_queue buf q = Inr q'"
proof -
  let ?len = "word_of_nat (length buf) :: uint32"
  have l: "unat ?len = length buf" using fits by (simp add: unat_of_nat)
  have s: "unat (rq_size q + ?len) = unat (rq_size q) + length buf"
    using fits l by (subst unat_add_lem [THEN iffD1]) simp_all
  have n: "unat ((rq_size q + ?len) * 2) = (unat (rq_size q) + length buf) * 2"
    using fits s by (subst unat_mult_lem [THEN iffD1]) simp_all
  have a: "unat (rq_len q + ?len) = unat (rq_len q) + length buf"
    using fits l q by (subst unat_add_lem [THEN iffD1]) (simp_all add: rq_inv_def)
  show ?thesis
    using q n a
    by (auto simp: add_to_queue_def Let_def memcpy_at_def rq_inv_def word_less_nat_alt)
qed

section \<open>The connection to the merger\<close>

text \<open>The static variables of \<open>get_master_ip\<close>.\<close>

record ip_cache =
  ip :: "string option"
  last_update :: int

definition get_master_ip :: "bool \<Rightarrow> conf \<Rightarrow> http_env \<Rightarrow> int \<Rightarrow> ip_cache \<Rightarrow> (string \<times> ip_cache) res" where
  "get_master_ip schar cs env now c =
     bindR (c_int (now - last_update c)) (\<lambda>d.
     bindR (if d > config_int cs ''master.dynamic_ip_timeout'' then
              bindR (cloud_send schar cs env (get_config cs ''paths.queryip'') ''master'') (\<lambda>(n, recvbuf).
                Inr (if n < 7 then c\<lparr>last_update := now\<rparr>
                     else c\<lparr>ip := map_option cstr recvbuf, last_update := now\<rparr>))
            else Inr c) (\<lambda>c1.
       Inr (case ip c1 of Some s \<Rightarrow> s | None \<Rightarrow> ''127.0.0.1'', c1)))"

text \<open>
  The static variables of the file and of \<open>do_send\<close>.
\<close>

record rsender =
  sockfd :: int
  lastok :: bool
  sendbuf :: "uchar list"
  sendlen :: int
  cache :: ip_cache

definition init_rsender :: rsender where
  "init_rsender = \<lparr>sockfd = - 1, lastok = True, sendbuf = [], sendlen = 0,
     cache = \<lparr>ip = None, last_update = 0\<rparr>\<rparr>"

text \<open>
  The environment of a connection attempt: the results of \<open>socket\<close> and \<open>setsockopt\<close>,
  whether a host and port accept, and the clock and network of the two calls of
  \<open>get_master_ip\<close>, the second of which is an argument of the error message.
\<close>

record conn_env =
  ce_socket :: int
  ce_sockopt :: bool
  ce_accepts :: "string \<Rightarrow> int \<Rightarrow> bool"
  ce_now :: "int \<times> int"
  ce_http :: "http_env \<times> http_env"

definition try_connect :: "bool \<Rightarrow> conf \<Rightarrow> conn_env \<Rightarrow> rsender \<Rightarrow> (bool \<times> rsender) res" where
  "try_connect schar cs env s =
     bindR (checkR (sockfd s = - 1) Exited) (\<lambda>_.
     bindR (checkR (ce_socket env \<noteq> - 1) Exited) (\<lambda>_.
     bindR (checkR (ce_sockopt env) Exited) (\<lambda>_.
     bindR (get_master_ip schar cs (fst (ce_http env)) (fst (ce_now env)) (cache s)) (\<lambda>(addr, c1).
       if \<not> ce_accepts env addr (config_int cs ''master.port'') then
         bindR (get_master_ip schar cs (snd (ce_http env)) (snd (ce_now env)) c1) (\<lambda>(_, c2).
           Inr (False, s\<lparr>sockfd := - 1, cache := c2\<rparr>))
       else Inr (True, s\<lparr>sockfd := ce_socket env, cache := c1\<rparr>)))))"

text \<open>
  The part of \<open>do_send\<close> before \<open>send\<close>, entered when the last send succeeded: a heartbeat of
  zero bytes if the queue is empty, the whole queue otherwise. \<open>sendlen\<close> is an \<open>int\<close>, so a
  queue length from \<open>2^31\<close> on becomes negative.
\<close>

definition next_batch :: "bool \<Rightarrow> conf \<Rightarrow> http_env \<Rightarrow> rsender \<Rightarrow> rqueue \<Rightarrow> (rsender \<times> rqueue) res" where
  "next_batch schar cs env s q =
     bindR (c_int (1 + config_int cs ''nrf.RX_PLOAD_WIDTH'')) (\<lambda>packet_size.
     bindR (if rq_len q = 0 then
              bindR (checkR (0 \<le> packet_size) Exited) (\<lambda>_.
                Inr (s\<lparr>sendlen := packet_size, sendbuf := replicate (nat packet_size) 0\<rparr>, q))
            else
              bindR (read_at 0 (unat (rq_len q)) (rq_buf q)) (\<lambda>cells.
              bindR (checkR (list_all (\<lambda>c. c \<noteq> None) cells) Out_Of_Bounds) (\<lambda>_.
                Inr (s\<lparr>sendbuf := map the cells, sendlen := sint (rq_len q)\<rparr>, q\<lparr>rq_len := 0\<rparr>)))) (\<lambda>(s1, q1).
     bindR (c_int (packet_size * config_int cs ''master.warn_queue_len'')) (\<lambda>warn.
     bindR (if sendlen s1 > warn then
              bindR (checkR (packet_size \<noteq> 0) Div_Zero) (\<lambda>_.
              bindR (report_it_now schar cs env
                 (''receiver queue too long ('' @ dec_int (sendlen s1) @ '' bytes, '' @
                  dec_int (c_div (sendlen s1) packet_size) @ '' packets)'')) (\<lambda>_. Inr ()))
            else Inr ()) (\<lambda>_. Inr (s1, q1)))))"

text \<open>\<open>sendedlen\<close> is what \<open>send\<close> returns; \<open>close\<close> marks the socket inactive.\<close>

definition do_send :: "bool \<Rightarrow> conf \<Rightarrow> http_env \<Rightarrow> int \<Rightarrow> rsender \<Rightarrow> rqueue \<Rightarrow> (bool \<times> rsender \<times> rqueue) res" where
  "do_send schar cs env sendedlen s q =
     bindR (c_int (1 + config_int cs ''nrf.RX_PLOAD_WIDTH'')) (\<lambda>_.
     bindR (if lastok s then next_batch schar cs env s q else Inr (s, q)) (\<lambda>(s1, q1).
       if sendedlen < sendlen s1
       then Inr (False, s1\<lparr>lastok := False, sockfd := - 1\<rparr>, q1)
       else Inr (True, s1\<lparr>lastok := True\<rparr>, q1)))"

text \<open>The delay before the next action, in microseconds.\<close>

definition delay_conf :: "conf \<Rightarrow> string \<Rightarrow> int res" where
  "delay_conf cs key = c_int (1000 * config_int cs key)"

text \<open>The two labels of \<open>cron_send\<close>, and one pass from a label to the next.\<close>

datatype rlabel = Connect | Send

definition cron_step ::
  "bool \<Rightarrow> conf \<Rightarrow> conn_env \<Rightarrow> http_env \<Rightarrow> int \<Rightarrow> rlabel \<Rightarrow> rsender \<Rightarrow> rqueue \<Rightarrow> (rlabel \<times> rsender \<times> rqueue) res" where
  "cron_step schar cs cenv env sendedlen l s q =
     (case l of
        Connect \<Rightarrow> bindR (try_connect schar cs cenv s) (\<lambda>(ok, s1).
          if ok then Inr (Send, s1, q)
          else bindR (delay_conf cs ''master.retry_interval'') (\<lambda>_. Inr (Connect, s1, q)))
      | Send \<Rightarrow> bindR (do_send schar cs env sendedlen s q) (\<lambda>(ok, s1, q1).
          if ok then bindR (delay_conf cs ''master.send_interval'') (\<lambda>_. Inr (Send, s1, q1))
          else Inr (Connect, s1, q1)))"

section \<open>Interleaving with the interrupt handler\<close>

text \<open>
  \<open>added\<close> records the bytes queued, \<open>out\<close> what the kernel took of every send that was
  counted as a success, with a flag for heartbeats; \<open>beat\<close> tells whether the current batch
  is a heartbeat. The machine has less than \<open>2^31\<close> bytes of memory.
\<close>

record rx =
  label :: rlabel
  snd_state :: rsender
  rqq :: rqueue
  added :: "uchar list"
  out :: "(bool \<times> uchar list) list"
  beat :: bool

definition init_rx :: rx where
  "init_rx = \<lparr>label = Connect, snd_state = init_rsender, rqq = rq_empty, added = [], out = [], beat = False\<rparr>"

definition beat_after :: "rx \<Rightarrow> bool" where
  "beat_after t = (if label t = Send \<and> lastok (snd_state t) then rq_len (rqq t) = 0 else beat t)"

definition cron_rx :: "bool \<Rightarrow> conf \<Rightarrow> conn_env \<Rightarrow> http_env \<Rightarrow> int \<Rightarrow> rx \<Rightarrow> rx res" where
  "cron_rx schar cs cenv env n t =
     bindR (cron_step schar cs cenv env n (label t) (snd_state t) (rqq t)) (\<lambda>(l, s, q).
       Inr (t\<lparr>label := l, snd_state := s, rqq := q, beat := beat_after t,
         out := (if label t = Send \<and> lastok s then out t @ [(beat_after t, take (nat n) (sendbuf s))] else out t)\<rparr>))"

text \<open>
  \<open>E\<close> tells which buffers the handler queues, \<open>C\<close> which configurations are loaded in the
  course of the run.
\<close>

inductive rx_step :: "bool \<Rightarrow> (uchar list \<Rightarrow> bool) \<Rightarrow> (conf \<Rightarrow> bool) \<Rightarrow> rx \<Rightarrow> rx \<Rightarrow> bool" for schar E C where
  Add: "E buf \<Longrightarrow> rq_entry buf \<Longrightarrow> add_to_queue buf (rqq t) = Inr q \<Longrightarrow> unat (rq_len q) < 2 ^ 31 \<Longrightarrow>
    rx_step schar E C t (t\<lparr>rqq := q, added := added t @ buf\<rparr>)"
| Cron: "C cs \<Longrightarrow> cron_rx schar cs cenv env n t = Inr t' \<Longrightarrow> rx_step schar E C t t'"

inductive rx_reach :: "bool \<Rightarrow> (uchar list \<Rightarrow> bool) \<Rightarrow> (conf \<Rightarrow> bool) \<Rightarrow> rx \<Rightarrow> bool" for schar E C where
  start: "rx_reach schar E C init_rx"
| onward: "rx_reach schar E C t \<Longrightarrow> rx_step schar E C t t' \<Longrightarrow> rx_reach schar E C t'"

text \<open>The data that was sent, and the data of the batch that waits to be sent again.\<close>

definition sent_data :: "(bool \<times> uchar list) list \<Rightarrow> uchar list" where
  "sent_data os = concat (map (\<lambda>(h, b). if h then [] else b) os)"

definition retry_data :: "rx \<Rightarrow> uchar list" where
  "retry_data t = (if lastok (snd_state t) \<or> beat t then [] else sendbuf (snd_state t))"

definition rx_inv :: "rx \<Rightarrow> bool" where
  "rx_inv t \<longleftrightarrow> rq_inv (rqq t) \<and> unat (rq_len (rqq t)) < 2 ^ 31 \<and>
     (sockfd (snd_state t) = - 1 \<longleftrightarrow> label t = Connect) \<and>
     (\<not> lastok (snd_state t) \<longrightarrow> sendlen (snd_state t) = int (length (sendbuf (snd_state t)))) \<and>
     added t = sent_data (out t) @ retry_data t @ rq_contents (rqq t)"

lemma sent_data_snoc [simp]: "sent_data (os @ [(h, b)]) = sent_data os @ (if h then [] else b)"
  by (simp add: sent_data_def)

lemma next_batch_cases:
  assumes "next_batch schar cs env s q = Inr (s1, q1)" "rq_inv q" "unat (rq_len q) < 2 ^ 31"
  shows "sockfd s1 = sockfd s" "lastok s1 = lastok s" "sendlen s1 = int (length (sendbuf s1))" "rq_inv q1"
    "unat (rq_len q1) < 2 ^ 31"
    "rq_len q = 0 \<Longrightarrow> q1 = q" "rq_len q \<noteq> 0 \<Longrightarrow> sendbuf s1 = rq_contents q \<and> rq_contents q1 = []"
    "rq_len q = 0 \<Longrightarrow> rq_contents q = []"
proof -
  have l: "length (take (unat (rq_len q)) (rq_buf q)) = unat (rq_len q)"
    using assms(2) by (simp add: rq_inv_def)
  have i: "sint (rq_len q) = int (unat (rq_len q))"
  proof -
    have "int (unat (rq_len q)) < int (2 ^ 31)" using assms(3) by (simp only: of_nat_less_iff)
    then have "uint (rq_len q) \<le> int_max" by (simp add: int_max_def)
    with sint_time [of "uint (rq_len q)"] show ?thesis by simp
  qed
  obtain packet_size where d: "(if rq_len q = 0 then
        bindR (checkR (0 \<le> packet_size) Exited) (\<lambda>_.
          Inr (s\<lparr>sendlen := packet_size, sendbuf := replicate (nat packet_size) 0\<rparr>, q))
      else
        bindR (read_at 0 (unat (rq_len q)) (rq_buf q)) (\<lambda>cells.
        bindR (checkR (list_all (\<lambda>c. c \<noteq> None) cells) Out_Of_Bounds) (\<lambda>_.
          Inr (s\<lparr>sendbuf := map the cells, sendlen := sint (rq_len q)\<rparr>, q\<lparr>rq_len := 0\<rparr>)))) = Inr (s1, q1)"
    using assms(1) unfolding next_batch_def by (simp only: bindR_Inr_iff split_paired_Ex prod.case) blast
  show "sockfd s1 = sockfd s" "lastok s1 = lastok s" using d by (auto split: if_splits)
  show "sendlen s1 = int (length (sendbuf s1))"
    using d l i by (auto simp: read_at_def split: if_splits)
  show "rq_inv q1" "unat (rq_len q1) < 2 ^ 31"
    using d assms(2,3) by (auto simp: rq_inv_def split: if_splits)
  show "q1 = q" if "rq_len q = 0" using d that by (auto split: if_splits)
  show "sendbuf s1 = rq_contents q \<and> rq_contents q1 = []" if "rq_len q \<noteq> 0"
    using d that by (auto simp: rq_contents_def read_at_def split: if_splits)
  show "rq_contents q = []" if "rq_len q = 0" using that by (simp add: rq_contents_def)
qed

lemma try_connect_cases:
  assumes "try_connect schar cs env s = Inr (ok, s1)"
  shows "(sockfd s1 = - 1 \<longleftrightarrow> \<not> ok) \<and> lastok s1 = lastok s \<and> sendbuf s1 = sendbuf s \<and> sendlen s1 = sendlen s"
  using assms by (auto simp: try_connect_def split: if_splits)

lemma rx_connect_step:
  assumes inv: "rx_inv t" and l: "label t = Connect"
    and c: "cron_rx schar cs cenv env n t = Inr t'"
  shows "rx_inv t'"
proof -
  obtain ok s where t: "try_connect schar cs cenv (snd_state t) = Inr (ok, s)"
    and t': "t' = t\<lparr>label := (if ok then Send else Connect), snd_state := s, beat := beat_after t\<rparr>"
    using c l by (auto simp: cron_rx_def cron_step_def split: if_splits)
  from try_connect_cases [OF t] inv l t' show ?thesis
    by (auto simp: rx_inv_def retry_data_def beat_after_def)
qed

text \<open>What a pass from the label \<open>send\<close> does.\<close>

lemma cron_rx_send:
  assumes l: "label t = Send" and c: "cron_rx schar cs cenv env n t = Inr t'"
  obtains s1 q where "(if lastok (snd_state t) then next_batch schar cs env (snd_state t) (rqq t)
        else Inr (snd_state t, rqq t)) = Inr (s1, q)"
    "t' = t\<lparr>label := (if n < sendlen s1 then Connect else Send),
       snd_state := (if n < sendlen s1 then s1\<lparr>lastok := False, sockfd := - 1\<rparr> else s1\<lparr>lastok := True\<rparr>),
       rqq := q, beat := beat_after t,
       out := (if n < sendlen s1 then out t else out t @ [(beat_after t, take (nat n) (sendbuf s1))])\<rparr>"
proof -
  obtain l' s q ok where d: "do_send schar cs env n (snd_state t) (rqq t) = Inr (ok, s, q)"
    and t': "l' = (if ok then Send else Connect)"
    "t' = t\<lparr>label := l', snd_state := s, rqq := q, beat := beat_after t,
      out := (if lastok s then out t @ [(beat_after t, take (nat n) (sendbuf s))] else out t)\<rparr>"
    using c l by (auto simp: cron_rx_def cron_step_def split: if_splits)
  obtain s1 where b: "(if lastok (snd_state t) then next_batch schar cs env (snd_state t) (rqq t)
        else Inr (snd_state t, rqq t)) = Inr (s1, q)"
    and s: "s = (if n < sendlen s1 then s1\<lparr>lastok := False, sockfd := - 1\<rparr> else s1\<lparr>lastok := True\<rparr>)"
    and ok: "ok \<longleftrightarrow> \<not> n < sendlen s1"
    using d by (auto simp: do_send_def split: if_splits)
  show thesis using that [OF b] t' s ok by simp
qed

lemma send_batch:
  assumes inv: "rx_inv t" and l: "label t = Send"
    and b: "(if lastok (snd_state t) then next_batch schar cs env (snd_state t) (rqq t)
        else Inr (snd_state t, rqq t)) = Inr (s1, q)"
  shows "sendlen s1 = int (length (sendbuf s1))" "sockfd s1 \<noteq> - 1" "rq_inv q" "unat (rq_len q) < 2 ^ 31"
    "added t = sent_data (out t) @ (if beat_after t then [] else sendbuf s1) @ rq_contents q"
    "lastok (snd_state t) \<Longrightarrow> rq_contents q = []"
proof -
  have i: "rq_inv (rqq t)" "unat (rq_len (rqq t)) < 2 ^ 31" "sockfd (snd_state t) \<noteq> - 1"
    "\<not> lastok (snd_state t) \<longrightarrow> sendlen (snd_state t) = int (length (sendbuf (snd_state t)))"
    "added t = sent_data (out t) @ retry_data t @ rq_contents (rqq t)"
    using inv l by (auto simp: rx_inv_def)
  have "sendlen s1 = int (length (sendbuf s1)) \<and> sockfd s1 \<noteq> - 1 \<and> rq_inv q \<and> unat (rq_len q) < 2 ^ 31 \<and>
    added t = sent_data (out t) @ (if beat_after t then [] else sendbuf s1) @ rq_contents q \<and>
    (lastok (snd_state t) \<longrightarrow> rq_contents q = [])"
  proof (cases "lastok (snd_state t)")
    case True
    with b have "next_batch schar cs env (snd_state t) (rqq t) = Inr (s1, q)" by simp
    note nb = next_batch_cases [OF this i(1,2)]
    show ?thesis
      using nb i(3,5) True l by (cases "rq_len (rqq t) = 0") (auto simp: retry_data_def beat_after_def)
  next
    case False
    with b i l show ?thesis by (auto simp: retry_data_def beat_after_def)
  qed
  then show "sendlen s1 = int (length (sendbuf s1))" "sockfd s1 \<noteq> - 1" "rq_inv q" "unat (rq_len q) < 2 ^ 31"
    "added t = sent_data (out t) @ (if beat_after t then [] else sendbuf s1) @ rq_contents q"
    "lastok (snd_state t) \<Longrightarrow> rq_contents q = []" by simp_all
qed

lemma rx_send_step:
  assumes inv: "rx_inv t" and l: "label t = Send" and c: "cron_rx schar cs cenv env n t = Inr t'"
  shows "rx_inv t'"
proof -
  obtain s1 q where b: "(if lastok (snd_state t) then next_batch schar cs env (snd_state t) (rqq t)
        else Inr (snd_state t, rqq t)) = Inr (s1, q)"
    and t': "t' = t\<lparr>label := (if n < sendlen s1 then Connect else Send),
       snd_state := (if n < sendlen s1 then s1\<lparr>lastok := False, sockfd := - 1\<rparr> else s1\<lparr>lastok := True\<rparr>),
       rqq := q, beat := beat_after t,
       out := (if n < sendlen s1 then out t else out t @ [(beat_after t, take (nat n) (sendbuf s1))])\<rparr>"
    by (rule cron_rx_send [OF l c])
  note sb = send_batch [OF inv l b]
  show ?thesis
  proof (cases "n < sendlen s1")
    case True
    then show ?thesis using t' sb(1,3-5) by (simp add: rx_inv_def retry_data_def)
  next
    case False
    then have "take (nat n) (sendbuf s1) = sendbuf s1" using sb(1) by simp
    with False show ?thesis using t' sb(1-5) by (simp add: rx_inv_def retry_data_def)
  qed
qed

lemma cron_rx_inv: "cron_rx schar cs cenv env n t = Inr t' \<Longrightarrow> rx_inv t \<Longrightarrow> rx_inv t'"
  using rx_connect_step rx_send_step by (cases "label t") blast+

lemma rx_step_inv: "rx_step schar E C t t' \<Longrightarrow> rx_inv t \<Longrightarrow> rx_inv t'"
proof (induction rule: rx_step.induct)
  case (Add buf t q)
  then have "rq_inv (rqq t)" by (simp add: rx_inv_def)
  from add_to_queue_success [OF this Add(2,3)] Add show ?case
    by (simp add: rx_inv_def retry_data_def)
qed (rule cron_rx_inv)

lemma rx_reach_inv: "rx_reach schar E C t \<Longrightarrow> rx_inv t"
proof (induction rule: rx_reach.induct)
  case start
  then show ?case
    by (simp add: rx_inv_def init_rx_def init_rsender_def rq_inv_def rq_empty_def rq_contents_def
        sent_data_def retry_data_def)
qed (use rx_step_inv in blast)

text \<open>The induction rule for further invariants: the basic one may be used in each step.\<close>

inductive_cases rx_stepE: "rx_step schar E C t t'"

lemma rx_invariant [consumes 1, case_names start Add Cron]:
  assumes "rx_reach schar E C t" "P init_rx"
    and add: "\<And>t buf q. rx_inv t \<Longrightarrow> P t \<Longrightarrow> E buf \<Longrightarrow> rq_entry buf \<Longrightarrow> add_to_queue buf (rqq t) = Inr q \<Longrightarrow>
      P (t\<lparr>rqq := q, added := added t @ buf\<rparr>)"
    and cron: "\<And>t cs cenv env n t'. rx_inv t \<Longrightarrow> P t \<Longrightarrow> C cs \<Longrightarrow> cron_rx schar cs cenv env n t = Inr t' \<Longrightarrow> P t'"
  shows "P t"
  using assms(1)
proof (induction rule: rx_reach.induct)
  case start
  show ?case by (rule assms(2))
next
  case (onward t t')
  note inv = rx_reach_inv [OF onward(1)]
  from onward(2) show ?case by (rule rx_stepE) (use inv onward.IH add cron in blast)+
qed

section \<open>Whole packets\<close>

text \<open>Every buffer queued has \<open>P\<close> bytes, and the configured payload width is \<open>P - 1\<close>.\<close>

definition packet_buf :: "nat \<Rightarrow> uchar list \<Rightarrow> bool" where
  "packet_buf P buf \<longleftrightarrow> length buf = P"

definition width_conf :: "nat \<Rightarrow> conf \<Rightarrow> bool" where
  "width_conf P cs \<longleftrightarrow> 1 + config_int cs ''nrf.RX_PLOAD_WIDTH'' = int P"

definition aligned :: "nat \<Rightarrow> rx \<Rightarrow> bool" where
  "aligned P t \<longleftrightarrow> P dvd length (rq_contents (rqq t)) \<and>
     (\<not> lastok (snd_state t) \<longrightarrow> P dvd length (sendbuf (snd_state t))) \<and>
     (\<forall>(h, b)\<in>set (out t). P dvd length b)"

lemma next_batch_aligned:
  assumes "next_batch schar cs env s q = Inr (s1, q1)" "rq_inv q" "unat (rq_len q) < 2 ^ 31"
    and "width_conf P cs" "P dvd length (rq_contents q)"
  shows "P dvd length (sendbuf s1)"
proof (cases "rq_len q = 0")
  case True
  with assms(1,4) have "sendbuf s1 = replicate P 0"
    by (auto simp: next_batch_def c_int_Inr_iff width_conf_def split: if_splits)
  then show ?thesis by simp
next
  case False
  with next_batch_cases(7) [OF assms(1-3)] assms(5) show ?thesis by simp
qed

lemma cron_rx_aligned:
  assumes inv: "rx_inv t" and a: "aligned P t" and cs: "width_conf P cs"
    and c: "cron_rx schar cs cenv env n t = Inr t'"
  shows "aligned P t'"
proof (cases "label t")
  case Connect
  then obtain ok s where t: "try_connect schar cs cenv (snd_state t) = Inr (ok, s)"
    and t': "t' = t\<lparr>label := (if ok then Send else Connect), snd_state := s, beat := beat_after t\<rparr>"
    using c by (auto simp: cron_rx_def cron_step_def split: if_splits)
  from try_connect_cases [OF t] a t' show ?thesis by (auto simp: aligned_def)
next
  case Send
  obtain s1 q where b: "(if lastok (snd_state t) then next_batch schar cs env (snd_state t) (rqq t)
        else Inr (snd_state t, rqq t)) = Inr (s1, q)"
    and t': "t' = t\<lparr>label := (if n < sendlen s1 then Connect else Send),
       snd_state := (if n < sendlen s1 then s1\<lparr>lastok := False, sockfd := - 1\<rparr> else s1\<lparr>lastok := True\<rparr>),
       rqq := q, beat := beat_after t,
       out := (if n < sendlen s1 then out t else out t @ [(beat_after t, take (nat n) (sendbuf s1))])\<rparr>"
    by (rule cron_rx_send [OF Send c])
  note sb = send_batch [OF inv Send b]
  have "P dvd length (sendbuf s1)" "P dvd length (rq_contents q)"
  proof -
    have "P dvd length (sendbuf s1) \<and> P dvd length (rq_contents q)"
    proof (cases "lastok (snd_state t)")
      case True
      with b have "next_batch schar cs env (snd_state t) (rqq t) = Inr (s1, q)" by simp
      from next_batch_aligned [OF this _ _ cs] sb(6) [OF True] inv a show ?thesis
        by (simp add: rx_inv_def aligned_def)
    next
      case False
      with b a show ?thesis by (simp add: aligned_def)
    qed
    then show "P dvd length (sendbuf s1)" "P dvd length (rq_contents q)" by simp_all
  qed
  moreover have "\<not> n < sendlen s1 \<Longrightarrow> take (nat n) (sendbuf s1) = sendbuf s1" using sb(1) by simp
  ultimately show ?thesis using a t' by (auto simp: aligned_def)
qed

lemma rx_reach_aligned: "rx_reach schar (packet_buf P) (width_conf P) t \<Longrightarrow> aligned P t"
proof (induction rule: rx_invariant)
  case start
  show ?case by (simp add: aligned_def init_rx_def init_rsender_def rq_empty_def rq_contents_def)
next
  case (Add t buf q)
  then show ?case using add_to_queue_success [of "rqq t" buf q] by (auto simp: aligned_def rx_inv_def packet_buf_def)
next
  case (Cron t cs cenv env n t')
  then show ?case using cron_rx_aligned by blast
qed

section \<open>Properties\<close>


definition rx_conf :: conf where
  "rx_conf = [(''nrf.RX_PLOAD_WIDTH'', ''1''), (''master.warn_queue_len'', ''1000'')]"

definition open_env :: conn_env where
  "open_env = \<lparr>ce_socket = 3, ce_sockopt = True, ce_accepts = \<lambda>_ _. True, ce_now = (0, 0),
     ce_http = (good_env, good_env)\<rparr>"

text \<open>A packet is queued, the connection made, and the packet cut off in the first send.\<close>

lemma failed_send_reach:
  obtains t where "rx_reach False (packet_buf 2) (width_conf 2) t" "added t = [5, 6]" "label t = Connect"
    "retry_data t = [5, 6]" "rq_contents (rqq t) = []"
proof -
  let ?t1 = "init_rx\<lparr>rqq := \<lparr>rq_buf = [Some 5, Some 6, None, None], rq_len = 2, rq_size = 4\<rparr>, added := [5, 6]\<rparr>"
  have "add_to_queue [5, 6] (rqq init_rx) = Inr \<lparr>rq_buf = [Some 5, Some 6, None, None], rq_len = 2, rq_size = 4\<rparr>"
    by code_simp
  then have "rx_step False (packet_buf 2) (width_conf 2) init_rx
      (init_rx\<lparr>rqq := \<lparr>rq_buf = [Some 5, Some 6, None, None], rq_len = 2, rq_size = 4\<rparr>, added := added init_rx @ [5, 6]\<rparr>)"
    by (intro rx_step.Add) (simp_all add: packet_buf_def rq_entry_def)
  then have "rx_step False (packet_buf 2) (width_conf 2) init_rx ?t1" by (simp add: init_rx_def)
  note r1 = rx_reach.onward [OF rx_reach.start this]
  have cs: "width_conf 2 rx_conf" by code_simp
  have c: "cron_rx False rx_conf open_env good_env 1 ?t1 = Inr (?t1\<lparr>label := Send,
      snd_state := init_rsender\<lparr>sockfd := 3\<rparr>\<rparr>)" by code_simp
  note r2 = rx_reach.onward [OF r1 rx_step.Cron [of "width_conf 2", OF cs c]]
  have d: "cron_rx False rx_conf open_env good_env 1 (?t1\<lparr>label := Send, snd_state := init_rsender\<lparr>sockfd := 3\<rparr>\<rparr>) =
    Inr (?t1\<lparr>label := Connect, snd_state := init_rsender\<lparr>lastok := False, sendbuf := [5, 6], sendlen := 2\<rparr>,
      rqq := \<lparr>rq_buf = [Some 5, Some 6, None, None], rq_len = 0, rq_size = 4\<rparr>\<rparr>)" by code_simp
  note r3 = rx_reach.onward [OF r2 rx_step.Cron [of "width_conf 2", OF cs d]]
  show thesis
    by (rule that [OF r3]) (simp_all add: init_rx_def retry_data_def rq_contents_def)
qed


text \<open>
  The state machine keeps its socket: the assertion of \<open>try_connect\<close> that no connection
  is open never fails, and a send always has an open one.
\<close>

theorem socket_state:
  assumes "rx_reach schar E C t"
  shows "(case label t of Connect \<Rightarrow> sockfd (snd_state t) = - 1 | Send \<Rightarrow> sockfd (snd_state t) \<noteq> - 1)"
  using rx_reach_inv [OF assms] by (cases "label t") (simp_all add: rx_inv_def)

theorem socket_state_witness:
  "\<exists>t :: rx. label t = Connect \<and> added t = [5, 6] \<and> sockfd (snd_state t) = - 1"
proof -
  obtain t where "rx_reach False (packet_buf 2) (width_conf 2) t" "added t = [5, 6]" "label t = Connect"
    by (rule failed_send_reach)
  with socket_state [OF this(1)] show ?thesis by - (rule exI [of _ t], simp)
qed

text \<open>
  Two successful sends in a row empty everything: from the label \<open>send\<close> in any reachable
  state, the first delivers the batch left over, if any, the second the whole queue.
\<close>

theorem two_sends_deliver:
  assumes r: "rx_reach schar E C t" and l: "label t = Send" and C: "C cs1" "C cs2"
    and s1: "cron_rx schar cs1 cenv1 env1 n1 t = Inr t1" "label t1 = Send"
    and s2: "cron_rx schar cs2 cenv2 env2 n2 t1 = Inr t2" "label t2 = Send"
  shows "added t2 = sent_data (out t2) \<and> rq_contents (rqq t2) = []"
proof -
  have r1: "rx_reach schar E C t1" by (rule rx_reach.onward [OF r rx_step.Cron [of C, OF C(1) s1(1)]])
  have i1: "rx_inv t1" by (rule rx_reach_inv [OF r1])
  have i2: "rx_inv t2" by (rule rx_reach_inv [OF rx_reach.onward [OF r1 rx_step.Cron [of C, OF C(2) s2(1)]]])
  obtain s q where "t1 = t\<lparr>label := (if n1 < sendlen s then Connect else Send),
       snd_state := (if n1 < sendlen s then s\<lparr>lastok := False, sockfd := - 1\<rparr> else s\<lparr>lastok := True\<rparr>),
       rqq := q, beat := beat_after t,
       out := (if n1 < sendlen s then out t else out t @ [(beat_after t, take (nat n1) (sendbuf s))])\<rparr>"
    by (rule cron_rx_send [OF l s1(1)])
  with s1(2) have ok: "lastok (snd_state t1)" by (auto split: if_splits)
  obtain s' q' where b: "(if lastok (snd_state t1) then next_batch schar cs2 env2 (snd_state t1) (rqq t1)
        else Inr (snd_state t1, rqq t1)) = Inr (s', q')"
    and t2: "t2 = t1\<lparr>label := (if n2 < sendlen s' then Connect else Send),
       snd_state := (if n2 < sendlen s' then s'\<lparr>lastok := False, sockfd := - 1\<rparr> else s'\<lparr>lastok := True\<rparr>),
       rqq := q', beat := beat_after t1,
       out := (if n2 < sendlen s' then out t1 else out t1 @ [(beat_after t1, take (nat n2) (sendbuf s'))])\<rparr>"
    by (rule cron_rx_send [OF s1(2) s2(1)])
  have "rq_contents q' = []" by (rule send_batch(6) [OF i1 s1(2) b ok])
  with t2 s2(2) have "rq_contents (rqq t2) = []" "retry_data t2 = []" by (auto simp: retry_data_def split: if_splits)
  with i2 show ?thesis by (simp add: rx_inv_def)
qed

lemma retry_then_send:
  obtains t t1 t2 where "rx_reach False (packet_buf 2) (width_conf 2) t" "label t = Send" "added t = [5, 6]"
    "cron_rx False rx_conf open_env good_env 9 t = Inr t1" "label t1 = Send"
    "cron_rx False rx_conf open_env good_env 9 t1 = Inr t2" "label t2 = Send" "out t2 = [(False, [5, 6]), (True, [0, 0])]"
proof -
  let ?t1 = "init_rx\<lparr>rqq := \<lparr>rq_buf = [Some 5, Some 6, None, None], rq_len = 2, rq_size = 4\<rparr>, added := [5, 6]\<rparr>"
  let ?t = "?t1\<lparr>label := Send, snd_state := init_rsender\<lparr>sockfd := 3\<rparr>\<rparr>"
  let ?q = "\<lparr>rq_buf = [Some 5, Some 6, None, None], rq_len = 0, rq_size = 4\<rparr>"
  let ?u = "?t\<lparr>snd_state := init_rsender\<lparr>sockfd := 3, sendbuf := [5, 6], sendlen := 2\<rparr>, rqq := ?q, out := [(False, [5, 6])]\<rparr>"
  let ?v = "?t\<lparr>snd_state := init_rsender\<lparr>sockfd := 3, sendbuf := [0, 0], sendlen := 2\<rparr>, rqq := ?q, beat := True,
    out := [(False, [5, 6]), (True, [0, 0])]\<rparr>"
  have "add_to_queue [5, 6] (rqq init_rx) = Inr \<lparr>rq_buf = [Some 5, Some 6, None, None], rq_len = 2, rq_size = 4\<rparr>"
    by code_simp
  then have "rx_step False (packet_buf 2) (width_conf 2) init_rx
      (init_rx\<lparr>rqq := \<lparr>rq_buf = [Some 5, Some 6, None, None], rq_len = 2, rq_size = 4\<rparr>, added := added init_rx @ [5, 6]\<rparr>)"
    by (intro rx_step.Add) (simp_all add: packet_buf_def rq_entry_def)
  then have "rx_step False (packet_buf 2) (width_conf 2) init_rx ?t1" by (simp add: init_rx_def)
  note r1 = rx_reach.onward [OF rx_reach.start this]
  have cs: "width_conf 2 rx_conf" by code_simp
  have c: "cron_rx False rx_conf open_env good_env 1 ?t1 = Inr ?t" by code_simp
  note r2 = rx_reach.onward [OF r1 rx_step.Cron [of "width_conf 2", OF cs c]]
  have d: "cron_rx False rx_conf open_env good_env 9 ?t = Inr ?u" by code_simp
  have e: "cron_rx False rx_conf open_env good_env 9 ?u = Inr ?v" by code_simp
  show thesis by (rule that [OF r2 _ _ d _ e]) (simp_all add: init_rx_def)
qed

theorem two_sends_deliver_witness:
  "\<exists>t2 :: rx. added t2 = sent_data (out t2) \<and> out t2 = [(False, [5, 6]), (True, [0, 0])]"
proof -
  have cs: "width_conf 2 rx_conf" by code_simp
  obtain t t1 t2 where t: "rx_reach False (packet_buf 2) (width_conf 2) t" "label t = Send" "added t = [5, 6]"
    "cron_rx False rx_conf open_env good_env 9 t = Inr t1" "label t1 = Send"
    "cron_rx False rx_conf open_env good_env 9 t1 = Inr t2" "label t2 = Send"
    "out t2 = [(False, [5, 6]), (True, [0, 0])]" by (rule retry_then_send)
  from two_sends_deliver [of False "packet_buf 2" "width_conf 2", OF t(1,2) cs cs t(4-7)] t(8) show ?thesis
    by - (rule exI [of _ t2], simp)
qed



text \<open>
  Queueing a packet writes inside the block and appends it, as long as the doubled size
  fits the 32 bits of \<open>send_queue_size\<close>.
\<close>

theorem add_to_queue_appends:
  assumes "rq_inv q" "(unat (rq_size q) + length buf) * 2 < 2 ^ 32"
  shows "\<exists>q'. add_to_queue buf q = Inr q' \<and> rq_inv q' \<and> rq_contents q' = rq_contents q @ buf"
proof -
  have "rq_entry buf" using assms(2) by (simp add: rq_entry_def)
  with add_to_queue_ok [OF assms] add_to_queue_success [OF assms(1)] show ?thesis by blast
qed

theorem add_to_queue_appends_witness:
  "\<exists>q'. add_to_queue [5, 6] rq_empty = Inr q' \<and> rq_contents q' = [5, 6]"
proof -
  have "rq_inv rq_empty" "rq_contents rq_empty = []"
    by (simp_all add: rq_inv_def rq_empty_def rq_contents_def)
  with add_to_queue_appends [of rq_empty "[5, 6]"] show ?thesis by (auto simp: rq_empty_def)
qed

end
