(* ===== verification/Receiver.thy ===== *)
theory Receiver
  imports Nrf Recv_Sender
begin

text \<open>
  \<open>receive/receiver.c\<close> with the parts of \<open>receive/helper.c\<close> it includes, and
  \<open>receive/fake-receiver.c\<close>: the interrupt handler that reads a packet from the chip and
  queues it behind the channel byte, the blinking of the LED, the check that ends the
  process when nothing is received, the start-up, and the generator of test packets. A
  received packet is shown to be queued unchanged.
\<close>

section \<open>The LED\<close>

text \<open>
  The statics of \<open>blink_led\<close>, and what was written to the LED pin. \<open>bool\<close> is
  \<open>unsigned char\<close>, so \<open>~\<close> flips between 0 and 255.
\<close>

record blinker =
  led_last_time :: int
  led :: uchar
  led_out :: "int list"

definition elapsed_ms :: "int \<times> int \<Rightarrow> int \<times> int \<Rightarrow> int res" where
  "elapsed_ms begin_tv now =
     bindR (c_int (snd now - snd begin_tv)) (\<lambda>du.
     bindR (c_int (fst now - fst begin_tv)) (\<lambda>ds.
     bindR (c_int (ds * 1000)) (\<lambda>ms. c_int (c_div du 1000 + ms))))"

definition blink_led :: "conf \<Rightarrow> int \<times> int \<Rightarrow> int \<times> int \<Rightarrow> blinker \<Rightarrow> blinker res" where
  "blink_led cs begin_tv now l =
     bindR (elapsed_ms begin_tv now) (\<lambda>total_time.
     bindR (c_int (total_time - led_last_time l)) (\<lambda>d.
       if d > config_int cs ''led.blink_interval''
       then Inr \<lparr>led_last_time = total_time, led = NOT (led l), led_out = led_out l @ [uint (NOT (led l))]\<rparr>
       else Inr l))"

section \<open>The interrupt handler\<close>

record receiver =
  drv :: nrf
  rxq :: rqueue
  nrf_is_working :: bool
  blinker :: blinker

text \<open>
  \<open>busy\<close>: the handler is running already. \<open>junk\<close> is the content of the array on the stack
  behind its first byte, \<open>BUF_SIZE\<close> bytes that the chip is sent while it returns the packet.
\<close>

definition on_irq :: "dev \<Rightarrow> conf \<Rightarrow> bool \<Rightarrow> uchar list \<Rightarrow> int \<times> int \<Rightarrow> int \<times> int \<Rightarrow> receiver \<Rightarrow> receiver res" where
  "on_irq d cs busy junk begin_tv now r =
     (if busy then Inr r
      else let channel = current_channel (drv r) in
        bindR (nRF24L01_RxPacket d junk (drv r)) (\<lambda>(flag, payload, s).
          if flag then
            bindR (add_to_queue (channel # payload) (rxq r)) (\<lambda>q.
            bindR (blink_led cs begin_tv now (blinker r)) (\<lambda>l.
              Inr (r\<lparr>drv := s, rxq := q, nrf_is_working := True, blinker := l\<rparr>)))
          else Inr (r\<lparr>drv := s\<rparr>)))"

section \<open>Start-up and the working check\<close>

text \<open>
  One round of \<open>cron_check_nrf_working\<close> after its sleep: whether the thread goes on, and the
  flag; when it does not, the process restarts itself.
\<close>

definition check_nrf_working :: "conf \<Rightarrow> bool \<Rightarrow> (bool \<times> bool) res" where
  "check_nrf_working cs working =
     (if config_int cs ''nrf.check_working_interval'' < 1 then Inl Exited
      else if \<not> working then Inr (False, working) else Inr (True, False))"

text \<open>The pins of \<open>load_global_configs\<close>, in its order.\<close>

record pins =
  IRQ_PIN :: int
  CSN_PIN :: int
  CE_PIN :: int
  LED_PIN :: int
  LED2_PIN :: int

definition load_pins :: "conf \<Rightarrow> pins" where
  "load_pins cs = \<lparr>IRQ_PIN = config_int cs ''pin.IRQ'', CSN_PIN = config_int cs ''pin.CSN'',
     CE_PIN = config_int cs ''pin.CE'', LED_PIN = config_int cs ''pin.LED'', LED2_PIN = config_int cs ''pin.LED2''\<rparr>"

text \<open>The addresses and their widths; a malformed one is NULL with width 0.\<close>

definition load_addresses :: "conf \<Rightarrow> nrf \<Rightarrow> nrf" where
  "load_addresses cs s =
     (let (tw, t) = load_hex_config (get_config cs ''nrf.TX_ADDRESS'');
          (rw, r) = load_hex_config (get_config cs ''nrf.RX_ADDRESS'')
      in s\<lparr>TX_ADR_WIDTH := int tw, TX_ADDRESS := (case t of None \<Rightarrow> [] | Some b \<Rightarrow> b),
           RX_ADR_WIDTH := int rw, RX_ADDRESS := (case r of None \<Rightarrow> [] | Some b \<Rightarrow> b)\<rparr>)"

text \<open>The calls to the GPIO library \<open>common_init\<close> makes, once set up as root.\<close>

datatype gpio = Pin_Output int | Pin_Input int | Write int int | Pull_Up int | Isr_Falling int | Spi_Setup int int

definition common_init :: "conf \<Rightarrow> bool \<Rightarrow> bool \<Rightarrow> bool \<Rightarrow> nrf \<Rightarrow> (gpio list \<times> nrf) res" where
  "common_init cs is_root gpio_ok spi_ok s =
     (let p = load_pins cs; s1 = load_addresses cs s in
      if \<not> is_root then Inl Exited
      else if \<not> gpio_ok then Inl Exited
      else let ops = [Pin_Output (CE_PIN p), Pin_Output (CSN_PIN p), Pin_Output (LED_PIN p), Write (LED_PIN p) 0,
                      Pin_Output (LED2_PIN p), Write (LED2_PIN p) 0, Pin_Input (IRQ_PIN p), Pull_Up (IRQ_PIN p),
                      Isr_Falling (IRQ_PIN p),
                      Spi_Setup (config_int cs ''spi.channel'') (config_int cs ''spi.speed'')]
           in if spi_ok then Inr (ops, s1) else Inl Exited)"

section \<open>Test packets\<close>

text \<open>
  The packet of \<open>fake-receiver\<close>, of \<open>BUF_SIZE\<close> bytes: a first byte 1, a counting pattern, and
  the exclusive or of the others last.
\<close>

definition fake_body :: "nat \<Rightarrow> uchar list" where
  "fake_body n = 1 # map (\<lambda>i. word_of_nat (i - 1)) [1..<n - 1]"

definition fake_packet :: "int \<Rightarrow> uchar list res" where
  "fake_packet n =
     (if n < 1 then Inl Out_Of_Bounds
      else if n = 1 then Inr [0]
      else Inr (fake_body (nat n) @ [fold (\<lambda>b x. x XOR b) (fake_body (nat n)) 0]))"

lemma elapsed_ms_bounds: "elapsed_ms b n = Inr t \<Longrightarrow> int_min \<le> t \<and> t \<le> int_max"
  by (auto simp: elapsed_ms_def c_int_Inr_iff)

section \<open>Properties\<close>

text \<open>
  C40: the addresses the configuration gives are loaded with the widths the driver later passes
  for them, and the widths fit the byte the SPI functions take, whatever the settings say; a
  malformed address counts as an empty one.
\<close>

theorem load_addresses_widths:
  assumes "length (get_config cs ''nrf.TX_ADDRESS'') \<le> MAX_STRLEN" "length (get_config cs ''nrf.RX_ADDRESS'') \<le> MAX_STRLEN"
  shows "widths_ok (load_addresses cs s)"
proof -
  have l: "case load_hex_config a of (n, b) \<Rightarrow> length (case b of None \<Rightarrow> [] | Some v \<Rightarrow> v) = n \<and> n < 256"
    if "length a \<le> MAX_STRLEN" for a
    using that by (auto simp: load_hex_config_def Let_def MAX_STRLEN_def split: list.split)
  show ?thesis
    using l [OF assms(1)] l [OF assms(2)] by (auto simp: load_addresses_def widths_ok_def Let_def split_def)
qed

theorem load_addresses_widths_witness:
  "widths_ok (load_addresses [(''nrf.TX_ADDRESS'', ''0x0102030''), (''nrf.RX_ADDRESS'', ''0xe7e7e7'')] test_nrf)"
proof -
  let ?cs = "[(''nrf.TX_ADDRESS'', ''0x0102030''), (''nrf.RX_ADDRESS'', ''0xe7e7e7'')] :: conf"
  have "length (get_config ?cs ''nrf.TX_ADDRESS'') \<le> MAX_STRLEN" "length (get_config ?cs ''nrf.RX_ADDRESS'') \<le> MAX_STRLEN"
    by code_simp+
  then show ?thesis by (rule load_addresses_widths)
qed

text \<open>
  C12: an interrupt with a packet waiting queues exactly one packet: the channel the driver was
  on, followed by the bytes the chip returned for the payload, and the receiver is marked
  as working.
\<close>

theorem on_irq_queues:
  assumes "at_rest (bus (drv r))" "unat (uc (RX_PLOAD_WIDTH (drv r))) = length junk" "dev_ok d"
    and "hd (d (bus (drv r) @ [CE 0, CSN 0, Spi [STATUS]]) [0xCC]) AND 0x40 \<noteq> 0"
    and "rq_inv (rxq r)" "on_irq d cs False junk begin_tv now r = Inr r'"
  shows "rq_contents (rxq r') =
      rq_contents (rxq r) @ current_channel (drv r) # d (payload_point (bus (drv r))) junk \<and>
    rq_inv (rxq r') \<and> nrf_is_working r' \<and> at_rest (bus (drv r'))"
proof -
  let ?p = "d (payload_point (bus (drv r))) junk"
  obtain b where b: "nRF24L01_RxPacket d junk (drv r) = Inr (True, ?p, drv r\<lparr>bus := b\<rparr>)" "at_rest b"
    using RxPacket_result [OF assms(1,2) refl, of d] assms(4) by auto
  obtain q l where q: "add_to_queue (current_channel (drv r) # ?p) (rxq r) = Inr q"
    and r': "r' = r\<lparr>drv := drv r\<lparr>bus := b\<rparr>, rxq := q, nrf_is_working := True, blinker := l\<rparr>"
    using assms(6) b(1) by (auto simp: on_irq_def Let_def)
  have "unat (uc (RX_PLOAD_WIDTH (drv r))) < 2 ^ LENGTH(8)" by (rule unsigned_less)
  then have "length junk < 256" using assms(2) by simp
  then have "rq_entry (current_channel (drv r) # ?p)" using assms(3) by (simp add: rq_entry_def dev_ok_def)
  from add_to_queue_success [OF assms(5) this q] r' b(2) show ?thesis by simp
qed

definition test_receiver :: receiver where
  "test_receiver = \<lparr>drv = test_nrf\<lparr>RX_PLOAD_WIDTH := 2\<rparr>, rxq = rq_empty, nrf_is_working = False,
     blinker = \<lparr>led_last_time = 0, led = 0, led_out = []\<rparr>\<rparr>"

theorem on_irq_queues_witness:
  "\<exists>r'. on_irq test_chip [] False [0, 0] (0, 0) (1, 0) test_receiver = Inr r' \<and>
     rq_contents (rxq r') = [50, 7, 7] \<and> nrf_is_working r'"
proof -
  have "map_sum id (\<lambda>_. ()) (on_irq test_chip [] False [0, 0] (0, 0) (1, 0) test_receiver) = Inr ()" by code_simp
  then obtain r' where r': "on_irq test_chip [] False [0, 0] (0, 0) (1, 0) test_receiver = Inr r'"
    by (cases "on_irq test_chip [] False [0, 0] (0, 0) (1, 0) test_receiver") simp_all
  have "at_rest (bus (drv test_receiver))" "unat (uc (RX_PLOAD_WIDTH (drv test_receiver))) = length [0, 0 :: uchar]"
    "dev_ok test_chip" "rq_inv (rxq test_receiver)"
    "hd (test_chip (bus (drv test_receiver) @ [CE 0, CSN 0, Spi [STATUS]]) [0xCC]) AND 0x40 \<noteq> 0"
    by (simp_all add: test_receiver_def test_nrf_def test_chip_def dev_ok_def rq_inv_def rq_empty_def)
  from on_irq_queues [OF this(1-3) this(5,4) r'] r' show ?thesis
    by (auto simp: test_receiver_def test_nrf_def test_chip_def payload_point_def rq_contents_def rq_empty_def)
qed

end
