(* ===== verification/End_To_End.thy ===== *)
theory End_To_End
  imports Merger_Spec Receiver
begin

text \<open>
  The two programs together: what the sender thread of a receiver sent on a connection, read
  by the server loop of the merger. The packets the interrupt handler queued arrive one by
  one, the heartbeats between them change nothing, and the histories of the students grow by
  exactly the detections sent.
\<close>

section \<open>Heartbeats are zero\<close>

definition beats_zero :: "rx \<Rightarrow> bool" where
  "beats_zero t \<longleftrightarrow> (\<forall>(h, b)\<in>set (out t). h \<longrightarrow> list_all (\<lambda>x. x = 0) b) \<and>
     (\<not> lastok (snd_state t) \<longrightarrow> beat t \<longrightarrow> list_all (\<lambda>x. x = 0) (sendbuf (snd_state t)))"

lemma next_batch_beat:
  "next_batch schar cs env s q = Inr (s1, q1) \<Longrightarrow> rq_len q = 0 \<Longrightarrow> list_all (\<lambda>x. x = 0) (sendbuf s1)"
  by (auto simp: next_batch_def list_all_iff split: if_splits)

lemma cron_rx_beats:
  assumes inv: "rx_inv t" and z: "beats_zero t" and c: "cron_rx schar cs cenv env n t = Inr t'"
  shows "beats_zero t'"
proof (cases "label t")
  case Connect
  then obtain ok s where t: "try_connect schar cs cenv (snd_state t) = Inr (ok, s)"
    and t': "t' = t\<lparr>label := (if ok then Send else Connect), snd_state := s, beat := beat_after t\<rparr>"
    using c by (auto simp: cron_rx_def cron_step_def split: if_splits)
  from try_connect_cases [OF t] z t' Connect show ?thesis by (auto simp: beats_zero_def beat_after_def)
next
  case Send
  obtain s1 q where b: "(if lastok (snd_state t) then next_batch schar cs env (snd_state t) (rqq t)
        else Inr (snd_state t, rqq t)) = Inr (s1, q)"
    and t': "t' = t\<lparr>label := (if n < sendlen s1 then Connect else Send),
       snd_state := (if n < sendlen s1 then s1\<lparr>lastok := False, sockfd := - 1\<rparr> else s1\<lparr>lastok := True\<rparr>),
       rqq := q, beat := beat_after t,
       out := (if n < sendlen s1 then out t else out t @ [(beat_after t, take (nat n) (sendbuf s1))])\<rparr>"
    by (rule cron_rx_send [OF Send c])
  have "beat_after t \<longrightarrow> list_all (\<lambda>x. x = 0) (sendbuf s1)"
  proof (cases "lastok (snd_state t)")
    case True
    with b next_batch_beat [of schar cs env "snd_state t" "rqq t" s1 q] Send show ?thesis
      by (simp add: beat_after_def)
  next
    case False
    with b z Send show ?thesis by (simp add: beat_after_def beats_zero_def)
  qed
  then show ?thesis using z t' by (auto simp: beats_zero_def list_all_iff dest: in_set_takeD)
qed

lemma rx_reach_beats: "rx_reach schar E C t \<Longrightarrow> beats_zero t"
proof (induction rule: rx_invariant)
  case start
  show ?case by (simp add: beats_zero_def init_rx_def init_rsender_def)
next
  case (Add t buf q)
  then show ?case by (simp add: beats_zero_def)
next
  case (Cron t cs cenv env n t')
  then show ?case using cron_rx_beats by blast
qed

section \<open>Cutting a stream into packets\<close>

lemma zero_chop:
  assumes "list_all (\<lambda>x. x = 0) b"
  shows "filter (is_detection cs) (chop P b) = []"
proof -
  have "\<not> is_detection cs c" if "c \<in> set (chop P b)" for c
  proof -
    from in_chop [OF that] assms have "c \<noteq> []" "\<forall>x\<in>set c. x = 0" by (auto simp: list_all_iff)
    then show ?thesis by (simp add: is_detection_def list_ex_iff)
  qed
  then show ?thesis by (simp add: filter_empty_conv)
qed

text \<open>The detections in the stream are those in the data: the heartbeats drop out.\<close>

lemma stream_detections:
  assumes "\<forall>(h, b)\<in>set os. P dvd length b \<and> (h \<longrightarrow> list_all (\<lambda>x. x = 0) b)"
  shows "filter (is_detection cs) (chop P (concat (map snd os))) = filter (is_detection cs) (chop P (sent_data os))"
  using assms
proof (induction os)
  case Nil
  then show ?case by (simp add: sent_data_def)
next
  case (Cons hb os)
  obtain h b where hb: "hb = (h, b)" by (cases hb)
  with Cons zero_chop [of b cs P] show ?case
    by (cases h) (simp_all add: sent_data_def chop_append)
qed

section \<open>The server loop on one connection\<close>

text \<open>An iteration in which only connection \<open>i\<close> has input.\<close>

definition readable :: "nat \<Rightarrow> int \<Rightarrow> poll_result" where
  "readable i now = \<lparr>poll_ok = True, pollin = [i = 0, i = 1, False], pollerr = [False, False, False],
     accepted = None, local_ip = [], time_now = now\<rparr>"

lemma msg_iteration_readable:
  assumes "i < 2"
  shows "msg_iteration cs z (readable i now) sv st =
    bindR (read_connection cs z now i sv st) (\<lambda>(err, sv1, st1).
      if err then Inr (Return (- 1) (sv1\<lparr>closed := closed sv1 @ filter (\<lambda>fd. fd \<noteq> - 1) (fds sv1)\<rparr>) st1)
      else Inr (Continue sv1 st1))"
proof -
  have "i = 0 \<or> i = 1" using assms by auto
  then show ?thesis
    by (cases "read_connection cs z now i sv st")
      (auto simp: msg_iteration_def readable_def accept_connection_def)
qed

definition record_packet :: "conf \<Rightarrow> bool \<Rightarrow> uchar list \<times> int \<Rightarrow> gate \<Rightarrow> gate" where
  "record_packet cs a pn g = (if counts cs (fst pn) then detect (sprint_buf (fst pn)) a (snd pn) g else g)"

lemma msg_loop_gate:
  assumes z: "sizes_ok z" "PACKET_SIZE z = int P" "0 < P" and i: "i < 2"
  shows "tracks z g st \<Longrightarrow> clean (sock_in sv (fds sv ! i)) \<Longrightarrow>
    length (pending (sock_in sv (fds sv ! i))) = length ticks * P \<Longrightarrow> list_all c_time ticks \<Longrightarrow>
    msg_loop cs z (map (readable i) ticks) sv st = Inl Exited \<or>
    (\<exists>sv' st'. msg_loop cs z (map (readable i) ticks) sv st = Inr (Continue sv' st') \<and>
       pending (sock_in sv' (fds sv' ! i)) = [] \<and>
       tracks z (fold (record_packet cs (i = 1)) (zip (chop P (pending (sock_in sv (fds sv ! i)))) ticks) g) st')"
proof (induction ticks arbitrary: sv st g)
  case Nil
  then show ?case by simp
next
  case (Cons now ticks)
  let ?fd = "fds sv ! i" and ?data = "pending (sock_in sv (fds sv ! i))"
  let ?p = "take P ?data"
  let ?g = "record_packet cs (i = 1) (?p, now) g"
  have len: "P \<le> length ?data" "1 \<le> PACKET_SIZE z" "?data \<noteq> []"
    using Cons.prems(3) z(2,3) by auto
  obtain rest where rest: "clean rest" "pending rest = drop P ?data" and
    rd: "read_connection cs z now i sv st =
      bindR (if is_detection cs ?p then handle_packet cs z ?p (int i) now st else Inr st)
        (\<lambda>st'. Inr (False, sv\<lparr>sock_in := (sock_in sv)(?fd := rest),
                  receiver_alive := (receiver_alive sv)[i := True]\<rparr>, st'))"
    using read_connection_arrival [OF Cons.prems(2) len(2), of cs now st] len(1) z(2)
    by (auto simp: Let_def)
  let ?sv = "sv\<lparr>sock_in := (sock_in sv)(?fd := rest), receiver_alive := (receiver_alive sv)[i := True]\<rparr>"
  have ib: "int i = of_bool (i = 1)" using i by auto
  have ps: "int (length ?p) = PACKET_SIZE z" and now: "c_time now" "list_all c_time ticks"
    using len(1) z(2) Cons.prems(4) by simp_all
  have ch: "chop P ?data = ?p # chop P (pending rest)"
    using z(3) len(3) rest(2) by (simp add: chop.simps [of P ?data])
  define m where "m = (if is_detection cs ?p then handle_packet cs z ?p (of_bool (i = 1)) now st else Inr st)"
  have it: "msg_iteration cs z (readable i now) sv st = bindR m (\<lambda>st'. Inr (Continue ?sv st'))"
    by (cases m) (simp_all only: msg_iteration_readable [OF i] rd ib m_def [symmetric] bindR.simps prod.case if_False)
  from packet_step [OF Cons.prems(1) z(1) ps now(1), of cs "i = 1", folded m_def] show ?case
  proof (elim disjE exE conjE)
    assume "m = Inl Exited"
    with it show ?thesis by simp
  next
    fix st1
    assume s: "m = Inr st1" and "tracks z (if counts cs ?p then detect (sprint_buf ?p) (i = 1) now g else g) st1"
    then have t: "tracks z ?g st1" by (simp only: record_packet_def fst_conv snd_conv)
    have "clean (sock_in ?sv (fds ?sv ! i))" "pending (sock_in ?sv (fds ?sv ! i)) = pending rest"
      "length (pending rest) = length ticks * P"
      using rest Cons.prems(3) by simp_all
    with Cons.IH [OF t, of ?sv] now(2) it ch s show ?thesis by simp
  qed
qed

text \<open>Packets of one connection append its side to the histories of the students they name.\<close>

lemma hist_record:
  "length ps \<le> length ticks \<Longrightarrow> hist (fold (record_packet cs a) (zip ps ticks) g) k =
    hist g k @ replicate (length (filter (\<lambda>p. counts cs p \<and> sprint_buf p = k) ps)) a"
proof (induction ps arbitrary: ticks g)
  case Nil
  then show ?case by simp
next
  case (Cons p ps)
  then obtain t ts where "ticks = t # ts" by (cases ticks) auto
  with Cons show ?case by (auto simp: record_packet_def detect_def)
qed

lemma filter_counts:
  "filter (is_detection cs) xs = filter (is_detection cs) ys \<Longrightarrow>
    filter (\<lambda>p. counts cs p \<and> Q p) xs = filter (\<lambda>p. counts cs p \<and> Q p) ys"
proof -
  assume eq: "filter (is_detection cs) xs = filter (is_detection cs) ys"
  have "filter (\<lambda>p. counts cs p \<and> Q p) zs = filter (\<lambda>p. counts cs p \<and> Q p) (filter (is_detection cs) zs)" for zs
    by (auto simp: counts_def intro: filter_cong)
  then show ?thesis using eq by metis
qed

end
