(* ===== verification/Delivery.thy ===== *)
theory Delivery
  imports End_To_End "HOL-Library.Sublist"
begin

text \<open>
  Delivery from a receiver to the merger when connections break: the bytes the kernel takes
  of a send that is then counted as failed may arrive, and the batch is sent again on the next
  connection. The wire is the list of the connections with the bytes each carried. Every packet
  that was sent successfully is shown to arrive whole at least once and in order, and nothing
  but received packets to arrive.
\<close>

section \<open>The connections\<close>

text \<open>
  What a pass of the sender thread does on the wire: a connection is opened, or \<open>n\<close> bytes of
  the buffer are taken on the open one.
\<close>

definition wire :: "int \<Rightarrow> rx \<Rightarrow> rx \<Rightarrow> uchar list list \<Rightarrow> uchar list list" where
  "wire n t t' w =
     (case label t of
        Connect \<Rightarrow> (if label t' = Send then w @ [[]] else w)
      | Send \<Rightarrow> butlast w @ [last w @ take (nat n) (sendbuf (snd_state t'))])"

inductive w_reach :: "bool \<Rightarrow> nat \<Rightarrow> rx \<Rightarrow> uchar list list \<Rightarrow> bool" for schar P where
  start: "w_reach schar P init_rx []"
| add: "w_reach schar P t w \<Longrightarrow> packet_buf P buf \<Longrightarrow> rq_entry buf \<Longrightarrow> add_to_queue buf (rqq t) = Inr q \<Longrightarrow>
    unat (rq_len q) < 2 ^ 31 \<Longrightarrow> w_reach schar P (t\<lparr>rqq := q, added := added t @ buf\<rparr>) w"
| cron: "w_reach schar P t w \<Longrightarrow> width_conf P cs \<Longrightarrow> cron_rx schar cs cenv env n t = Inr t' \<Longrightarrow>
    w_reach schar P t' (wire n t t' w)"

lemma w_reach_rx: "w_reach schar P t w \<Longrightarrow> rx_reach schar (packet_buf P) (width_conf P) t"
proof (induction rule: w_reach.induct)
  case start
  show ?case by (rule rx_reach.start)
next
  case (add t w buf q)
  from rx_reach.onward [OF add.IH rx_step.Add [of "packet_buf P", OF add.hyps(2-5)]] show ?case .
next
  case (cron t w cs cenv env n t')
  from rx_reach.onward [OF cron.IH rx_step.Cron [of "width_conf P", OF cron.hyps(2,3)]] show ?case .
qed

section \<open>Whole packets\<close>

text \<open>
  The packets a reader of \<open>P\<close> bytes at a time gets from a connection: a rest shorter than a
  packet is the end of the connection to it.
\<close>

definition whole :: "nat \<Rightarrow> uchar list \<Rightarrow> uchar list list" where
  "whole P xs = filter (\<lambda>p. length p = P) (chop P xs)"

definition arrived :: "conf \<Rightarrow> nat \<Rightarrow> uchar list list \<Rightarrow> uchar list list" where
  "arrived cs P w = filter (is_detection cs) (concat (map (whole P) w))"

definition packets :: "conf \<Rightarrow> nat \<Rightarrow> uchar list \<Rightarrow> uchar list list" where
  "packets cs P xs = filter (is_detection cs) (chop P xs)"

lemma whole_append: "P dvd length a \<Longrightarrow> whole P (a @ b) = whole P a @ whole P b"
  by (simp add: whole_def chop_append)

lemma whole_Nil [simp]: "whole P [] = []"
  by (simp add: whole_def)

lemma packets_Nil [simp]: "packets cs P [] = []"
  by (simp add: packets_def)

lemma packets_append: "P dvd length a \<Longrightarrow> packets cs P (a @ b) = packets cs P a @ packets cs P b"
  by (simp add: packets_def chop_append)

lemma chop_lengths: "n dvd length xs \<Longrightarrow> list_all (\<lambda>p. length p = n) (chop n xs)"
proof (induction n xs rule: chop.induct)
  case (1 n xs)
  show ?case
  proof (cases "n = 0 \<or> xs = []")
    case True
    then show ?thesis by (simp add: chop.simps [of n xs])
  next
    case False
    with "1.prems" have "n \<le> length xs" by (auto intro: dvd_imp_le)
    with 1 False show ?thesis by (simp add: chop.simps [of n xs] dvd_diff_nat)
  qed
qed

lemma whole_aligned: "P dvd length xs \<Longrightarrow> whole P xs = chop P xs"
  using chop_lengths by (auto simp: whole_def list_all_iff intro: filter_True)

lemma whole_short: "length xs < P \<Longrightarrow> whole P xs = []"
  by (simp add: whole_def chop.simps [of P xs])

lemma whole_take:
  assumes "P dvd length b" "0 < P"
  shows "set (whole P (take n b)) \<subseteq> set (chop P b)"
proof (cases "n < length b")
  case False
  with assms show ?thesis by (simp add: whole_aligned)
next
  case True
  let ?k = "P * (n div P)"
  have k: "?k \<le> n" "n - ?k < P" using assms(2) by (simp_all add: minus_mult_div_eq_mod)
  have t: "take n b = take ?k b @ take (n - ?k) (drop ?k b)" using k(1) by (metis le_add_diff_inverse take_add)
  have "?k \<le> length b" by (rule order.trans [OF k(1) less_imp_le [OF True]])
  then have "length (take ?k b) = ?k" by (simp only: length_take min.absorb2)
  then have a: "P dvd length (take ?k b)" by simp
  have "whole P (take n b) = chop P (take ?k b) @ whole P (take (n - ?k) (drop ?k b))"
    unfolding t by (simp only: whole_append [OF a] whole_aligned [OF a])
  also have "whole P (take (n - ?k) (drop ?k b)) = []" using k(2) by (intro whole_short) simp
  finally have "set (whole P (take n b)) = set (chop P (take ?k b))" by simp
  moreover have "chop P b = chop P (take ?k b) @ chop P (drop ?k b)"
    using chop_append [OF a, of "drop ?k b"] by simp
  ultimately show ?thesis by simp
qed

lemma arrived_snoc: "w \<noteq> [] \<Longrightarrow> P dvd length (last w) \<Longrightarrow>
    arrived cs P (butlast w @ [last w @ b]) = arrived cs P w @ filter (is_detection cs) (whole P b)"
proof -
  assume w: "w \<noteq> []" "P dvd length (last w)"
  then have "arrived cs P w = arrived cs P (butlast w) @ filter (is_detection cs) (whole P (last w))"
    by (subst append_butlast_last_id [OF w(1), symmetric]) (simp add: arrived_def del: append_butlast_last_id)
  with w(2) show ?thesis by (simp add: arrived_def whole_append)
qed

section \<open>The invariant\<close>

definition w_inv :: "conf \<Rightarrow> nat \<Rightarrow> rx \<Rightarrow> uchar list list \<Rightarrow> bool" where
  "w_inv cs P t w \<longleftrightarrow> (label t = Send \<longrightarrow> w \<noteq> [] \<and> P dvd length (last w)) \<and>
     subseq (packets cs P (sent_data (out t))) (arrived cs P w) \<and>
     set (arrived cs P w) \<subseteq> set (packets cs P (added t))"

lemma sent_aligned:
  assumes "aligned P t"
  shows "P dvd length (sent_data (out t))"
proof -
  have "\<forall>(h, b)\<in>set os. P dvd length b \<Longrightarrow> P dvd length (sent_data os)" for os
    by (induction os) (auto simp: sent_data_def)
  with assms show ?thesis by (simp add: aligned_def)
qed

lemma send_w_inv:
  assumes P: "0 < P" and inv: "rx_inv t" and al: "aligned P t" "aligned P t'" and bz: "beats_zero t'"
    and w: "w_inv cs P t w" and l: "label t = Send" and c: "cron_rx schar cs1 cenv env n t = Inr t'"
    and cs: "width_conf P cs1"
  shows "w_inv cs P t' (wire n t t' w)"
proof -
  obtain s1 q where b: "(if lastok (snd_state t) then next_batch schar cs1 env (snd_state t) (rqq t)
        else Inr (snd_state t, rqq t)) = Inr (s1, q)"
    and t': "t' = t\<lparr>label := (if n < sendlen s1 then Connect else Send),
       snd_state := (if n < sendlen s1 then s1\<lparr>lastok := False, sockfd := - 1\<rparr> else s1\<lparr>lastok := True\<rparr>),
       rqq := q, beat := beat_after t,
       out := (if n < sendlen s1 then out t else out t @ [(beat_after t, take (nat n) (sendbuf s1))])\<rparr>"
    by (rule cron_rx_send [OF l c])
  note sb = send_batch [OF inv l b]
  let ?b = "sendbuf s1" and ?a = "filter (is_detection cs) (whole P (take (nat n) (sendbuf s1)))"
  have full: "\<not> n < sendlen s1 \<Longrightarrow> take (nat n) ?b = ?b" using sb(1) by simp
  have div: "P dvd length ?b"
    using al(2) t' full by (cases "n < sendlen s1") (auto simp: aligned_def)
  have zero: "beat_after t \<Longrightarrow> list_all (\<lambda>x. x = 0) ?b"
    using bz t' full by (cases "n < sendlen s1") (auto simp: beats_zero_def)
  have open1: "w \<noteq> []" "P dvd length (last w)" and sub: "subseq (packets cs P (sent_data (out t))) (arrived cs P w)"
    and new: "set (arrived cs P w) \<subseteq> set (packets cs P (added t))"
    using w l by (simp_all add: w_inv_def)
  have ws: "wire n t t' w = butlast w @ [last w @ take (nat n) ?b]"
    using l t' by (simp add: wire_def)
  have arr: "arrived cs P (wire n t t' w) = arrived cs P w @ ?a"
    unfolding ws by (rule arrived_snoc [OF open1])
  have a_sub: "set ?a \<subseteq> set (packets cs P ?b)"
    using whole_take [OF div P, of "nat n"] by (auto simp: packets_def)
  have a_new: "set ?a \<subseteq> set (packets cs P (added t))"
  proof (cases "beat_after t")
    case True
    with a_sub zero_chop [OF zero] show ?thesis by (simp add: packets_def)
  next
    case False
    have "packets cs P (added t) = packets cs P (sent_data (out t)) @ packets cs P ?b @ packets cs P (rq_contents q)"
      using sb(5) False packets_append [OF sent_aligned [OF al(1)]] packets_append [OF div] by simp
    with a_sub show ?thesis by auto
  qed
  have out: "subseq (packets cs P (sent_data (out t'))) (arrived cs P w @ ?a)"
  proof (cases "n < sendlen s1")
    case True
    with t' sub show ?thesis by (simp add: subseq_rev_drop_many)
  next
    case False
    have "packets cs P (sent_data (out t')) =
        packets cs P (sent_data (out t)) @ (if beat_after t then [] else packets cs P ?b)"
      using t' False full packets_append [OF sent_aligned [OF al(1)]] by simp
    moreover have "?a = packets cs P ?b" using full [OF False] whole_aligned [OF div] by (simp add: packets_def)
    ultimately show ?thesis using sub zero_chop [OF zero] by (auto simp: packets_def intro: list_emb_append_mono)
  qed
  have "label t' = Send \<longrightarrow> P dvd length (last (wire n t t' w))"
    unfolding ws using t' full div open1(2) by (cases "n < sendlen s1") simp_all
  moreover have "wire n t t' w \<noteq> []" by (simp add: ws)
  moreover have "set (arrived cs P w) \<union> set ?a \<subseteq> set (packets cs P (added t'))" using new a_new t' by simp
  ultimately show ?thesis using out arr by (simp add: w_inv_def)
qed

lemma connect_w_inv:
  assumes l: "label t = Connect" and w: "w_inv cs P t w" and c: "cron_rx schar cs1 cenv env n t = Inr t'"
  shows "w_inv cs P t' (wire n t t' w)"
proof -
  obtain ok s where "try_connect schar cs1 cenv (snd_state t) = Inr (ok, s)"
    and t': "t' = t\<lparr>label := (if ok then Send else Connect), snd_state := s, beat := beat_after t\<rparr>"
    using c l by (auto simp: cron_rx_def cron_step_def split: if_splits)
  with w l show ?thesis by (auto simp: w_inv_def wire_def arrived_def)
qed

lemma w_reach_inv: "w_reach schar P t w \<Longrightarrow> 0 < P \<Longrightarrow> w_inv cs P t w"
proof (induction rule: w_reach.induct)
  case start
  show ?case by (simp add: w_inv_def init_rx_def sent_data_def packets_def arrived_def)
next
  case (add t w buf q)
  note r = w_reach_rx [OF add.hyps(1)]
  have "P dvd length (added t)"
    using rx_reach_inv [OF r] rx_reach_aligned [OF r] sent_aligned [OF rx_reach_aligned [OF r]]
    by (auto simp: rx_inv_def aligned_def retry_data_def)
  with add show ?case by (auto simp: w_inv_def packets_append)
next
  case (cron t w cs1 cenv env n t')
  note r = w_reach_rx [OF cron.hyps(1)] and r' = w_reach_rx [OF w_reach.cron [OF cron.hyps]]
  from cron.IH [OF cron.prems] have w: "w_inv cs P t w" .
  show ?case
  proof (cases "label t")
    case Connect
    from connect_w_inv [OF this w cron.hyps(3)] show ?thesis .
  next
    case Send
    from send_w_inv [OF cron.prems rx_reach_inv [OF r] rx_reach_aligned [OF r] rx_reach_aligned [OF r']
        rx_reach_beats [OF r'] w this cron.hyps(3,2)] show ?thesis .
  qed
qed

section \<open>Properties\<close>



end
