(* ===== verification/Merger_Sender.thy ===== *)
theory Merger_Sender
  imports Merger_Timeout Http "HOL-Library.Multiset"
begin

text \<open>
  \<open>merger/sender.c\<close>: the thread that takes notifications from the tail of the queue and
  posts them to the cloud, repeating a batch until the cloud accepts it. The operations are
  the code between two points where another thread can act: the unlocked check of the queue
  length, the locked extraction and the request. The step relation interleaves them with
  \<open>notify\<close>; its invariant says that no request is lost, duplicated or cut in two.
\<close>

section \<open>The operations\<close>

text \<open>The static variables of \<open>commit_notify_queue\<close> and \<open>check_heartbeat\<close>.\<close>

record sender =
  send_buf :: "string option"
  send_len :: int
  last_time :: int

definition init_send :: sender where
  "init_send = \<lparr>send_buf = None, send_len = 0, last_time = 0\<rparr>"

text \<open>
  The part before the lock: \<open>None\<close> when there is nothing to send, otherwise \<open>send_len\<close>, where
  0 stands for the whole queue. A long queue is reported first; the result of the report is
  not looked at.
\<close>

definition choose_len :: "bool \<Rightarrow> conf \<Rightarrow> http_env \<Rightarrow> int \<Rightarrow> int option res" where
  "choose_len schar cs env notify_queue_len =
     (if notify_queue_len = 0 then Inr None
      else if notify_queue_len > config_int cs ''http.max_data_len'' then
        bindR (report_it_now schar cs env
                 (''Notify queue too long ('' @ dec_string (nat notify_queue_len) @ '' bytes)''))
          (\<lambda>_. Inr (Some (config_int cs ''http.max_data_len'')))
      else Inr (Some 0))"

text \<open>
  The part under the lock. \<open>safe_malloc\<close> of a negative size exits, \<open>memcpy\<close> of a negative
  size or from before the queue is out of bounds, as is reading a byte never written.
\<close>

definition take_tail :: "int \<Rightarrow> nqueue \<Rightarrow> (string \<times> int \<times> nqueue) res" where
  "take_tail len0 q =
     (let len = if len0 = 0 then nq_len q else len0 in
      bindR (c_int (len + 1)) (\<lambda>n.
      bindR (checkR (0 \<le> n) Exited) (\<lambda>_.
      bindR (checkR (0 \<le> len \<and> len \<le> nq_len q) Out_Of_Bounds) (\<lambda>_.
      bindR (read_at (nat (nq_len q - len)) (nat len) (nq_buf q)) (\<lambda>cells.
      bindR (checkR (list_all (\<lambda>c. c \<noteq> None) cells) Out_Of_Bounds) (\<lambda>_.
        Inr (map the cells, len, q\<lparr>nq_len := nq_len q - len\<rparr>)))))))"

text \<open>The part at the label \<open>send\<close>.\<close>

definition send_commit :: "bool \<Rightarrow> conf \<Rightarrow> http_env \<Rightarrow> sender \<Rightarrow> sender res" where
  "send_commit schar cs env sd =
     (case send_buf sd of
        None \<Rightarrow> Inl Bad_Pointer
      | Some b \<Rightarrow>
          bindR (cloud_send schar cs env (get_config cs ''paths.upload'') (cstr b)) (\<lambda>(received_bytes, recv_buf).
            case recv_buf of
              None \<Rightarrow> Inr sd
            | Some r \<Rightarrow>
                if received_bytes > 0 \<and> strncmp_eq (nat received_bytes) (cstr r) (get_config cs ''cloud.ok_response'')
                then Inr (sd\<lparr>send_buf := None\<rparr>)
                else Inr sd))"

text \<open>A call during which no other thread acts.\<close>

definition commit_notify_queue ::
  "bool \<Rightarrow> conf \<Rightarrow> http_env \<Rightarrow> http_env \<Rightarrow> sender \<Rightarrow> nqueue \<Rightarrow> (sender \<times> nqueue) res" where
  "commit_notify_queue schar cs env_report env sd q =
     (case send_buf sd of
        Some b \<Rightarrow> bindR (send_commit schar cs env sd) (\<lambda>sd'. Inr (sd', q))
      | None \<Rightarrow>
          bindR (choose_len schar cs env_report (nq_len q)) (\<lambda>choice.
            case choice of
              None \<Rightarrow> Inr (sd, q)
            | Some len \<Rightarrow>
                bindR (take_tail len q) (\<lambda>(b, sl, q').
                bindR (send_commit schar cs env (sd\<lparr>send_buf := Some b, send_len := sl\<rparr>)) (\<lambda>sd'.
                  Inr (sd', q')))))"

definition check_heartbeat :: "conf \<Rightarrow> int \<Rightarrow> sender \<Rightarrow> (bool \<times> sender) res" where
  "check_heartbeat cs now sd =
     bindR (c_int (now - last_time sd)) (\<lambda>d.
       let should_send = d > config_int cs ''cloud.heartbeat_interval''
       in Inr (should_send, if should_send then sd\<lparr>last_time := now\<rparr> else sd))"

definition send_heartbeat :: "bool \<Rightarrow> conf \<Rightarrow> http_env \<Rightarrow> unit res" where
  "send_heartbeat schar cs env =
     bindR (cloud_send schar cs env (get_config cs ''paths.heartbeat'') '''') (\<lambda>_. Inr ())"

text \<open>One round of \<open>init_sender\<close>; the settings are those in force at the round.\<close>

definition sender_round ::
  "bool \<Rightarrow> conf \<Rightarrow> http_env \<Rightarrow> http_env \<Rightarrow> http_env \<Rightarrow> int \<Rightarrow> sender \<Rightarrow> nqueue \<Rightarrow> (sender \<times> nqueue) res" where
  "sender_round schar cs env_report env env_beat now sd q =
     bindR (commit_notify_queue schar cs env_report env sd q) (\<lambda>(sd1, q1).
     bindR (check_heartbeat cs now sd1) (\<lambda>(beat, sd2).
     bindR (if beat then send_heartbeat schar cs env_beat else Inr ()) (\<lambda>_.
       Inr (sd2, q1))))"

section \<open>The extraction\<close>

lemma take_tail_ok:
  assumes q: "nq_inv q" and len: "len0 = 0 \<or> (0 < len0 \<and> len0 \<le> nq_len q)" "nq_len q < int_max"
  obtains b len q' where "take_tail len0 q = Inr (b, len, q')" "len = (if len0 = 0 then nq_len q else len0)"
    "nq_inv q'" "nq_contents q = nq_contents q' @ b" "int (length b) = len" "nq_len q' = nq_len q - len"
proof -
  define len where "len = (if len0 = 0 then nq_len q else len0)"
  have l: "0 \<le> len" "len \<le> nq_len q" "len + 1 \<le> int_max" using q len by (auto simp: len_def nq_inv_def)
  have bounds: "0 \<le> nq_len q" "nq_len q \<le> nq_alloc q" "length (nq_buf q) = nat (nq_alloc q)"
    "list_all (\<lambda>c. c \<noteq> None) (take (nat (nq_len q)) (nq_buf q))" using q by (simp_all add: nq_inv_def)
  define i where "i = nat (nq_len q - len)"
  have i: "i + nat len = nat (nq_len q)" using l by (simp add: i_def nat_diff_distrib)
  have fit: "i + nat len \<le> length (nq_buf q)" using i bounds by simp
  let ?cells = "take (nat len) (drop i (nq_buf q))"
  have split: "take (nat (nq_len q)) (nq_buf q) = take i (nq_buf q) @ ?cells"
    by (simp only: i [symmetric] take_add)
  have all: "list_all (\<lambda>c. c \<noteq> None) ?cells" "list_all (\<lambda>c. c \<noteq> None) (take i (nq_buf q))"
    using bounds(4) unfolding split by simp_all
  let ?q = "q\<lparr>nq_len := nq_len q - len\<rparr>"
  have c: "c_int (len + 1) = Inr (len + 1)" using l by (intro c_int_ok) (auto simp: int_min_def)
  have "take_tail len0 q = Inr (map the ?cells, len, ?q)"
    using fit l all(1) c by (simp add: take_tail_def Let_def len_def [symmetric] read_at_def i_def [symmetric])
  moreover have "nq_inv ?q" using l bounds all(2) by (simp add: nq_inv_def i_def [symmetric])
  moreover have "nq_contents q = nq_contents ?q @ map the ?cells"
    using split by (simp add: nq_contents_def i_def [symmetric])
  moreover have "int (length (map the ?cells)) = len" using fit l(1) by simp
  ultimately show thesis using that len_def by simp
qed

lemma notify_alloc: "notify z sid action q = Inr q' \<Longrightarrow> nq_alloc q < int_max \<Longrightarrow> nq_alloc q' < int_max"
proof -
  assume n: "notify z sid action q = Inr q'" "nq_alloc q < int_max"
  have "x * 2 + y * 2 \<noteq> (2147483647 :: int)" for x y by presburger
  with n show ?thesis
    by (auto simp: notify_def c_int_Inr_iff int_max_def less_le split: if_splits)
qed

section \<open>Interleaving with the thread that notifies\<close>

datatype pc = Idle | Want_Lock | Sending

text \<open>
  The queue, the sender and where it is; \<open>told\<close> and \<open>acked\<close> record the requests queued so
  far and the batches the cloud accepted.
\<close>

record sys =
  sq :: nqueue
  sd :: sender
  pc :: pc
  told :: "string list"
  acked :: "string list"

definition init_sys :: sys where
  "init_sys = \<lparr>sq = nq_empty, sd = init_send, pc = Idle, told = [], acked = []\<rparr>"

inductive sys_step :: "bool \<Rightarrow> conf \<Rightarrow> sizes \<Rightarrow> sys \<Rightarrow> sys \<Rightarrow> bool" for schar cs z where
  Notify: "int (length sid) = ID_SIZE z \<Longrightarrow> notify z sid action (sq s) = Inr q \<Longrightarrow>
    sys_step schar cs z s (s\<lparr>sq := q, told := told s @ [request sid action]\<rparr>)"
| Resend: "pc s = Idle \<Longrightarrow> send_buf (sd s) \<noteq> None \<Longrightarrow> sys_step schar cs z s (s\<lparr>pc := Sending\<rparr>)"
| Choose: "pc s = Idle \<Longrightarrow> send_buf (sd s) = None \<Longrightarrow>
    choose_len schar cs env (nq_len (sq s)) = Inr (Some len) \<Longrightarrow>
    sys_step schar cs z s (s\<lparr>pc := Want_Lock, sd := (sd s)\<lparr>send_len := len\<rparr>\<rparr>)"
| Extract: "pc s = Want_Lock \<Longrightarrow> take_tail (send_len (sd s)) (sq s) = Inr (b, len, q) \<Longrightarrow>
    sys_step schar cs z s
      (s\<lparr>pc := Sending, sq := q, sd := (sd s)\<lparr>send_buf := Some b, send_len := len\<rparr>\<rparr>)"
| Send: "pc s = Sending \<Longrightarrow> send_buf (sd s) = Some b \<Longrightarrow> send_commit schar cs env (sd s) = Inr d \<Longrightarrow>
    sys_step schar cs z s
      (s\<lparr>pc := Idle, sd := d, acked := (if send_buf d = None then acked s @ [b] else acked s)\<rparr>)"

inductive sys_reach :: "bool \<Rightarrow> conf \<Rightarrow> sizes \<Rightarrow> sys \<Rightarrow> bool" for schar cs z where
  start: "sys_reach schar cs z init_sys"
| onward: "sys_reach schar cs z s \<Longrightarrow> sys_step schar cs z s s' \<Longrightarrow> sys_reach schar cs z s'"

text \<open>The batch size configured is a positive multiple of the request size.\<close>

definition batch_ok :: "conf \<Rightarrow> sizes \<Rightarrow> bool" where
  "batch_ok cs z \<longleftrightarrow> sizes_ok z \<and> 0 < config_int cs ''http.max_data_len'' \<and>
     REQUEST_SIZE z dvd config_int cs ''http.max_data_len''"

definition buf_of :: "sys \<Rightarrow> string" where
  "buf_of s = (case send_buf (sd s) of None \<Rightarrow> [] | Some b \<Rightarrow> b)"

abbreviation rsize :: "sizes \<Rightarrow> nat" where
  "rsize z \<equiv> nat (REQUEST_SIZE z)"

definition sys_inv :: "conf \<Rightarrow> sizes \<Rightarrow> sys \<Rightarrow> bool" where
  "sys_inv cs z s \<longleftrightarrow>
     nq_inv (sq s) \<and> nq_alloc (sq s) < int_max \<and> rsize z dvd length (nq_contents (sq s)) \<and>
     rsize z dvd length (buf_of s) \<and>
     mset (told s) = mset (concat (map (chop (rsize z)) (acked s))) + mset (chop (rsize z) (buf_of s)) +
       mset (chop (rsize z) (nq_contents (sq s))) \<and>
     (pc s = Want_Lock \<longrightarrow> send_buf (sd s) = None \<and>
        (send_len (sd s) = 0 \<or> (send_len (sd s) = config_int cs ''http.max_data_len'' \<and>
           send_len (sd s) \<le> nq_len (sq s)))) \<and>
     (pc s = Sending \<longrightarrow> send_buf (sd s) \<noteq> None)"

lemma length_nq_contents: "nq_inv q \<Longrightarrow> int (length (nq_contents q)) = nq_len q"
  by (auto simp: nq_inv_def nq_contents_def)

lemma rsize_pos: "sizes_ok z \<Longrightarrow> 0 < rsize z"
  by (simp add: sizes_ok_def)

lemma length_request: "sizes_ok z \<Longrightarrow> int (length sid) = ID_SIZE z \<Longrightarrow> length (request sid action) = rsize z"
  by (auto simp: request_def sizes_ok_def)

lemma choose_len_cases:
  assumes "choose_len schar cs env n = Inr (Some len)"
  shows "n \<noteq> 0 \<and> (len = 0 \<or> (len = config_int cs ''http.max_data_len'' \<and> len < n))"
  using assms by (auto simp: choose_len_def split: if_splits)

lemma send_commit_cases:
  assumes "send_commit schar cs env d = Inr d'"
  shows "d' = d \<or> (send_buf d \<noteq> None \<and> d' = d\<lparr>send_buf := None\<rparr>)"
  using assms by (auto simp: send_commit_def split: option.splits if_splits)

lemma want_lock_len:
  assumes "batch_ok cs z" "sys_inv cs z s" "pc s = Want_Lock"
  shows "send_len (sd s) = 0 \<or> (0 < send_len (sd s) \<and> send_len (sd s) \<le> nq_len (sq s))"
    "nq_len (sq s) < int_max"
  using assms by (auto simp: sys_inv_def batch_ok_def nq_inv_def)

lemma notify_step:
  assumes b: "batch_ok cs z" and inv: "sys_inv cs z s" and sid: "int (length sid) = ID_SIZE z"
    and n: "notify z sid action (sq s) = Inr q"
  shows "sys_inv cs z (s\<lparr>sq := q, told := told s @ [request sid action]\<rparr>)"
proof -
  have z: "sizes_ok z" and q: "nq_inv (sq s)" using b inv by (simp_all add: batch_ok_def sys_inv_def)
  from notify_cases [OF q z sid, of action] n have
    q': "nq_inv q" "nq_contents q = nq_contents (sq s) @ request sid action"
    "nq_len q = nq_len (sq s) + REQUEST_SIZE z" by auto
  have d: "rsize z dvd length (nq_contents (sq s))" using inv by (simp add: sys_inv_def)
  have c: "chop (rsize z) (nq_contents q) = chop (rsize z) (nq_contents (sq s)) @ [request sid action]"
    unfolding q'(2) chop_append [OF d]
    by (simp add: chop_single [OF rsize_pos [OF z] length_request [OF z sid]])
  have "nq_alloc q < int_max" using notify_alloc [OF n] inv by (simp add: sys_inv_def)
  moreover have "0 \<le> REQUEST_SIZE z" using z by (simp add: sizes_ok_def)
  ultimately show ?thesis
    using inv q' c length_request [OF z sid, of action] by (auto simp: sys_inv_def buf_of_def)
qed

lemma extract_step:
  assumes b: "batch_ok cs z" and inv: "sys_inv cs z s" and pc: "pc s = Want_Lock"
    and t: "take_tail (send_len (sd s)) (sq s) = Inr (b, len, q)"
  shows "sys_inv cs z (s\<lparr>pc := Sending, sq := q, sd := (sd s)\<lparr>send_buf := Some b, send_len := len\<rparr>\<rparr>)"
proof -
  have z: "sizes_ok z" and q: "nq_inv (sq s)" using b inv by (simp_all add: batch_ok_def sys_inv_def)
  obtain b' len' q' where "take_tail (send_len (sd s)) (sq s) = Inr (b', len', q')"
    and l': "len' = (if send_len (sd s) = 0 then nq_len (sq s) else send_len (sd s))"
    and q': "nq_inv q'" "nq_contents (sq s) = nq_contents q' @ b'" "int (length b') = len'"
    "nq_len q' = nq_len (sq s) - len'"
    using take_tail_ok [OF q want_lock_len [OF b inv pc]] by blast
  with t have e: "b' = b" "len' = len" "q' = q" by simp_all
  have alloc: "nq_alloc q = nq_alloc (sq s)" using t by (auto simp: take_tail_def Let_def)
  have dc: "rsize z dvd length (nq_contents q' @ b')" using inv q'(2) by (simp add: sys_inv_def)
  have "rsize z dvd length b'"
  proof (cases "send_len (sd s) = 0")
    case True
    then have "nq_len q' = 0" using l' q'(4) by simp
    then have "nq_contents q' = []" by (simp add: nq_contents_def)
    with dc show ?thesis by simp
  next
    case False
    then have "len' = config_int cs ''http.max_data_len''" using inv pc l' by (auto simp: sys_inv_def)
    then have "REQUEST_SIZE z dvd int (length b')" using b q'(3) by (simp add: batch_ok_def)
    moreover have "REQUEST_SIZE z = int (rsize z)" using z by (simp add: sizes_ok_def)
    ultimately show ?thesis by (metis int_dvd_int_iff)
  qed
  moreover from this dc have d: "rsize z dvd length (nq_contents q')"
    by (metis dvd_add_left_iff length_append)
  moreover note chop_append [OF d, of b']
  ultimately show ?thesis using inv pc q'(1,2) alloc e by (auto simp: sys_inv_def buf_of_def)
qed

lemma send_step:
  assumes inv: "sys_inv cs z s" and pc: "pc s = Sending" and bf: "send_buf (sd s) = Some b"
    and d: "send_commit schar cs env (sd s) = Inr d"
  shows "sys_inv cs z (s\<lparr>pc := Idle, sd := d, acked := (if send_buf d = None then acked s @ [b] else acked s)\<rparr>)"
  using send_commit_cases [OF d]
proof (elim disjE conjE)
  assume "d = sd s"
  with inv bf show ?thesis by (simp add: sys_inv_def buf_of_def)
next
  assume "d = (sd s)\<lparr>send_buf := None\<rparr>"
  with inv bf show ?thesis by (simp add: sys_inv_def buf_of_def)
qed

lemma sys_step_inv:
  assumes "sys_step schar cs z s s'" "batch_ok cs z" "sys_inv cs z s"
  shows "sys_inv cs z s'"
  using assms
proof (cases rule: sys_step.cases)
  case (Notify sid action q)
  with notify_step [OF assms(2,3) Notify(2,3)] show ?thesis by simp
next
  case Resend
  with assms(3) show ?thesis by (auto simp: sys_inv_def buf_of_def)
next
  case (Choose env len)
  with choose_len_cases [OF Choose(4)] assms(3) show ?thesis by (auto simp: sys_inv_def buf_of_def)
next
  case (Extract b len q)
  with extract_step [OF assms(2,3) Extract(2,3)] show ?thesis by simp
next
  case (Send b env d)
  with send_step [OF assms(3) Send(2,3,4)] show ?thesis by simp
qed

lemma sys_reach_inv: "sys_reach schar cs z s \<Longrightarrow> batch_ok cs z \<Longrightarrow> sys_inv cs z s"
proof (induction rule: sys_reach.induct)
  case start
  then show ?case
    by (simp add: sys_inv_def init_sys_def buf_of_def init_send_def nq_inv_def nq_empty_def nq_contents_def int_max_def)
next
  case (onward s s')
  with sys_step_inv show ?case by blast
qed

lemma cloud_send_size:
  "cloud_send schar cs env path buf = Inr (n, Some r) \<Longrightarrow> n = int (length r)"
  using http_post_size by (fastforce simp: cloud_send_def split: prod.splits if_splits)

section \<open>Properties\<close>

text \<open>
  With a batch size that is a positive multiple of the request size, every request that was
  queued is at any moment in exactly one place, whole and as often as it was queued: in a
  batch the cloud accepted, in the batch being sent, or in the queue; however the
  notifications interleave with the three parts of a commit and whatever the cloud answers.
\<close>

theorem requests_conserved:
  assumes "sys_reach schar cs z s" "batch_ok cs z"
  shows "mset (told s) = mset (concat (map (chop (rsize z)) (acked s))) +
      mset (chop (rsize z) (case send_buf (sd s) of None \<Rightarrow> [] | Some b \<Rightarrow> b)) +
      mset (chop (rsize z) (nq_contents (sq s)))"
  using sys_reach_inv [OF assms] by (simp add: sys_inv_def buf_of_def)

abbreviation (input) small_sizes :: sizes where
  "small_sizes \<equiv> \<lparr>PACKET_SIZE = 1, ID_SIZE = 2, REQUEST_SIZE = 4\<rparr>"

abbreviation (input) small_conf :: conf where
  "small_conf \<equiv> [(''http.max_data_len'', ''8'')]"

lemma small_batch_ok: "batch_ok small_conf small_sizes"
  by code_simp

lemma small_told:
  obtains s where "sys_reach False small_conf small_sizes s" "told s = [''051.'']" "pc s = Want_Lock"
    "nq_contents (sq s) = ''051.''"
proof -
  have q: "nq_inv nq_empty" "sizes_ok small_sizes" "int (length ''05'') = ID_SIZE small_sizes"
    "notify_fits small_sizes nq_empty"
    by (simp_all add: nq_inv_def nq_empty_def sizes_ok_def notify_fits_def int_max_def)
  obtain q1 where q1: "notify small_sizes ''05'' True nq_empty = Inr q1" "nq_contents q1 = ''051.''"
    "nq_len q1 = 4"
    using notify_ok [OF q, of True] by (auto simp: nq_contents_def nq_empty_def request_def)
  let ?s = "init_sys\<lparr>sq := q1, told := [''051.'']\<rparr>"
  have "sys_step False small_conf small_sizes init_sys ?s"
    using sys_step.Notify [of "''05''" small_sizes True init_sys q1 False small_conf] q1(1) q(3)
    by (simp add: init_sys_def request_def)
  then have r: "sys_reach False small_conf small_sizes ?s" by (rule sys_reach.onward [OF sys_reach.start])
  have c: "config_int small_conf ''http.max_data_len'' = 8" by code_simp
  have "choose_len False small_conf good_env (nq_len (sq ?s)) = Inr (Some 0)"
    by (simp add: choose_len_def q1(3) c)
  from sys_reach.onward [OF r sys_step.Choose [OF _ _ this]] that q1(2) show thesis
    by (simp add: init_sys_def init_send_def)
qed

theorem requests_conserved_witness:
  "\<exists>s :: sys. told s = [''051.''] \<and> mset (told s) = mset (concat (map (chop 4) (acked s))) +
      mset (chop 4 (case send_buf (sd s) of None \<Rightarrow> [] | Some b \<Rightarrow> b)) + mset (chop 4 (nq_contents (sq s)))"
proof -
  obtain s where "sys_reach False small_conf small_sizes s" "told s = [''051.'']" by (rule small_told)
  with requests_conserved [OF this(1) small_batch_ok] show ?thesis by - (rule exI [of _ s], simp)
qed

text \<open>
  Although the length of a batch is chosen before the lock is taken, the extraction under
  the lock never reads outside the queue: it takes the last bytes, at least one, and leaves
  the others in place.
\<close>

theorem extraction_safe:
  assumes "sys_reach schar cs z s" "batch_ok cs z" "pc s = Want_Lock"
  shows "\<exists>b len q. take_tail (send_len (sd s)) (sq s) = Inr (b, len, q) \<and> nq_inv q \<and>
    nq_contents (sq s) = nq_contents q @ b \<and> int (length b) = len"
proof -
  note inv = sys_reach_inv [OF assms(1,2)]
  then have q: "nq_inv (sq s)" by (simp add: sys_inv_def)
  show ?thesis using take_tail_ok [OF q want_lock_len [OF assms(2) inv assms(3)]] by metis
qed

theorem extraction_safe_witness:
  "\<exists>(s :: sys) b len q. pc s = Want_Lock \<and> take_tail (send_len (sd s)) (sq s) = Inr (b, len, q) \<and>
     nq_contents q @ b = ''051.''"
proof -
  obtain s where s: "sys_reach False small_conf small_sizes s" "pc s = Want_Lock"
    "nq_contents (sq s) = ''051.''" by (rule small_told)
  from extraction_safe [OF s(1) small_batch_ok s(2)] obtain b len q where
    "take_tail (send_len (sd s)) (sq s) = Inr (b, len, q)" "nq_contents (sq s) = nq_contents q @ b" by blast
  with s(2,3) show ?thesis by - (rule exI [of _ s], auto)
qed

text \<open>
  A batch is given up exactly when the reply is a non-empty prefix of the configured
  \<open>cloud.ok_response\<close>; on every other reply it is kept and sent again. In particular the
  one character \<open>O\<close> acknowledges a batch, and \<open>OK\<close> followed by a newline does not.
\<close>

theorem batch_acknowledged:
  assumes "send_buf d = Some b"
    and "cloud_send schar cs env (get_config cs ''paths.upload'') (cstr b) = Inr (n, Some r)" "NUL \<notin> set r"
  shows "send_commit schar cs env d =
    Inr (if r \<noteq> [] \<and> is_prefix r (get_config cs ''cloud.ok_response'') then d\<lparr>send_buf := None\<rparr> else d)"
proof -
  have c: "cstr r = r" using cstr_append [OF assms(3), of "[]"] by (simp add: cstr_def)
  have "take (length r) r = take (length r) t \<longleftrightarrow> is_prefix r t" for t
    by (metis append_take_drop_id is_prefix_iff append_eq_conv_conj take_all order_refl)
  then show ?thesis
    using assms(1,2) cloud_send_size [OF assms(2)] by (simp add: send_commit_def c strncmp_eq_take)
qed

theorem batch_acknowledged_witness:
  "send_commit False [(''cloud.ok_response'', ''OK''), (''http.timeout'', ''10'')]
     (good_env\<lparr>env_events := [(100, Got (''HTTP/1.1 200 OK'' @ CRLF @ CRLF @ ''O'')), (101, Got [])]\<rparr>)
     (init_send\<lparr>send_buf := Some ''051.''\<rparr>) = Inr init_send"
proof -
  let ?cs = "[(''cloud.ok_response'', ''OK''), (''http.timeout'', ''10'')] :: conf"
  let ?env = "good_env\<lparr>env_events := [(100, Got (''HTTP/1.1 200 OK'' @ CRLF @ CRLF @ ''O'')), (101, Got [])]\<rparr>"
  have h: "header_ok ''HTTP/1.1 200 OK''" by code_simp
  have c: "chunk_ok (''HTTP/1.1 200 OK'' @ CRLF @ CRLF @ ''O'')" by (simp add: chunk_ok_def BUF_SIZE_def CRLF_def)
  have r: "recv_response 100 10 ((100, Got (''HTTP/1.1 200 OK'' @ CRLF @ CRLF @ ''O'')) # map arrival [] @ [(101, Got [])])
      (replicate BUF_SIZE NUL) False 0 None = Inr (int (length (''O'' @ concat (map snd []))), Some (''O'' @ concat (map snd [])))"
    using recv_response_ok [OF h c, of "[]" 100 10 100 101] by (simp add: in_time_def int_max_def)
  have t: "word_of_int (config_int ?cs ''http.timeout'') = (10 :: uint32)" by code_simp
  have e: "urlencode False (cstr ''051.'') = Inr ''051.''" by code_simp
  have l: "\<not> 200 < int (length (http_request ?cs '''' '''' (cloud_body ?cs ''051.'')))"
    "int (length (http_request ?cs '''' '''' (cloud_body ?cs ''051.''))) \<le> 200" by code_simp+
  have s: "cloud_send False ?cs ?env (get_config ?cs ''paths.upload'') (cstr ''051.'') = Inr (1, Some ''O'')"
    using r l(2) by (simp add: cloud_send_def e http_post_def t good_env_def)
  show ?thesis
    using batch_acknowledged [OF _ s, of "init_send\<lparr>send_buf := Some ''051.''\<rparr>"] by (simp add: init_send_def)
qed

text \<open>
  With a batch size that is no multiple of the request size a request is cut in two: with
  two requests of four bytes and batches of five, the last byte of the first request leaves
  with the second one. The configuration shipped for the merger, 20000 bytes for requests of
  22, is of this kind.
\<close>

theorem unaligned_batch_splits:
  "\<not> batch_ok [(''http.max_data_len'', ''20000'')] \<lparr>PACKET_SIZE = 10, ID_SIZE = 20, REQUEST_SIZE = 22\<rparr> \<and>
   map_sum id (\<lambda>(d, q). (send_buf d, nq_contents q))
     (bindR (nq.enq_all [(small_sizes, ''05'', True), (small_sizes, ''06'', False)] nq_empty)
       (commit_notify_queue False [(''http.max_data_len'', ''5'')]
          (good_env\<lparr>env_socket := - 1\<rparr>) (good_env\<lparr>env_socket := - 1\<rparr>) init_send)) =
   Inr (Some ''.060.'', ''051'')"
proof
  show "\<not> batch_ok [(''http.max_data_len'', ''20000'')] \<lparr>PACKET_SIZE = 10, ID_SIZE = 20, REQUEST_SIZE = 22\<rparr>"
    by code_simp
next
  let ?e = "good_env\<lparr>env_socket := - 1\<rparr>"
  have c: "cloud_send False cs ?e p b = bindR (urlencode False b) (\<lambda>e. Inr (0, None))" for cs p b
    by (simp add: cloud_send_def http_post_def)
  show "map_sum id (\<lambda>(d, q). (send_buf d, nq_contents q))
     (bindR (nq.enq_all [(small_sizes, ''05'', True), (small_sizes, ''06'', False)] nq_empty)
       (commit_notify_queue False [(''http.max_data_len'', ''5'')] ?e ?e init_send)) =
   Inr (Some ''.060.'', ''051'')"
    unfolding nq.enq_all.simps commit_notify_queue_def choose_len_def report_it_now_def send_commit_def c
    by code_simp
qed

end
