(* ===== verification/Merger_System.thy ===== *)
theory Merger_System
  imports Merger_Spec Merger_Sender
begin

text \<open>
  The merger as a whole: packets, and the single iterations of the walks over the timers,
  interleaved with the three parts of a commit of the sender thread on the same queue. Every
  verdict of the gate is shown to be, at any moment, in exactly one of three places: among
  the batches the cloud accepted, in the batch being sent, or in the queue.
\<close>

section \<open>The machine\<close>

text \<open>
  \<open>mem\<close> is the memory of the server and timeout threads, \<open>sender\<close> the sender and \<open>place\<close> where
  it is. \<open>pass\<close> is the walk over the timers under way: its settings and time and the two
  pointers. \<open>ideal\<close> runs the abstract gate beside it, a student at a time, and
  \<open>accepted_batches\<close> records what the cloud accepted.
\<close>

record msys =
  mem :: merger
  sender :: sender
  place :: pc
  pass :: "(conf \<times> int \<times> addr \<times> addr) option"
  ideal :: gate
  accepted_batches :: "string list"

definition start_msys :: "merger \<Rightarrow> msys" where
  "start_msys st = \<lparr>mem = st, sender = init_send, place = Idle, pass = None, ideal = init_gate, accepted_batches = []\<rparr>"

text \<open>The gate forgets one student, telling the verdict if there is one.\<close>

definition forget :: "string \<Rightarrow> gate \<Rightarrow> gate" where
  "forget k g = g\<lparr>hist := (hist g)(k := []),
     gate.told := gate.told g + (case decision (hist g k) of None \<Rightarrow> {#} | Some b \<Rightarrow> {#(k, b)#})\<rparr>"

text \<open>
  A walk holds \<open>lock_timers\<close> from its begin to its end, so that no packet can be recorded in
  between. (\<open>Merger_Races\<close> follows the parts of a detection that take no lock.)
\<close>

inductive m_step :: "bool \<Rightarrow> conf \<Rightarrow> sizes \<Rightarrow> msys \<Rightarrow> msys \<Rightarrow> bool" for schar cs z where
  Input: "pass s = None \<Longrightarrow> input_ok (Packet ics p a now) (z, ideal s) \<Longrightarrow>
    cstep (Packet ics p a now) (z, mem s) = Inr (z', st) \<Longrightarrow>
    m_step schar cs z s (s\<lparr>mem := st, ideal := snd (astep (Packet ics p a now) (z, ideal s))\<rparr>)"
| Begin: "pass s = None \<Longrightarrow> c_time now \<Longrightarrow> load (heap (mem s)) (timers (mem s)) = Inr t \<Longrightarrow>
    m_step schar cs z s (s\<lparr>pass := Some (tcs, now, timers (mem s), di_next t)\<rparr>)"
| Timer: "pass s = Some (tcs, now, prev, timer) \<Longrightarrow> timer \<noteq> 0 \<Longrightarrow>
    timer_iter tcs z now prev timer (mem s) = Inr (prev', timer', st, k) \<Longrightarrow>
    m_step schar cs z s (s\<lparr>mem := st, pass := Some (tcs, now, prev', timer'),
      ideal := (case k of None \<Rightarrow> ideal s | Some k \<Rightarrow> forget k (ideal s))\<rparr>)"
| Finish: "pass s = Some (tcs, now, prev, 0) \<Longrightarrow> m_step schar cs z s (s\<lparr>pass := None\<rparr>)"
| Resend: "place s = Idle \<Longrightarrow> send_buf (sender s) \<noteq> None \<Longrightarrow> m_step schar cs z s (s\<lparr>place := Sending\<rparr>)"
| Choose: "place s = Idle \<Longrightarrow> send_buf (sender s) = None \<Longrightarrow>
    choose_len schar cs env (nq_len (queue (mem s))) = Inr (Some len) \<Longrightarrow>
    m_step schar cs z s (s\<lparr>place := Want_Lock, sender := (sender s)\<lparr>send_len := len\<rparr>\<rparr>)"
| Extract: "place s = Want_Lock \<Longrightarrow> take_tail (send_len (sender s)) (queue (mem s)) = Inr (b, len, q) \<Longrightarrow>
    m_step schar cs z s
      (s\<lparr>place := Sending, mem := (mem s)\<lparr>queue := q\<rparr>, sender := (sender s)\<lparr>send_buf := Some b, send_len := len\<rparr>\<rparr>)"
| Send: "place s = Sending \<Longrightarrow> send_buf (sender s) = Some b \<Longrightarrow> send_commit schar cs env (sender s) = Inr d \<Longrightarrow>
    m_step schar cs z s
      (s\<lparr>place := Idle, sender := d,
         accepted_batches := (if send_buf d = None then accepted_batches s @ [b] else accepted_batches s)\<rparr>)"

inductive m_reach :: "bool \<Rightarrow> conf \<Rightarrow> sizes \<Rightarrow> merger \<Rightarrow> msys \<Rightarrow> bool" for schar cs z st where
  start: "m_reach schar cs z st (start_msys st)"
| onward: "m_reach schar cs z st s \<Longrightarrow> m_step schar cs z s s' \<Longrightarrow> m_reach schar cs z st s'"

section \<open>The queue during a packet or a timer run\<close>

lemma handle_packet_queue: "handle_packet cs z p a now st = Inr st' \<Longrightarrow> queue st' = queue st"
  by (auto simp: handle_packet_def handle_student_def set_timeout_def split: if_splits)

lemma packet_alloc:
  "cstep (Packet ics p a now) (z, st) = Inr (z', st') \<Longrightarrow> z' = z \<and> nq_alloc (queue st') = nq_alloc (queue st)"
  by (auto simp: handle_packet_queue split: if_splits)

section \<open>The verdicts told\<close>

abbreviation with_told :: "gate \<Rightarrow> (string \<times> bool) multiset \<Rightarrow> gate" where
  "with_told g M \<equiv> g\<lparr>gate.told := M\<rparr>"

lemma packet_told:
  "astep (Packet ics p a now) (z, with_told g M) = (z, with_told (snd (astep (Packet ics p a now) (z, g))) M)"
  "gate.told (snd (astep (Packet ics p a now) (z, g))) = gate.told g"
  by (simp_all add: detect_def)

section \<open>The invariant\<close>

text \<open>The sender's view of the state, as in \<open>Merger_Sender\<close>; \<open>ts\<close> lists what was queued.\<close>

definition view :: "msys \<Rightarrow> string list \<Rightarrow> sys" where
  "view s ts = \<lparr>sq = queue (mem s), sd = sender s, pc = place s, sys.told = ts, acked = accepted_batches s\<rparr>"

definition ids_ok :: "sizes \<Rightarrow> (string \<times> bool) multiset \<Rightarrow> bool" where
  "ids_ok z M \<longleftrightarrow> (\<forall>(k, b)\<in>#M. int (length k) = ID_SIZE z)"

text \<open>A walk under way: the nodes before \<open>timer\<close> stay, those from it on are still to be looked at.\<close>

definition walk_ok :: "sizes \<Rightarrow> msys \<Rightarrow> bool" where
  "walk_ok z s \<longleftrightarrow> (case pass s of None \<Rightarrow> True
     | Some (tcs, now, prev, timer) \<Rightarrow> c_time now \<and>
         (\<exists>ss ms ns. merger_at (mem s) ss (ms @ ns) \<and> dmap ss = hist_map (ideal s) \<and>
            dmap (ms @ ns) = seen_map (ideal s) \<and> prev = last (timers (mem s) # addrs ms) \<and> timer = hd_addr ns \<and>
            list_all (\<lambda>x. \<not> expired tcs now x) ms))"

definition m_inv :: "conf \<Rightarrow> sizes \<Rightarrow> msys \<Rightarrow> bool" where
  "m_inv cs z s \<longleftrightarrow> walk_ok z s \<and> (\<exists>ts M. sys_inv cs z (view s ts) \<and>
     mset ts = image_mset request_of (gate.told (ideal s)) \<and> tracks z (with_told (ideal s) M) (mem s) \<and> ids_ok z M)"

lemma requests_sized:
  "sizes_ok z \<Longrightarrow> ids_ok z (mset rs) \<Longrightarrow> list_all (\<lambda>x. length x = rsize z) (map request_of rs)"
  by (auto simp: list_all_iff ids_ok_def length_request)

lemma queue_requests:
  assumes "tracks z (with_told g M) st" "ids_ok z M" "sizes_ok z"
  obtains rs where "mset rs = M" "nq_contents (queue st) = concat (map request_of rs)"
    "chop (rsize z) (nq_contents (queue st)) = map request_of rs"
    "int (length (nq_contents (queue st))) = REQUEST_SIZE z * int (size M)"
proof -
  obtain rs where rs: "mset rs = M" "nq_contents (queue st) = concat (map request_of rs)"
    using assms(1) unfolding tracks_def by auto
  have l: "list_all (\<lambda>x. length x = rsize z) (map request_of rs)"
    using requests_sized [OF assms(3)] assms(2) rs(1) by simp
  have "length (concat xs) = n * length xs" if "list_all (\<lambda>x. length x = n) xs" for n and xs :: "string list"
    using that by (induction xs) simp_all
  from this [OF l] have "length (concat (map request_of rs)) = rsize z * size M"
    using rs(1) by (metis length_map size_mset)
  moreover have "int (rsize z) = REQUEST_SIZE z" using assms(3) by (simp add: sizes_ok_def)
  ultimately have "int (length (nq_contents (queue st))) = REQUEST_SIZE z * int (size M)"
    using rs(2) by simp
  with that [OF rs] chop_concat [OF rsize_pos [OF assms(3)] l] rs(2) show thesis by simp
qed

lemma maps_told [simp]: "hist_map (with_told g M) = hist_map g" "seen_map (with_told g M) = seen_map g"
  by (simp_all add: hist_map_def seen_map_def cong: if_cong)

text \<open>Four parts give the invariant; the queue and the sender do not matter to a walk.\<close>

lemma m_invI:
  assumes "walk_ok z s" "sys_inv cs z (view s ts)" "mset ts = image_mset request_of (gate.told (ideal s))"
    and "tracks z (with_told (ideal s) M) (mem s)" "ids_ok z M"
  shows "m_inv cs z s"
  using assms unfolding m_inv_def by blast

lemma m_invE:
  assumes "m_inv cs z s"
  obtains ts M where "walk_ok z s" "sys_inv cs z (view s ts)"
    "mset ts = image_mset request_of (gate.told (ideal s))" "tracks z (with_told (ideal s) M) (mem s)" "ids_ok z M"
  using assms unfolding m_inv_def by blast

lemma walk_okI:
  assumes "pass s = Some (tcs, now, last (timers (mem s) # addrs ms), hd_addr ns)" "c_time now"
    and "merger_at (mem s) ss (ms @ ns)" "dmap ss = hist_map (ideal s)" "dmap (ms @ ns) = seen_map (ideal s)"
    and "list_all (\<lambda>x. \<not> expired tcs now x) ms"
  shows "walk_ok z s"
  unfolding walk_ok_def using assms by (simp del: last.simps) blast

lemma merger_at_queue_only [simp]: "merger_at (st\<lparr>queue := q\<rparr>) ss ts = merger_at st ss ts"
  by (simp add: merger_at_def)

lemma walk_ok_sender [simp]:
  "walk_ok z (s\<lparr>place := p\<rparr>) = walk_ok z s"
  "walk_ok z (s\<lparr>sender := d\<rparr>) = walk_ok z s"
  "walk_ok z (s\<lparr>place := p, mem := (mem s)\<lparr>queue := q\<rparr>\<rparr>) = walk_ok z s"
  "walk_ok z (s\<lparr>place := p, sender := d\<rparr>) = walk_ok z s"
  "walk_ok z (s\<lparr>place := p, sender := d, accepted_batches := bs\<rparr>) = walk_ok z s"
  "walk_ok z (s\<lparr>place := p, mem := (mem s)\<lparr>queue := q\<rparr>, sender := d\<rparr>) = walk_ok z s"
  by (cases "pass s", simp_all add: walk_ok_def split: prod.split)+

lemma input_inv:
  assumes z: "sizes_ok z" and inv: "m_inv cs z s" and pass: "pass s = None" and ok: "input_ok (Packet ics p a now) (z, ideal s)"
    and c: "cstep (Packet ics p a now) (z, mem s) = Inr (z', st)"
  shows "m_inv cs z (s\<lparr>mem := st, ideal := snd (astep (Packet ics p a now) (z, ideal s))\<rparr>)"
proof -
  let ?g = "snd (astep (Packet ics p a now) (z, ideal s))"
  obtain ts M where sv: "sys_inv cs z (view s ts)" and ts: "mset ts = image_mset request_of (gate.told (ideal s))"
    and t: "tracks z (with_told (ideal s) M) (mem s)" and M: "ids_ok z M"
    using inv by (rule m_invE)
  have "gate_rel (z, with_told (ideal s) M) (z, mem s)" "input_ok (Packet ics p a now) (z, with_told (ideal s) M)"
    using t z ok by simp_all
  from merger.step_law [OF this] c have "gate_rel (astep (Packet ics p a now) (z, with_told (ideal s) M)) (z', st)" by auto
  then have t': "tracks z (with_told ?g M) st" unfolding packet_told by simp
  have "queue st = queue (mem s)" using c by (auto simp: handle_packet_queue split: if_splits)
  then have v: "sys_inv cs z (view (s\<lparr>mem := st, ideal := ?g\<rparr>) ts)" using sv by (simp add: view_def)
  have "walk_ok z (s\<lparr>mem := st, ideal := ?g\<rparr>)" using pass by (simp add: walk_ok_def)
  moreover have "mset ts = image_mset request_of (gate.told ?g)" using ts unfolding packet_told .
  ultimately show ?thesis using v t' M by (intro m_invI [where ts = ts and M = M]) simp_all
qed

text \<open>One iteration of a walk: it moves on, or it removes the student and tells the verdict.\<close>

lemma forget_maps:
  "hist_map (forget k g) = (hist_map g)(k := None)" "seen_map (forget k g) = (seen_map g)(k := None)"
  by (auto simp: hist_map_def seen_map_def forget_def fun_eq_iff)

lemma timer_iter_cases:
  assumes at: "merger_at st ss (ms @ (a, k, v) # ns)" and ss: "dmap ss = hist_map g"
    and age: "age_ok now (a, k, v)"
    and iter: "timer_iter tcs z now (last (timers st # addrs ms)) a st = Inr (prev', timer', st', r)"
  obtains "\<not> expired tcs now (a, k, v)" "r = None" "st' = st" "prev' = a" "timer' = hd_addr ns"
  | h q where "r = Some k" "prev' = last (timers st # addrs ms)" "timer' = hd_addr ns"
      "st' = st\<lparr>heap := h, queue := q\<rparr>" "merger_at st' (del_node k ss) (ms @ ns)"
      "dmap (del_node k ss) = (dmap ss)(k := None)"
      "case decision (hist g k) of None \<Rightarrow> q = queue st | Some b \<Rightarrow> notify z k b (queue st) = Inr q"
proof -
  obtain h where eq: "timer_iter tcs z now (last (timers st # addrs ms)) a st =
      (if expired tcs now (a, k, v)
       then bindR (case judge (state_of_int (lookup0 (dmap ss) k)) of None \<Rightarrow> Inr (queue st)
           | Some action \<Rightarrow> notify z k action (queue st)) (\<lambda>q.
             Inr (last (timers st # addrs ms), hd_addr ns, st\<lparr>heap := h, queue := q\<rparr>, Some k))
       else Inr (a, hd_addr ns, st, None))"
    and h: "merger_at (st\<lparr>heap := h\<rparr>) (del_node k ss) (ms @ ns)" "dmap (del_node k ss) = (dmap ss)(k := None)"
    using timer_iter_correct [OF at age] by blast
  show thesis
  proof (cases "expired tcs now (a, k, v)")
    case False
    with eq iter that(1) show ?thesis by simp
  next
    case True
    note j = judge_lookup [of g k, folded ss]
    from True trans [OF sym [OF eq] iter] obtain q where q: "(case decision (hist g k) of None \<Rightarrow> Inr (queue st)
        | Some action \<Rightarrow> notify z k action (queue st)) = Inr q"
      and e: "prev' = last (timers st # addrs ms)" "timer' = hd_addr ns" "st' = st\<lparr>heap := h, queue := q\<rparr>" "r = Some k"
      unfolding j by (auto simp del: last.simps)
    show ?thesis
    proof (rule that(2) [OF e(4,1,2,3) _ h(2)])
      show "merger_at st' (del_node k ss) (ms @ ns)" using h(1) e(3) by simp
      show "case decision (hist g k) of None \<Rightarrow> q = queue st | Some b \<Rightarrow> notify z k b (queue st) = Inr q"
        using q by (auto split: option.splits)
    qed
  qed
qed

text \<open>What the queue and the gate say after the verdict of one student.\<close>

lemma forget_tracks:
  assumes b: "batch_ok cs z" and v: "sys_inv cs z (view s ts)" and ts: "mset ts = image_mset request_of (gate.told (ideal s))"
    and t: "tracks z (with_told (ideal s) M) (mem s)" and M: "ids_ok z M" and k: "hist (ideal s) k \<noteq> []"
    and at: "merger_at st ss' ts'" "dmap ss' = (hist_map (ideal s))(k := None)" "dmap ts' = (seen_map (ideal s))(k := None)"
    and q: "case decision (hist (ideal s) k) of None \<Rightarrow> queue st = queue (mem s)
      | Some b \<Rightarrow> notify z k b (queue (mem s)) = Inr (queue st)"
  shows "\<exists>ts M. sys_inv cs z ((view s ts)\<lparr>sq := queue st\<rparr>) \<and>
    mset ts = image_mset request_of (gate.told (forget k (ideal s))) \<and>
    tracks z (with_told (forget k (ideal s)) M) st \<and> ids_ok z M"
proof -
  let ?g = "forget k (ideal s)"
  have z: "sizes_ok z" using b by (simp add: batch_ok_def)
  have live: "\<forall>k. hist (ideal s) k \<noteq> [] \<longrightarrow> c_time (seen (ideal s) k) \<and> int (length k) = ID_SIZE z"
    and qi: "nq_inv (queue (mem s))"
    using t unfolding tracks_def by simp_all
  obtain rs where rs: "mset rs = M" "nq_contents (queue (mem s)) = concat (map request_of rs)"
    using t unfolding tracks_def by auto
  have len: "int (length k) = ID_SIZE z" using live k by blast
  have base: "tracks z (with_told ?g M') st \<longleftrightarrow> nq_inv (queue st) \<and>
      (\<exists>rs. mset rs = M' \<and> nq_contents (queue st) = concat (map request_of rs))" for M'
    using at live unfolding tracks_def maps_told forget_maps by (auto simp: forget_def)
  show ?thesis
  proof (cases "decision (hist (ideal s) k)")
    case None
    then have e: "queue st = queue (mem s)" "gate.told ?g = gate.told (ideal s)"
      using q by (simp_all add: forget_def)
    then have "(view s ts)\<lparr>sq := queue st\<rparr> = view s ts" by (simp add: view_def)
    then show ?thesis using v ts M base rs qi e by (intro exI [of _ ts] exI [of _ M]) auto
  next
    case (Some d)
    then have n: "notify z k d (queue (mem s)) = Inr (queue st)" using q by simp
    from notify_cases [OF qi z len, of d] n
    have q': "nq_inv (queue st)" "nq_contents (queue st) = concat (map request_of (rs @ [(k, d)]))"
      using rs by auto
    have "sys_inv cs z ((view s (ts @ [request k d]))\<lparr>sq := queue st\<rparr>)"
      using notify_step [OF b v len, of d] n by (simp add: view_def)
    moreover have "mset (ts @ [request k d]) = image_mset request_of (gate.told ?g)"
      using ts Some by (simp add: forget_def)
    moreover have "mset (rs @ [(k, d)]) = add_mset (k, d) M" using rs by simp
    then have "tracks z (with_told ?g (add_mset (k, d) M)) st" unfolding base using q' by blast
    moreover have "ids_ok z (add_mset (k, d) M)" using M len by (simp add: ids_ok_def)
    ultimately show ?thesis by blast
  qed
qed

lemma timer_inv:
  assumes b: "batch_ok cs z" and inv: "m_inv cs z s" and pass: "pass s = Some (tcs, now, prev, timer)" and nz: "timer \<noteq> 0"
    and iter: "timer_iter tcs z now prev timer (mem s) = Inr (prev', timer', st, r)"
  shows "m_inv cs z (s\<lparr>mem := st, pass := Some (tcs, now, prev', timer'),
      ideal := (case r of None \<Rightarrow> ideal s | Some k \<Rightarrow> forget k (ideal s))\<rparr>)"
proof -
  obtain ts M where w: "walk_ok z s" and v: "sys_inv cs z (view s ts)"
    and ts: "mset ts = image_mset request_of (gate.told (ideal s))"
    and t: "tracks z (with_told (ideal s) M) (mem s)" and M: "ids_ok z M"
    using inv by (rule m_invE)
  obtain ss ms ns where now: "c_time now" and at: "merger_at (mem s) ss (ms @ ns)"
    and ss: "dmap ss = hist_map (ideal s)" and tm: "dmap (ms @ ns) = seen_map (ideal s)"
    and prev: "prev = last (timers (mem s) # addrs ms)" and tmr: "timer = hd_addr ns"
    and kept: "list_all (\<lambda>x. \<not> expired tcs now x) ms"
    using w pass unfolding walk_ok_def by auto
  obtain a k v' ns' where ns: "ns = (a, k, v') # ns'" using nz tmr by (cases ns) auto
  have dist: "distinct (keys (ms @ ns))" using at by (simp add: merger_at_def dict_at_def)
  have live: "\<forall>k. hist (ideal s) k \<noteq> [] \<longrightarrow> c_time (seen (ideal s) k)" using t unfolding tracks_def by simp
  have e: "hist (ideal s) k \<noteq> []" "sint v' = seen (ideal s) k"
    using timer_entry [OF tm dist _ live, of a k v'] ns by simp_all
  have age: "age_ok now (a, k, v')"
    using now live e by (auto simp: c_time_def int_min_def int_max_def)
  have a: "timer = a" using tmr ns by simp
  note iter = iter [unfolded prev a]
  show ?thesis
  proof (rule timer_iter_cases [OF at [unfolded ns] ss age iter])
    assume c: "\<not> expired tcs now (a, k, v')" "r = None" "st = mem s" "prev' = a" "timer' = hd_addr ns'"
    let ?s = "s\<lparr>mem := st, pass := Some (tcs, now, prev', timer'), ideal := (case r of None \<Rightarrow> ideal s | Some k \<Rightarrow> forget k (ideal s))\<rparr>"
    have "walk_ok z ?s"
      using c at ss tm now kept ns by (intro walk_okI [where ss = ss and ms = "ms @ [(a, k, v')]" and ns = ns']) simp_all
    then show ?thesis using v ts t M c by (intro m_invI [where ts = ts and M = M]) (simp_all add: view_def)
  next
    fix h q
    assume c: "r = Some k" "prev' = last (timers (mem s) # addrs ms)" "timer' = hd_addr ns'"
      "st = mem s\<lparr>heap := h, queue := q\<rparr>" "merger_at st (del_node k ss) (ms @ ns')"
      "dmap (del_node k ss) = (dmap ss)(k := None)"
      "case decision (hist (ideal s) k) of None \<Rightarrow> q = queue (mem s) | Some b \<Rightarrow> notify z k b (queue (mem s)) = Inr q"
    let ?s = "s\<lparr>mem := st, pass := Some (tcs, now, prev', timer'), ideal := (case r of None \<Rightarrow> ideal s | Some k \<Rightarrow> forget k (ideal s))\<rparr>"
    have "k \<notin> set (keys ms)" using dist ns by auto
    then have tm': "dmap (ms @ ns') = (seen_map (ideal s))(k := None)"
      using dmap_del_node [OF dist, of k] del_node_split [of k ms a v' ns'] tm ns by simp
    have qst: "queue st = q" "timers st = timers (mem s)" using c(4) by simp_all
    have "walk_ok z ?s"
      using c(1-3,5,6) ss tm' now kept forget_maps qst(2)
      by (intro walk_okI [where ss = "del_node k ss" and ms = ms and ns = ns']) simp_all
    moreover obtain ts' M' where "sys_inv cs z ((view s ts')\<lparr>sq := queue st\<rparr>)"
      "mset ts' = image_mset request_of (gate.told (forget k (ideal s)))"
      "tracks z (with_told (forget k (ideal s)) M') st" "ids_ok z M'"
      using forget_tracks [OF b v ts t M e(1) c(5) c(6) [unfolded ss] tm'] c(7) [folded qst(1)] by blast
    ultimately show ?thesis using c(1) by (intro m_invI [where ts = ts' and M = M']) (simp_all add: view_def)
  qed
qed

text \<open>The sender takes the last requests of the queue; the memory is otherwise untouched.\<close>

lemma tracks_prefix:
  assumes "tracks z (with_told g M) st" "ids_ok z M" "sizes_ok z" "nq_inv q"
    and "nq_contents (queue st) = nq_contents q @ b" "rsize z dvd length (nq_contents q)"
  shows "\<exists>M'. tracks z (with_told g M') (st\<lparr>queue := q\<rparr>) \<and> ids_ok z M'"
proof -
  obtain rs where rs: "mset rs = M" "nq_contents (queue st) = concat (map request_of rs)"
    using queue_requests [OF assms(1-3)] by metis
  have "list_all (\<lambda>x. length x = rsize z) (map request_of rs)"
    using requests_sized [OF assms(3)] assms(2) rs(1) by simp
  moreover have "concat (map request_of rs) = nq_contents q @ b" using rs(2) assms(5) by simp
  ultimately obtain ys zs where "map request_of rs = ys @ zs" "nq_contents q = concat ys"
    using concat_prefix [OF rsize_pos [OF assms(3)] _ _ assms(6)] by metis
  then have q: "nq_contents q = concat (map request_of (take (length ys) rs))"
    by (metis append_eq_conv_conj take_map)
  have "ids_ok z (mset (take (length ys) rs))"
    using assms(2) rs(1) by (fastforce simp: ids_ok_def dest: in_set_takeD)
  moreover have "tracks z (with_told g (mset (take (length ys) rs))) (st\<lparr>queue := q\<rparr>)"
    using assms(1,4) q unfolding tracks_def by (auto simp: merger_at_def)
  ultimately show ?thesis by blast
qed

lemma begin_inv:
  assumes inv: "m_inv cs z s" and now: "c_time now" and l: "load (heap (mem s)) (timers (mem s)) = Inr t"
  shows "m_inv cs z (s\<lparr>pass := Some (tcs, now, timers (mem s), di_next t)\<rparr>)"
proof -
  obtain M where "tracks z (with_told (ideal s) M) (mem s)" using inv by (auto simp: m_inv_def)
  then obtain ss ts where at: "merger_at (mem s) ss ts" "dmap ss = hist_map (ideal s)" "dmap ts = seen_map (ideal s)"
    unfolding tracks_def maps_told by blast
  then have "dict_at (heap (mem s)) (timers (mem s)) ts" by (simp add: merger_at_def)
  then obtain c where "cell (heap (mem s)) (timers (mem s)) = Some c" "seg (heap (mem s)) (di_next c) ts 0"
    by (rule dict_at_obtain)
  with l have "di_next t = hd_addr ts" using seg_hd by auto
  then have "walk_ok z (s\<lparr>pass := Some (tcs, now, timers (mem s), di_next t)\<rparr>)"
    using at now by (intro walk_okI [where ss = ss and ms = "[]" and ns = ts]) simp_all
  with inv show ?thesis by (simp add: m_inv_def view_def)
qed

lemma extract_inv:
  assumes b: "batch_ok cs z" and inv: "m_inv cs z s" and pc: "place s = Want_Lock"
    and t: "take_tail (send_len (sender s)) (queue (mem s)) = Inr (b, len, q)"
  shows "m_inv cs z (s\<lparr>place := Sending, mem := (mem s)\<lparr>queue := q\<rparr>,
    sender := (sender s)\<lparr>send_buf := Some b, send_len := len\<rparr>\<rparr>)"
proof -
  let ?s = "s\<lparr>place := Sending, mem := (mem s)\<lparr>queue := q\<rparr>, sender := (sender s)\<lparr>send_buf := Some b, send_len := len\<rparr>\<rparr>"
  have z: "sizes_ok z" using b by (simp add: batch_ok_def)
  obtain ts M where sv: "sys_inv cs z (view s ts)" and ts: "mset ts = image_mset request_of (gate.told (ideal s))"
    and tr: "tracks z (with_told (ideal s) M) (mem s)" and M: "ids_ok z M"
    using inv by (auto simp: m_inv_def)
  have v: "pc (view s ts) = Want_Lock" "take_tail (send_len (sd (view s ts))) (sq (view s ts)) = Inr (b, len, q)"
    using pc t by (simp_all add: view_def)
  have q: "nq_contents (queue (mem s)) = nq_contents q @ b"
    using take_tail_ok [OF _ want_lock_len [OF b sv v(1)]] sv v(2) by (force simp: sys_inv_def view_def)
  have "sys_inv cs z (view ?s ts)" using extract_step [OF b sv v] by (simp add: view_def)
  moreover from this have "nq_inv q" "rsize z dvd length (nq_contents q)" by (simp_all add: sys_inv_def view_def)
  then obtain M' where "tracks z (with_told (ideal s) M') ((mem s)\<lparr>queue := q\<rparr>)" "ids_ok z M'"
    using tracks_prefix [OF tr M z _ q] by blast
  moreover have "walk_ok z ?s" using inv by (simp add: m_inv_def)
  ultimately show ?thesis using ts by (intro m_invI [where ts = ts and M = M']) simp_all
qed

lemma m_step_inv:
  assumes "m_step schar cs z s s'" "batch_ok cs z" "m_inv cs z s"
  shows "m_inv cs z s'"
  using assms(1)
proof (cases rule: m_step.cases)
  case (Input ics p a now z' st)
  have "sizes_ok z" using assms(2) by (simp add: batch_ok_def)
  with input_inv assms(3) Input show ?thesis by blast
next
  case (Begin now t tcs)
  with begin_inv [OF assms(3)] show ?thesis by blast
next
  case (Timer tcs now prev timer prev' timer' st k)
  with timer_inv [OF assms(2,3)] show ?thesis by blast
next
  case (Finish tcs now prev)
  with assms(3) show ?thesis by (simp add: m_inv_def view_def walk_ok_def)
next
  case Resend
  with assms(3) show ?thesis by (auto simp: m_inv_def sys_inv_def view_def buf_of_def)
next
  case (Choose env len)
  from choose_len_cases [OF Choose(4)] Choose assms(3) show ?thesis
    by (auto simp: m_inv_def sys_inv_def view_def buf_of_def)
next
  case (Extract b len q)
  with extract_inv [OF assms(2,3)] show ?thesis by blast
next
  case (Send b env d)
  obtain ts M where w: "walk_ok z s" and sv: "sys_inv cs z (view s ts)"
    and rest: "mset ts = image_mset request_of (gate.told (ideal s))"
      "tracks z (with_told (ideal s) M) (mem s)" "ids_ok z M"
    using assms(3) by (rule m_invE)
  have "sys_inv cs z (view s' ts)"
    using send_step [OF sv, of b schar env d] Send by (simp add: view_def cong: if_cong)
  with w rest Send show ?thesis by (intro m_invI [where ts = ts and M = M]) simp_all
qed

lemma m_reach_inv:
  "m_reach schar cs z st s \<Longrightarrow> batch_ok cs z \<Longrightarrow> init_merger h = Inr st \<Longrightarrow> m_inv cs z s"
proof (induction rule: m_reach.induct)
  case start
  then have t: "tracks z init_gate st" by (intro init_tracks)
  have q: "queue st = nq_empty" using start(2) by (auto simp: init_merger_def)
  have "sys_inv cs z (view (start_msys st) [])"
    using q by (simp add: sys_inv_def view_def start_msys_def buf_of_def init_send_def nq_inv_def nq_empty_def
        nq_contents_def int_max_def)
  moreover have "with_told init_gate {#} = init_gate" by (simp add: init_gate_def)
  ultimately show ?case
    using t by (intro m_invI [where ts = "[]" and M = "{#}"])
      (simp_all add: start_msys_def walk_ok_def ids_ok_def init_gate_def)
next
  case (onward s s')
  with m_step_inv show ?case by blast
qed

text \<open>
  When a walk has come to its end, no student is left that was silent for the configured time:
  the steps of the sender in between cannot make it miss one.
\<close>

lemma walk_end_forgets:
  assumes "m_reach schar cs z st s" "batch_ok cs z" "init_merger h = Inr st"
    and p: "pass s = Some (tcs, now, prev, 0)"
  shows "gone tcs now (ideal s) = {}"
proof -
  obtain ts M where w: "walk_ok z s" and t: "tracks z (with_told (ideal s) M) (mem s)"
    using m_reach_inv [OF assms(1-3)] by (rule m_invE)
  obtain ss ms ns where at: "merger_at (mem s) ss (ms @ ns)" and tm: "dmap (ms @ ns) = seen_map (ideal s)"
    and hd: "hd_addr ns = 0" and kept: "list_all (\<lambda>x. \<not> expired tcs now x) ms"
    using w p unfolding walk_ok_def by auto
  have d: "dict_at (heap (mem s)) (timers (mem s)) (ms @ ns)" using at by (simp add: merger_at_def)
  have "ns = []"
  proof (cases ns)
    case (Cons n ns')
    with d hd show ?thesis by (cases n) (auto elim!: dict_at_node)
  qed simp
  moreover have "filter (expired tcs now) ms = []" using kept by (simp add: filter_empty_conv list_all_iff)
  moreover have "\<forall>k. hist (ideal s) k \<noteq> [] \<longrightarrow> c_time (seen (ideal s) k)" using t unfolding tracks_def by simp
  moreover have "distinct (keys (ms @ ns))" using d by (simp add: dict_at_def)
  ultimately show ?thesis using gone_keys [OF tm, of tcs now] by simp
qed

section \<open>Properties\<close>


text \<open>A run of packets, and a whole walk over the timers, are runs of the machine.\<close>

lemma m_reach_packet:
  assumes "m_reach schar cs z st s" "pass s = None" "int (length p) = PACKET_SIZE z" "c_time now"
    and "cstep (Packet ics p a now) (z, mem s) = Inr (z', st')"
  shows "\<exists>g. m_reach schar cs z st (s\<lparr>mem := st', ideal := g\<rparr>)"
  using m_reach.onward [OF assms(1) m_step.Input [OF assms(2) _ assms(5)]] assms(3,4) by auto

lemma m_reach_packets:
  "m_reach schar cs z st s \<Longrightarrow> pass s = None \<Longrightarrow>
    \<forall>(p, a, now)\<in>set ps. int (length p) = PACKET_SIZE z \<and> c_time now \<Longrightarrow>
    merger.crun (map (\<lambda>(p, a, now). Packet ics p a now) ps) (z, mem s) = Inr (z', st') \<Longrightarrow>
    \<exists>g. m_reach schar cs z st (s\<lparr>mem := st', ideal := g\<rparr>)"
proof (induction ps arbitrary: s)
  case Nil
  then have "s\<lparr>mem := st', ideal := ideal s\<rparr> = s" by simp
  with Nil.prems(1) show ?case by metis
next
  case (Cons x ps)
  obtain p a now where x: "x = (p, a, now)" by (cases x)
  obtain st1 where st1: "cstep (Packet ics p a now) (z, mem s) = Inr (z, st1)"
    "merger.crun (map (\<lambda>(p, a, now). Packet ics p a now) ps) (z, st1) = Inr (z', st')"
    using Cons.prems(4) x by auto
  obtain g where "m_reach schar cs z st (s\<lparr>mem := st1, ideal := g\<rparr>)"
    using m_reach_packet [OF Cons.prems(1,2) _ _ st1(1)] Cons.prems(3) x by auto
  from Cons.IH [OF this] Cons.prems(2,3) st1(2) show ?case by simp
qed

lemma m_reach_loop:
  "m_reach schar cs z st s \<Longrightarrow> pass s = Some (tcs, now, prev, timer) \<Longrightarrow>
    timers_loop n tcs z now prev timer (mem s) = Inr st' \<Longrightarrow>
    \<exists>g. m_reach schar cs z st (s\<lparr>mem := st', pass := None, ideal := g\<rparr>)"
proof (induction n arbitrary: s prev timer)
  case 0
  then show ?case by simp
next
  case (Suc n)
  show ?case
  proof (cases "timer = 0")
    case True
    have "m_reach schar cs z st (s\<lparr>pass := None\<rparr>)"
      using m_reach.onward [OF Suc.prems(1) m_step.Finish] Suc.prems(2) True by blast
    moreover have "mem s = st'" using Suc.prems(3) True by simp
    then have "s\<lparr>mem := st', pass := None, ideal := ideal s\<rparr> = s\<lparr>pass := None\<rparr>" by simp
    ultimately show ?thesis by metis
  next
    case False
    then obtain prev' timer' st1 k where
      it: "timer_iter tcs z now prev timer (mem s) = Inr (prev', timer', st1, k)"
      and rest: "timers_loop n tcs z now prev' timer' st1 = Inr st'"
      using Suc.prems(3) unfolding timers_loop_iter by auto
    from Suc.IH [OF m_reach.onward [OF Suc.prems(1) m_step.Timer [OF Suc.prems(2) False it]], of prev' timer'] rest
    show ?thesis by simp
  qed
qed

lemma m_reach_check:
  assumes "m_reach schar cs z st s" "pass s = None" "c_time now" "check_timers tcs z now (mem s) = Inr st'"
  shows "\<exists>g. m_reach schar cs z st (s\<lparr>mem := st', ideal := g\<rparr>)"
proof -
  obtain t where t: "load (heap (mem s)) (timers (mem s)) = Inr t"
    and l: "timers_loop (length (heap (mem s))) tcs z now (timers (mem s)) (di_next t) (mem s) = Inr st'"
    using assms(4) by (auto simp: check_timers_def)
  have "m_reach schar cs z st (s\<lparr>pass := Some (tcs, now, timers (mem s), di_next t)\<rparr>)"
    using m_reach.onward [OF assms(1) m_step.Begin [OF assms(2,3) t]] .
  from m_reach_loop [OF this, of tcs now "timers (mem s)" "di_next t"] l
  obtain g where "m_reach schar cs z st (s\<lparr>mem := st', pass := None, ideal := g\<rparr>)" by auto
  moreover have "s\<lparr>mem := st', pass := None, ideal := g\<rparr> = s\<lparr>mem := st', ideal := g\<rparr>" using assms(2) by simp
  ultimately show ?thesis by metis
qed


end
