(* ===== verification/Merger_Races.thy ===== *)
theory Merger_Races
  imports Merger_Spec
begin

text \<open>
  The server and the timeout thread of the merger, interleaved where the sources let them:
  \<open>handle_student\<close> reads the state of a student, stores it and arms the timer in three parts,
  and only the last takes \<open>lock_timers\<close>, which a run of the timers holds from its first to its
  last node. Schedules whose timer runs leave the student in hand alone are shown to follow
  the gate; a run that expires the student brings the old history back; and a walk of \<open>get\<close>
  suspended on a node is followed over a deletion by the other thread.
\<close>

section \<open>The parts of a detection\<close>

definition read_state :: "string \<Rightarrow> merger \<Rightarrow> uint32 res" where
  "read_state sid st = dict_get (heap st) (students st) sid"

text \<open>The new state is computed from the value read before, in local variables.\<close>

definition write_state :: "string \<Rightarrow> int \<Rightarrow> uint32 \<Rightarrow> merger \<Rightarrow> merger res" where
  "write_state sid action i st =
     bindR (dict_set (heap st) (students st) sid (int_of_state (update_state action (state_of_int i))))
       (\<lambda>(_, h). Inr (st\<lparr>heap := h\<rparr>))"

lemma handle_student_parts:
  "handle_student sid action now st =
    bindR (read_state sid st) (\<lambda>i. bindR (write_state sid action i st) (set_timeout now sid))"
proof -
  have "bindR (case p of (_, h) \<Rightarrow> Inr (st\<lparr>heap := h\<rparr>)) f = (case p of (_, h) \<Rightarrow> f (st\<lparr>heap := h\<rparr>))"
    for p :: "bool \<times> heap" and f :: "merger \<Rightarrow> merger res" by (cases p) simp
  then show ?thesis
    by (cases "dict_get (heap st) (students st) sid")
      (simp_all add: handle_student_def read_state_def write_state_def split_def bindR_assoc)
qed

text \<open>Where the server thread is: reading packets, after the read, or after the store.\<close>

datatype flight = At_Poll | Got string bool uint32 | Stored string bool

record race =
  rmem :: merger
  rpc :: flight

text \<open>
  The steps of the two threads. A step of the server thread happens where the thread is; at
  any other place the event does nothing.
\<close>

datatype event = Get_State string bool | Put_State | Arm_Timer int | Run_Timers conf int

fun race_step :: "event \<Rightarrow> sizes \<times> race \<Rightarrow> (sizes \<times> race) res" where
  "race_step (Get_State k a) (z, s) =
     (case rpc s of At_Poll \<Rightarrow> bindR (read_state k (rmem s)) (\<lambda>i. Inr (z, s\<lparr>rpc := Got k a i\<rparr>))
      | _ \<Rightarrow> Inr (z, s))"
| "race_step Put_State (z, s) =
     (case rpc s of Got k a i \<Rightarrow> bindR (write_state k (of_bool a) i (rmem s)) (\<lambda>st. Inr (z, \<lparr>rmem = st, rpc = Stored k a\<rparr>))
      | _ \<Rightarrow> Inr (z, s))"
| "race_step (Arm_Timer now) (z, s) =
     (case rpc s of Stored k a \<Rightarrow> bindR (set_timeout now k (rmem s)) (\<lambda>st. Inr (z, \<lparr>rmem = st, rpc = At_Poll\<rparr>))
      | _ \<Rightarrow> Inr (z, s))"
| "race_step (Run_Timers cs now) (z, s) =
     bindR (check_timers cs z now (rmem s)) (\<lambda>st. Inr (z, s\<lparr>rmem := st\<rparr>))"

section \<open>The gate beside it\<close>

text \<open>The detection counts when its timer is armed.\<close>

datatype place_a = Free | Holding string bool | Due string bool

fun gate_step :: "event \<Rightarrow> sizes \<times> gate \<times> place_a \<Rightarrow> sizes \<times> gate \<times> place_a" where
  "gate_step (Get_State k a) (z, g, p) = (z, g, if p = Free then Holding k a else p)"
| "gate_step Put_State (z, g, p) = (z, g, case p of Holding k a \<Rightarrow> Due k a | _ \<Rightarrow> p)"
| "gate_step (Arm_Timer now) (z, g, p) = (case p of Due k a \<Rightarrow> (z, detect k a now g, Free) | _ \<Rightarrow> (z, g, p))"
| "gate_step (Run_Timers cs now) (z, g, p) = (z, expire cs now g, p)"

fun in_hand :: "place_a \<Rightarrow> string option" where
  "in_hand Free = None" | "in_hand (Holding k a) = Some k" | "in_hand (Due k a) = Some k"

text \<open>The student in hand is not expired by a run of the timers in between.\<close>

fun event_ok :: "event \<Rightarrow> sizes \<times> gate \<times> place_a \<Rightarrow> bool" where
  "event_ok (Get_State k a) (z, g, p) = (int (length k) = ID_SIZE z)"
| "event_ok Put_State (z, g, p) = True"
| "event_ok (Arm_Timer now) (z, g, p) = c_time now"
| "event_ok (Run_Timers cs now) (z, g, p) = (c_time now \<and> (\<forall>k. in_hand p = Some k \<longrightarrow> k \<notin> gone cs now g))"

text \<open>The relation to the memory, with what \<open>students\<close> holds as a parameter.\<close>

definition tracks_with :: "sizes \<Rightarrow> gate \<Rightarrow> (string \<Rightarrow> uint32 option) \<Rightarrow> merger \<Rightarrow> bool" where
  "tracks_with z g m st \<longleftrightarrow>
     (\<exists>ss ts. merger_at st ss ts \<and> dmap ss = m \<and> dmap ts = seen_map g) \<and>
     (\<forall>k. hist g k \<noteq> [] \<longrightarrow> c_time (seen g k) \<and> int (length k) = ID_SIZE z) \<and>
     nq_inv (queue st) \<and>
     (\<exists>rs. mset rs = told g \<and> nq_contents (queue st) = concat (map request_of rs))"

lemma tracks_with_hist: "tracks z g st \<longleftrightarrow> tracks_with z g (hist_map g) st"
  by (simp add: tracks_def tracks_with_def)

abbreviation stored :: "gate \<Rightarrow> string \<Rightarrow> bool list \<Rightarrow> string \<Rightarrow> uint32 option" where
  "stored g k as \<equiv> (hist_map g)(k \<mapsto> int_of_state (run as))"

fun race_rel :: "sizes \<times> gate \<times> place_a \<Rightarrow> sizes \<times> race \<Rightarrow> bool" where
  "race_rel (z, g, p) (z', s) \<longleftrightarrow> z' = z \<and> sizes_ok z \<and>
     (case p of Free \<Rightarrow> rpc s = At_Poll \<and> tracks z g (rmem s)
      | Holding k a \<Rightarrow> rpc s = Got k a (lookup0 (hist_map g) k) \<and> tracks z g (rmem s) \<and> int (length k) = ID_SIZE z
      | Due k a \<Rightarrow> rpc s = Stored k a \<and> tracks_with z g (stored g k (hist g k @ [a])) (rmem s) \<and>
          int (length k) = ID_SIZE z)"

section \<open>The parts refine the gate\<close>

lemma tracks_with_two:
  "tracks_with z g m st \<Longrightarrow> dm.two (heap st) (students st) m (timers st) (seen_map g)"
  using merger_at_two unfolding tracks_with_def by blast

lemma tracks_with_heap:
  assumes "tracks_with z g m st" "dm.two h (students st) m' (timers st) (seen_map g')"
    "told g' = told g" "\<forall>k. hist g' k \<noteq> [] \<longrightarrow> c_time (seen g' k) \<and> int (length k) = ID_SIZE z"
  shows "tracks_with z g' m' (st\<lparr>heap := h\<rparr>)"
  using assms merger_at_two [of "st\<lparr>heap := h\<rparr>"] by (auto simp: tracks_with_def)

lemma read_state_tracks: "tracks_with z g m st \<Longrightarrow> read_state k st = Inr (lookup0 m k)"
  using dm.two_lookup [OF tracks_with_two] by (simp add: read_state_def lookup0_def)

text \<open>The store uses the value that was read, whatever \<open>students\<close> holds by now.\<close>

lemma write_state_tracks:
  assumes "tracks_with z g m st" "state_of_int i = run as"
  shows "write_state k (of_bool a) i st = Inl Exited \<or>
    (\<exists>st'. write_state k (of_bool a) i st = Inr st' \<and>
       tracks_with z g (m(k \<mapsto> int_of_state (run (as @ [a])))) st')"
proof -
  have live: "\<forall>k. hist g k \<noteq> [] \<longrightarrow> c_time (seen g k) \<and> int (length k) = ID_SIZE z"
    using assms(1) by (simp add: tracks_with_def)
  have v: "update_state (of_bool a) (state_of_int i) = run (as @ [a])" by (simp add: assms(2) run_snoc)
  from dm.two_update [OF tracks_with_two [OF assms(1)], of k "int_of_state (run (as @ [a]))"] show ?thesis
    unfolding write_state_def v using tracks_with_heap [OF assms(1) _ refl live] by auto
qed

lemma set_timeout_tracks:
  assumes "tracks_with z g m st" "c_time now" "int (length k) = ID_SIZE z" "hist g' = (hist g)(k := as)" "as \<noteq> []"
    "seen g' = (seen g)(k := now)" "told g' = told g"
  shows "set_timeout now k st = Inl Exited \<or> (\<exists>st'. set_timeout now k st = Inr st' \<and> tracks_with z g' m st')"
proof -
  have s: "seen_map g' = (seen_map g)(k \<mapsto> word_of_int now)"
    using assms(4-6) by (auto simp: seen_map_def fun_eq_iff)
  have live: "\<forall>k. hist g' k \<noteq> [] \<longrightarrow> c_time (seen g' k) \<and> int (length k) = ID_SIZE z"
    using assms by (auto simp: tracks_with_def)
  from dm.two_update [OF dm.two_sym [OF tracks_with_two [OF assms(1)]], of k "word_of_int now"] show ?thesis
    unfolding set_timeout_def using tracks_with_heap [OF assms(1) _ assms(7) live, unfolded s] dm.two_sym by fastforce
qed

lemma run_timers_tracks:
  assumes t: "tracks_with z g m st" and agree: "\<forall>k\<in>gone cs now g. m k = hist_map g k"
    and now: "c_time now" and z: "sizes_ok z"
  shows "check_timers cs z now st = Inl Signed_Overflow \<or>
    (\<exists>st'. check_timers cs z now st = Inr st' \<and> tracks_with z (expire cs now g) (m |` (- gone cs now g)) st')"
proof -
  obtain ss ts rs where at: "merger_at st ss ts" "dmap ts = seen_map g" and ss: "dmap ss = m"
    and rs: "mset rs = told g" "nq_contents (queue st) = concat (map request_of rs)"
    and live: "\<forall>k. hist g k \<noteq> [] \<longrightarrow> c_time (seen g k) \<and> int (length k) = ID_SIZE z" and q: "nq_inv (queue st)"
    using t unfolding tracks_with_def by blast
  have "dmap ss k = hist_map g k" if "k \<in> gone cs now g" for k using agree that ss by simp
  from check_timers_pass [OF at this live q rs now z] show ?thesis
    using live_expire [OF live, of cs now] ss unfolding tracks_with_def by blast
qed

lemma lookup0_run: "state_of_int (lookup0 (hist_map g) k) = run (hist g k)"
  by (simp add: lookup0_def state_lookup)

lemma hist_expire: "k \<notin> gone cs now g \<Longrightarrow> hist (expire cs now g) k = hist g k"
  by (simp add: expire_def)

lemma lookup0_expire:
  "k \<notin> gone cs now g \<Longrightarrow> lookup0 (hist_map (expire cs now g)) k = lookup0 (hist_map g) k"
  by (simp add: lookup0_def hist_map_def hist_expire)

lemma stored_expire:
  "k \<notin> gone cs now g \<Longrightarrow> stored g k as |` (- gone cs now g) = stored (expire cs now g) k as"
  unfolding hist_map_expire [symmetric] by (auto simp: restrict_map_def fun_eq_iff)

interpretation race: simulation race_rel gate_step race_step event_ok "{Exited, Signed_Overflow}"
proof unfold_locales
  fix a s i
  assume rel: "race_rel a s" and ok: "event_ok i a"
  obtain z g p where a: "a = (z, g, p)" by (cases a)
  obtain r where s: "s = (z, r)" and z: "sizes_ok z" using rel a by (cases s) auto
  note rel = rel [unfolded a s] and ok = ok [unfolded a]
  show "(\<exists>e\<in>{Exited, Signed_Overflow}. race_step i s = Inl e) \<or>
    (\<exists>s'. race_step i s = Inr s' \<and> race_rel (gate_step i a) s')"
  proof (cases i)
    case (Get_State k b)
    with rel ok show ?thesis
      by (cases p) (auto simp: a s tracks_with_hist read_state_tracks)
  next
    case Put_State
    show ?thesis
    proof (cases p)
      case (Holding k b)
      with rel have t: "tracks_with z g (hist_map g) (rmem r)" and pc: "rpc r = Got k b (lookup0 (hist_map g) k)"
        by (simp_all add: tracks_with_hist)
      from write_state_tracks [OF t lookup0_run [of g k], of k b] pc rel Put_State Holding show ?thesis
        by (auto simp: a s)
    qed (use rel Put_State in \<open>auto simp: a s\<close>)
  next
    case (Arm_Timer now)
    show ?thesis
    proof (cases p)
      case (Due k b)
      with rel have t: "tracks_with z g (stored g k (hist g k @ [b])) (rmem r)" and pc: "rpc r = Stored k b"
        and k: "int (length k) = ID_SIZE z" by simp_all
      have g: "hist (detect k b now g) = (hist g)(k := hist g k @ [b])" "hist g k @ [b] \<noteq> []"
        "seen (detect k b now g) = (seen g)(k := now)" "told (detect k b now g) = told g"
        by (simp_all add: detect_def)
      from set_timeout_tracks [OF t _ k g] ok pc z Arm_Timer Due show ?thesis
        by (auto simp: a s tracks_with_hist hist_map_detect)
    qed (use rel Arm_Timer in \<open>auto simp: a s\<close>)
  next
    case (Run_Timers cs now)
    with ok have now: "c_time now" and k: "\<And>k. in_hand p = Some k \<Longrightarrow> k \<notin> gone cs now g" by simp_all
    have m: "\<exists>m. tracks_with z g m (rmem r) \<and> (\<forall>j\<in>gone cs now g. m j = hist_map g j) \<and>
        (\<forall>st. tracks_with z (expire cs now g) (m |` (- gone cs now g)) st \<longrightarrow>
          race_rel (z, expire cs now g, p) (z, r\<lparr>rmem := st\<rparr>))"
    proof (cases p)
      case (Due j b)
      with k have "j \<notin> gone cs now g" by simp
      then show ?thesis using rel Due
        by (intro exI [of _ "stored g j (hist g j @ [b])"]) (auto simp: stored_expire hist_expire simp del: restrict_fun_upd)
    next
      case (Holding j b)
      with k have "j \<notin> gone cs now g" by simp
      then show ?thesis using rel Holding
        by (intro exI [of _ "hist_map g"]) (auto simp: tracks_with_hist hist_map_expire lookup0_expire)
    qed (use rel in \<open>auto simp: tracks_with_hist hist_map_expire intro!: exI [of _ "hist_map g"]\<close>)
    then obtain m where t: "tracks_with z g m (rmem r)" and m: "\<forall>j\<in>gone cs now g. m j = hist_map g j"
      and rel': "\<forall>st. tracks_with z (expire cs now g) (m |` (- gone cs now g)) st \<longrightarrow>
          race_rel (z, expire cs now g, p) (z, r\<lparr>rmem := st\<rparr>)" by blast
    from run_timers_tracks [where cs = cs and now = now, OF t m now z] show ?thesis
    proof (elim disjE exE conjE)
      fix st assume st: "check_timers cs z now (rmem r) = Inr st"
        "tracks_with z (expire cs now g) (m |` (- gone cs now g)) st"
      then have "race_rel (z, expire cs now g, p) (z, r\<lparr>rmem := st\<rparr>)" using rel' by blast
      with st(1) show ?thesis unfolding a s Run_Timers by (intro disjI2 exI [of _ "(z, r\<lparr>rmem := st\<rparr>)"]) simp
    qed (simp add: a s Run_Timers)
  qed
qed

section \<open>Any schedule\<close>

text \<open>
  What survives when the student in hand is expired too: two well-formed dictionaries, timers
  for student numbers with times of the clock, and whole requests in the queue.
\<close>

definition loose :: "sizes \<Rightarrow> merger \<Rightarrow> bool" where
  "loose z st \<longleftrightarrow> nq_inv (queue st) \<and>
     (\<exists>ss ts. merger_at st ss ts \<and>
        (\<forall>k v. dmap ts k = Some v \<longrightarrow> c_time (sint v) \<and> int (length k) = ID_SIZE z)) \<and>
     (\<exists>rs. nq_contents (queue st) = concat (map request_of rs) \<and> (\<forall>(k, b)\<in>set rs. int (length k) = ID_SIZE z))"

fun time_ok :: "sizes \<Rightarrow> event \<Rightarrow> bool" where
  "time_ok z (Get_State k a) = (int (length k) = ID_SIZE z)"
| "time_ok z Put_State = True"
| "time_ok z (Arm_Timer now) = c_time now"
| "time_ok z (Run_Timers cs now) = c_time now"

fun loose_at :: "sizes \<Rightarrow> sizes \<times> race \<Rightarrow> bool" where
  "loose_at z (z', s) \<longleftrightarrow> z' = z \<and> loose z (rmem s) \<and>
     (case rpc s of At_Poll \<Rightarrow> True | Got k a i \<Rightarrow> int (length k) = ID_SIZE z | Stored k a \<Rightarrow> int (length k) = ID_SIZE z)"

lemma report_requests:
  "concat (map nq_bytes (reports z m ns)) =
    concat (map request_of (concat (map (\<lambda>(a, k, v). case judge (state_of_int (lookup0 m k)) of
      None \<Rightarrow> [] | Some b \<Rightarrow> [(k, b)]) ns)))"
proof (induction ns)
  case (Cons n ns)
  then show ?case by (cases n) (auto split: option.split)
qed simp

lemma loose_timers:
  assumes l: "loose z st" and now: "c_time now" and z: "sizes_ok z"
  shows "check_timers cs z now st = Inl Signed_Overflow \<or> (\<exists>st'. check_timers cs z now st = Inr st' \<and> loose z st')"
proof -
  obtain ss ts rs where at: "merger_at st ss ts" and q: "nq_inv (queue st)"
    and ts: "\<And>k v. dmap ts k = Some v \<Longrightarrow> c_time (sint v) \<and> int (length k) = ID_SIZE z"
    and rs: "nq_contents (queue st) = concat (map request_of rs)" "\<forall>(k, b)\<in>set rs. int (length k) = ID_SIZE z"
    using l unfolding loose_def by blast
  have dist: "distinct (keys ts)" using at by (simp add: merger_at_def dict_at_def)
  have entry: "c_time (sint v) \<and> int (length k) = ID_SIZE z" if "(a, k, v) \<in> set ts" for a k v
    using ts dmap_in [OF dist] that by blast
  have ages: "list_all (age_ok now) ts"
  proof (unfold list_all_iff, intro ballI)
    fix x assume x: "x \<in> set ts"
    obtain a k v where xk: "x = (a, k, v)" by (cases x)
    from entry [OF x [unfolded xk]] now show "age_ok now x"
      by (simp add: xk c_time_def int_min_def int_max_def)
  qed
  have len: "\<forall>k\<in>set (keys ts). int (length k) = ID_SIZE z" using entry by fastforce
  from check_timers_run [OF at ages q z len, of cs] show ?thesis
  proof (elim disjE exE conjE)
    fix st' ss'
    assume run: "check_timers cs z now st = Inr st'"
      and at': "merger_at st' ss' (filter (\<lambda>x. \<not> expired cs now x) ts)" and q': "nq_inv (queue st')"
      and c': "nq_contents (queue st') =
        nq_contents (queue st) @ concat (map nq_bytes (reports z (dmap ss) (filter (expired cs now) ts)))"
    let ?new = "concat (map (\<lambda>(a, k, v). case judge (state_of_int (lookup0 (dmap ss) k)) of
      None \<Rightarrow> [] | Some b \<Rightarrow> [(k, b)]) (filter (expired cs now) ts))"
    have "dmap ts k = Some v" if "dmap (filter (\<lambda>x. \<not> expired cs now x) ts) k = Some v" for k v
      using that dmap_in [OF dist] dmap_in [OF distinct_keys_filter [OF dist]] by auto
    moreover have "nq_contents (queue st') = concat (map request_of (rs @ ?new))"
      using c' rs(1) by (simp add: report_requests)
    moreover have "\<forall>(k, b)\<in>set ?new. int (length k) = ID_SIZE z"
      using entry by (auto split: option.splits)
    then have "\<forall>(k, b)\<in>set ?new. int (length k) = ID_SIZE z" by blast
    with rs(2) have "\<forall>(k, b)\<in>set (rs @ ?new). int (length k) = ID_SIZE z" unfolding set_append ball_Un by blast
    ultimately have "loose z st'" using at' q' ts unfolding loose_def by blast
    with run show ?thesis by blast
  qed blast
qed

text \<open>The two stores, with the dictionaries by their contract.\<close>

lemma loose_two:
  "loose z st \<longleftrightarrow> nq_inv (queue st) \<and>
     (\<exists>m n. dm.two (heap st) (students st) m (timers st) n \<and>
        (\<forall>k v. n k = Some v \<longrightarrow> c_time (sint v) \<and> int (length k) = ID_SIZE z)) \<and>
     (\<exists>rs. nq_contents (queue st) = concat (map request_of rs) \<and> (\<forall>(k, b)\<in>set rs. int (length k) = ID_SIZE z))"
  unfolding loose_def merger_at_two by blast

lemma loose_heap:
  assumes "loose z st" "dm.two h (students st) m (timers st) n"
    "\<forall>k v. n k = Some v \<longrightarrow> c_time (sint v) \<and> int (length k) = ID_SIZE z"
  shows "loose z (st\<lparr>heap := h\<rparr>)"
proof -
  obtain rs where "nq_inv (queue st)" "nq_contents (queue st) = concat (map request_of rs)"
    "\<forall>(k, b)\<in>set rs. int (length k) = ID_SIZE z" using assms(1) unfolding loose_def by blast
  with assms(2,3) show ?thesis unfolding loose_two by (intro conjI exI) simp_all
qed

lemma loose_write:
  assumes "loose z st"
  shows "write_state k a i st = Inl Exited \<or> (\<exists>st'. write_state k a i st = Inr st' \<and> loose z st')"
proof -
  obtain m n where two: "dm.two (heap st) (students st) m (timers st) n"
    and n: "\<forall>k v. n k = Some v \<longrightarrow> c_time (sint v) \<and> int (length k) = ID_SIZE z"
    using assms unfolding loose_two by blast
  from dm.two_update [OF two, of k "int_of_state (update_state a (state_of_int i))"] show ?thesis
  proof (elim disjE exE conjE)
    fix h' assume h: "dict_set (heap st) (students st) k (int_of_state (update_state a (state_of_int i))) = Inr (True, h')"
      and "dm.two h' (students st) (m(k \<mapsto> int_of_state (update_state a (state_of_int i)))) (timers st) n"
    with assms n have "loose z (st\<lparr>heap := h'\<rparr>)" by (intro loose_heap)
    with h show ?thesis by (simp add: write_state_def)
  qed (simp add: write_state_def)
qed

lemma loose_arm:
  assumes "loose z st" "c_time now" "int (length k) = ID_SIZE z"
  shows "set_timeout now k st = Inl Exited \<or> (\<exists>st'. set_timeout now k st = Inr st' \<and> loose z st')"
proof -
  obtain m n where two: "dm.two (heap st) (students st) m (timers st) n"
    and n: "\<forall>k v. n k = Some v \<longrightarrow> c_time (sint v) \<and> int (length k) = ID_SIZE z"
    using assms(1) unfolding loose_two by blast
  have w: "sint (word_of_int now :: uint32) = now"
    using assms(2) unfolding c_time_def by (intro sint_time) simp_all
  have n': "\<forall>k' v. (n(k \<mapsto> word_of_int now)) k' = Some v \<longrightarrow> c_time (sint v) \<and> int (length k') = ID_SIZE z"
    using n w assms(2,3) by auto
  from dm.two_update [OF dm.two_sym [OF two], of k "word_of_int now"] show ?thesis
  proof (elim disjE exE conjE)
    fix h' assume h: "dict_set (heap st) (timers st) k (word_of_int now) = Inr (True, h')"
      and two': "dm.two h' (timers st) (n(k \<mapsto> word_of_int now)) (students st) m"
    from loose_heap [OF assms(1) dm.two_sym [OF two'] n'] have "loose z (st\<lparr>heap := h'\<rparr>)" .
    with h show ?thesis by (simp add: set_timeout_def)
  qed (simp add: set_timeout_def)
qed

lemma loose_read:
  assumes "loose z st"
  shows "\<exists>i. read_state k st = Inr i"
proof -
  obtain m n where "dm.two (heap st) (students st) m (timers st) n" using assms unfolding loose_two by blast
  from dm.two_lookup [OF this] show ?thesis by (simp add: read_state_def)
qed

lemma loose_step:
  assumes l: "loose_at z s" and ok: "time_ok z e" and z: "sizes_ok z"
  shows "race_step e s = Inl Exited \<or> race_step e s = Inl Signed_Overflow \<or>
    (\<exists>s'. race_step e s = Inr s' \<and> loose_at z s')"
proof -
  obtain r where s: "s = (z, r)" and r: "loose z (rmem r)" using l by (cases s) auto
  show ?thesis
  proof (cases e)
    case (Get_State k a)
    with loose_read [OF r, of k] l ok s show ?thesis by (cases "rpc r") auto
  next
    case Put_State
    show ?thesis
    proof (cases "rpc r")
      case (Got k a i)
      from loose_write [OF r, of k "of_bool a" i] Got Put_State l s show ?thesis by auto
    qed (use l s Put_State in auto)
  next
    case (Arm_Timer now)
    show ?thesis
    proof (cases "rpc r")
      case (Stored k a)
      with l s ok Arm_Timer have "c_time now" "int (length k) = ID_SIZE z" by simp_all
      from loose_arm [OF r this] Stored Arm_Timer s show ?thesis by auto
    qed (use l s Arm_Timer in auto)
  next
    case (Run_Timers cs now)
    with loose_timers [OF r _ z, of now cs] l ok s show ?thesis by auto
  qed
qed

lemma loose_run:
  "loose_at z s \<Longrightarrow> list_all (time_ok z) es \<Longrightarrow> sizes_ok z \<Longrightarrow>
    race.crun es s = Inl Exited \<or> race.crun es s = Inl Signed_Overflow \<or>
    (\<exists>s'. race.crun es s = Inr s' \<and> loose_at z s')"
proof (induction es arbitrary: s)
  case (Cons e es)
  from Cons.prems have ok: "time_ok z e" "list_all (time_ok z) es" by simp_all
  from loose_step [OF Cons.prems(1) ok(1) Cons.prems(3)] show ?case
  proof (elim disjE exE conjE)
    fix s' assume "race_step e s = Inr s'" "loose_at z s'"
    with Cons.IH [OF _ ok(2) Cons.prems(3), of s'] show ?thesis by simp
  qed simp_all
qed simp

lemma tracks_loose: "tracks z g st \<Longrightarrow> told g = {#} \<Longrightarrow> loose z st"
proof -
  assume t: "tracks z g st" and none: "told g = {#}"
  obtain ss ts where at: "merger_at st ss ts" "dmap ts = seen_map g"
    and live: "\<forall>k. hist g k \<noteq> [] \<longrightarrow> c_time (seen g k) \<and> int (length k) = ID_SIZE z"
    and q: "nq_inv (queue st)" "nq_contents (queue st) = []"
    using t none by (auto simp: tracks_def)
  have "c_time (sint v) \<and> int (length k) = ID_SIZE z" if "dmap ts k = Some v" for k v
  proof -
    have "hist g k \<noteq> []" "v = word_of_int (seen g k)"
      using that at(2) by (auto simp: seen_map_def split: if_splits)
    moreover have "sint (word_of_int (seen g k) :: uint32) = seen g k"
      using live calculation(1) unfolding c_time_def by (intro sint_time) auto
    ultimately show ?thesis using live by simp
  qed
  moreover have "nq_contents (queue st) = concat (map request_of [])" "\<forall>(k, b)\<in>set []. int (length k) = ID_SIZE z"
    using q(2) by simp_all
  ultimately show "loose z st" using at(1) q(1) unfolding loose_def by blast
qed

section \<open>A student that expires in between\<close>

text \<open>The gate when the history of \<open>k\<close> is put back after a run has told and dropped it.\<close>

definition revived :: "conf \<Rightarrow> int \<Rightarrow> int \<Rightarrow> string \<Rightarrow> bool \<Rightarrow> gate \<Rightarrow> gate" where
  "revived cs t now k a g = (expire cs t g)\<lparr>hist := (hist (expire cs t g))(k := hist g k @ [a]),
     seen := (seen (expire cs t g))(k := now)\<rparr>"

lemma stale_run:
  assumes t: "tracks z g st" and z: "sizes_ok z" and k: "int (length k) = ID_SIZE z"
    and time: "c_time t" "c_time now"
  shows "race.crun [Get_State k a, Run_Timers cs t, Put_State, Arm_Timer now] (z, \<lparr>rmem = st, rpc = At_Poll\<rparr>) = Inl Exited \<or>
    race.crun [Get_State k a, Run_Timers cs t, Put_State, Arm_Timer now] (z, \<lparr>rmem = st, rpc = At_Poll\<rparr>) = Inl Signed_Overflow \<or>
    (\<exists>st'. race.crun [Get_State k a, Run_Timers cs t, Put_State, Arm_Timer now] (z, \<lparr>rmem = st, rpc = At_Poll\<rparr>) =
       Inr (z, \<lparr>rmem = st', rpc = At_Poll\<rparr>) \<and> tracks z (revived cs t now k a g) st')"
proof -
  let ?g = "expire cs t g" and ?i = "lookup0 (hist_map g) k" and ?as = "hist g k @ [a]"
  have tw: "tracks_with z g (hist_map g) st" using t by (simp add: tracks_with_hist)
  from check_timers_refines [OF t time(1) z, of cs] show ?thesis
  proof (elim disjE exE conjE)
    fix st1 assume s1: "check_timers cs z t st = Inr st1" "tracks z ?g st1"
    have "tracks_with z ?g (hist_map ?g) st1" using s1(2) by (simp add: tracks_with_hist)
    from write_state_tracks [OF this lookup0_run [of g k], of k a] show ?thesis
    proof (elim disjE exE conjE)
      fix st2 assume s2: "write_state k (of_bool a) ?i st1 = Inr st2" "tracks_with z ?g (stored ?g k ?as) st2"
      have g: "hist (revived cs t now k a g) = (hist ?g)(k := ?as)" "?as \<noteq> []"
        "seen (revived cs t now k a g) = (seen ?g)(k := now)" "told (revived cs t now k a g) = told ?g"
        by (simp_all add: revived_def)
      have h: "stored ?g k ?as = hist_map (revived cs t now k a g)"
        by (auto simp: hist_map_def g fun_eq_iff)
      from set_timeout_tracks [OF s2(2) time(2) k g] show ?thesis
        using read_state_tracks [OF tw, of k] s1(1) s2(1) by (auto simp: tracks_with_hist h)
    qed (use read_state_tracks [OF tw, of k] s1(1) in simp)
  qed (use read_state_tracks [OF tw, of k] in simp)
qed

lemma finite_gone: "tracks z g st \<Longrightarrow> finite (gone cs now g)"
proof -
  assume "tracks z g st"
  then obtain ss where "dmap ss = hist_map g" unfolding tracks_def by blast
  then have "dom (hist_map g) = set (keys ss)" using dom_dmap by metis
  moreover have "gone cs now g \<subseteq> dom (hist_map g)" by (auto simp: gone_def hist_map_def)
  ultimately show ?thesis using finite_subset by (metis finite_set)
qed

lemma told_expire:
  assumes "finite (gone cs now g)" "k \<in> gone cs now g" "decision (hist g k) = Some b"
  shows "Suc (count (told g) (k, b)) \<le> count (told (expire cs now g)) (k, b)"
proof -
  let ?S = "{k \<in> gone cs now g. decision (hist g k) \<noteq> None}"
  have "finite ?S" "k \<in> ?S" using assms by simp_all
  then have "(k, b) \<in># image_mset (\<lambda>k. (k, the (decision (hist g k)))) (mset_set ?S)"
    using assms(3) by (auto intro!: image_eqI [of _ _ k])
  then have "0 < count (image_mset (\<lambda>k. (k, the (decision (hist g k)))) (mset_set ?S)) (k, b)"
    by (simp only: count_greater_zero_iff)
  then show ?thesis by (simp add: expire_def)
qed

section \<open>Properties\<close>

text \<open>
  C7: from the state \<open>main\<close> sets up, every interleaving of the read, the store and the arming of
  the timer of each detection with runs of the timers, as long as no run expires the student
  whose detection is under way, stops for want of memory or of queue size or follows the
  gate with each detection made at the moment its timer is armed.
\<close>

theorem detections_linearize:
  assumes "init_merger h = Inr st" "sizes_ok z" "race.inputs_ok es (z, init_gate, Free)"
  shows "race.crun es (z, \<lparr>rmem = st, rpc = At_Poll\<rparr>) = Inl Exited \<or>
    race.crun es (z, \<lparr>rmem = st, rpc = At_Poll\<rparr>) = Inl Signed_Overflow \<or>
    (\<exists>r g p. race.crun es (z, \<lparr>rmem = st, rpc = At_Poll\<rparr>) = Inr (z, r) \<and>
       fold gate_step es (z, init_gate, Free) = (z, g, p) \<and> (p = Free \<longrightarrow> tracks z g (rmem r)))"
proof -
  have "race_rel (z, init_gate, Free) (z, \<lparr>rmem = st, rpc = At_Poll\<rparr>)"
    using init_tracks [OF assms(1)] assms(2) by simp
  from race.crun_simulates [OF this assms(3)] show ?thesis
  proof (elim disjE exE conjE bexE)
    fix s' assume run: "race.crun es (z, \<lparr>rmem = st, rpc = At_Poll\<rparr>) = Inr s'"
      and rel: "race_rel (fold gate_step es (z, init_gate, Free)) s'"
    obtain r where s': "s' = (fst (fold gate_step es (z, init_gate, Free)), r)"
      using rel by (cases "fold gate_step es (z, init_gate, Free)"; cases s') auto
    have "fst (fold gate_step es (z', x)) = z'" for z' x
    proof (induction es arbitrary: x)
      case (Cons e es)
      obtain g p where x: "x = (g, p)" by (cases x)
      have "\<exists>y. gate_step e (z', g, p) = (z', y)" by (cases e; cases p) auto
      with Cons x show ?case by auto
    qed simp
    then obtain g p where "fold gate_step es (z, init_gate, Free) = (z, g, p)" by (metis prod.collapse)
    with run rel s' show ?thesis by auto
  qed auto
qed

abbreviation (input) one_byte :: sizes where
  "one_byte \<equiv> \<lparr>PACKET_SIZE = 1, ID_SIZE = 2, REQUEST_SIZE = 4\<rparr>"

abbreviation (input) five_secs :: conf where
  "five_secs \<equiv> [(''student.timeout'', ''5'')]"

fun whole :: "bool \<times> int \<Rightarrow> event list" where
  "whole (a, t) = [Get_State ''05'' a, Put_State, Arm_Timer t]"

text \<open>Three detections by the slave and two by the master; runs of the timers in the sixth.\<close>

definition passage :: "event list" where
  "passage = concat (map whole [(True, 7), (True, 8), (True, 8), (False, 9), (False, 9)])"

lemma five: "config_int five_secs ''student.timeout'' = 5"
  by code_simp

theorem detections_linearize_witness:
  "\<exists>r g. race.crun (passage @ [Get_State ''05'' False, Run_Timers five_secs 10, Put_State, Run_Timers five_secs 11,
        Arm_Timer 11, Run_Timers five_secs 16]) (one_byte, \<lparr>rmem = small_merger, rpc = At_Poll\<rparr>) = Inr (one_byte, r) \<and>
     nq_contents (queue (rmem r)) = ''051.'' \<and> tracks one_byte g (rmem r)"
proof -
  let ?es = "passage @ [Get_State ''05'' False, Run_Timers five_secs 10, Put_State, Run_Timers five_secs 11,
        Arm_Timer 11, Run_Timers five_secs 16]"
  have z: "sizes_ok one_byte" by (simp add: sizes_ok_def int_max_def)
  have ok: "race.inputs_ok ?es (one_byte, init_gate, Free)"
    by (simp add: passage_def c_time_def int_max_def gone_def expire_def detect_def init_gate_def five)
  have free: "snd (snd (fold gate_step ?es (one_byte, init_gate, Free))) = Free"
    by (simp add: passage_def)
  have run: "case race.crun ?es (one_byte, \<lparr>rmem = small_merger, rpc = At_Poll\<rparr>) of Inl e \<Rightarrow> False
      | Inr (_, r) \<Rightarrow> nq_contents (queue (rmem r)) = ''051.''"
    unfolding passage_def list.map whole.simps concat.simps append.simps race.crun.simps by code_simp
  from detections_linearize [OF small_merger_init z ok] run free show ?thesis by auto
qed

text \<open>
  C16: between the read and the store of a detection a run of the timers may expire the very
  student: the store then puts the whole old history back, and if its verdict stands, the
  next run that finds the student silent tells the same passage a second time.
\<close>

theorem stale_state_renotifies:
  assumes "tracks z g st" "sizes_ok z" "int (length k) = ID_SIZE z" "c_time t" "c_time now" "c_time t'"
    and "k \<in> gone cs t g" "config_int cs' ''student.timeout'' \<le> t' - now"
    and "decision (hist g k) = Some b" "decision (hist g k @ [a]) = Some b"
    and "es = [Get_State k a, Run_Timers cs t, Put_State, Arm_Timer now]"
  shows "race.crun es (z, \<lparr>rmem = st, rpc = At_Poll\<rparr>) = Inl Exited \<or>
    race.crun es (z, \<lparr>rmem = st, rpc = At_Poll\<rparr>) = Inl Signed_Overflow \<or>
    (\<exists>st'. race.crun es (z, \<lparr>rmem = st, rpc = At_Poll\<rparr>) = Inr (z, \<lparr>rmem = st', rpc = At_Poll\<rparr>) \<and>
       (check_timers cs' z t' st' = Inl Signed_Overflow \<or>
        (\<exists>st'' g''. check_timers cs' z t' st' = Inr st'' \<and> tracks z g'' st'' \<and>
           count (told g) (k, b) + 2 \<le> count (told g'') (k, b))))"
proof -
  let ?r = "revived cs t now k a g"
  from stale_run [OF assms(1-5), of a cs] show ?thesis unfolding assms(11) [symmetric]
  proof (elim disjE exE conjE)
    fix st' assume run: "race.crun es (z, \<lparr>rmem = st, rpc = At_Poll\<rparr>) = Inr (z, \<lparr>rmem = st', rpc = At_Poll\<rparr>)"
      and t: "tracks z ?r st'"
    have "Suc (count (told g) (k, b)) \<le> count (told ?r) (k, b)"
      using told_expire [OF finite_gone [OF assms(1)] assms(7,9)] by (simp add: revived_def)
    moreover have "k \<in> gone cs' t' ?r" "decision (hist ?r k) = Some b"
      using assms(8,10) by (simp_all add: gone_def revived_def)
    then have "Suc (count (told ?r) (k, b)) \<le> count (told (expire cs' t' ?r)) (k, b)"
      by (rule told_expire [OF finite_gone [OF t]])
    ultimately have "count (told g) (k, b) + 2 \<le> count (told (expire cs' t' ?r)) (k, b)" by simp
    with check_timers_refines [OF t assms(6,2), of cs'] run show ?thesis by blast
  qed simp_all
qed

lemma passage_gate:
  obtains g where "fold gate_step (passage @ whole (False, 10)) (one_byte, init_gate, Free) = (one_byte, g, Free)"
    "hist g ''05'' = [True, True, True, False, False, False]" "seen g ''05'' = 10"
    "race.inputs_ok (passage @ whole (False, 10)) (one_byte, init_gate, Free)"
  by (rule that [of "fst (snd (fold gate_step (passage @ whole (False, 10)) (one_byte, init_gate, Free)))"])
    (simp_all add: passage_def detect_def init_gate_def c_time_def int_max_def)

theorem stale_state_renotifies_witness:
  "\<exists>st st' st'' g''. race.crun [Get_State ''05'' False, Run_Timers five_secs 16, Put_State, Arm_Timer 16]
        (one_byte, \<lparr>rmem = st, rpc = At_Poll\<rparr>) = Inr (one_byte, \<lparr>rmem = st', rpc = At_Poll\<rparr>) \<and>
     check_timers five_secs one_byte 21 st' = Inr st'' \<and> tracks one_byte g'' st'' \<and> 2 \<le> count (told g'') (''05'', True)"
proof -
  let ?before = "passage @ whole (False, 10)" and ?s0 = "(one_byte, \<lparr>rmem = small_merger, rpc = At_Poll\<rparr>)"
  let ?es = "[Get_State ''05'' False, Run_Timers five_secs 16, Put_State, Arm_Timer 16]"
  obtain g where g: "fold gate_step ?before (one_byte, init_gate, Free) = (one_byte, g, Free)"
    "hist g ''05'' = [True, True, True, False, False, False]" "seen g ''05'' = 10"
    "race.inputs_ok ?before (one_byte, init_gate, Free)" by (rule passage_gate)
  have z: "sizes_ok one_byte" by (simp add: sizes_ok_def int_max_def)
  have run: "case race.crun ?before ?s0 of Inl e \<Rightarrow> False | Inr s \<Rightarrow> (case race.crun ?es s of Inl e \<Rightarrow> False
      | Inr (_, r) \<Rightarrow> (case check_timers five_secs one_byte 21 (rmem r) of Inl e \<Rightarrow> False | Inr _ \<Rightarrow> True))"
    unfolding passage_def list.map whole.simps concat.simps append.simps race.crun.simps by code_simp
  have "race_rel (one_byte, init_gate, Free) ?s0" using init_tracks [OF small_merger_init] z by simp
  from race.crun_simulates [OF this g(4)] run obtain s where s: "race.crun ?before ?s0 = Inr s"
    "race_rel (one_byte, g, Free) s" unfolding g(1) by (auto split: sum.splits)
  then obtain st where st: "s = (one_byte, \<lparr>rmem = st, rpc = At_Poll\<rparr>)" "tracks one_byte g st"
  proof -
    obtain r where r: "s = (one_byte, r)" "rpc r = At_Poll" "tracks one_byte g (rmem r)" using s(2) by (cases s) auto
    then have "r = \<lparr>rmem = rmem r, rpc = At_Poll\<rparr>" by simp
    with that r show thesis by metis
  qed
  have d: "decision [True, True, True, False, False, False] = Some True"
    "decision [True, True, True, False, False, False, False] = Some True" by code_simp+
  from stale_state_renotifies [OF st(2) z, of "''05''" 16 16 21 five_secs five_secs True False ?es]
  have "race.crun ?es s = Inl Exited \<or> race.crun ?es s = Inl Signed_Overflow \<or>
    (\<exists>st'. race.crun ?es s = Inr (one_byte, \<lparr>rmem = st', rpc = At_Poll\<rparr>) \<and>
       (check_timers five_secs one_byte 21 st' = Inl Signed_Overflow \<or>
        (\<exists>st'' g''. check_timers five_secs one_byte 21 st' = Inr st'' \<and> tracks one_byte g'' st'' \<and>
           count (told g) (''05'', True) + 2 \<le> count (told g'') (''05'', True))))"
    using g(2,3) d by (simp add: st(1) c_time_def int_max_def gone_def five del: race.crun.simps)
  moreover have run2: "case race.crun ?es s of Inl e \<Rightarrow> False
      | Inr (_, r) \<Rightarrow> (case check_timers five_secs one_byte 21 (rmem r) of Inl e \<Rightarrow> False | Inr _ \<Rightarrow> True)"
    using run unfolding s(1) sum.case .
  then have "race.crun ?es s \<noteq> Inl e" for e
    by (cases "race.crun ?es s") (simp_all del: race.crun.simps)
  ultimately obtain st' where st': "race.crun ?es s = Inr (one_byte, \<lparr>rmem = st', rpc = At_Poll\<rparr>)"
    and told: "check_timers five_secs one_byte 21 st' = Inl Signed_Overflow \<or>
        (\<exists>st'' g''. check_timers five_secs one_byte 21 st' = Inr st'' \<and> tracks one_byte g'' st'' \<and>
           count (told g) (''05'', True) + 2 \<le> count (told g'') (''05'', True))" by blast
  have "\<not> check_timers five_secs one_byte 21 st' = Inl Signed_Overflow"
    using run2 unfolding st' by (cases "check_timers five_secs one_byte 21 st'") simp_all
  with told st' show ?thesis unfolding st(1) by (meson add_leD2)
qed

text \<open>
  Whatever the schedule, the parts of the detections and the runs of the timers touch no
  freed node and leave two well-formed dictionaries and whole requests in the queue; the
  only failures are those of memory and queue size.
\<close>

theorem interleaving_safe:
  assumes "init_merger h = Inr st" "sizes_ok z" "list_all (time_ok z) es"
  shows "race.crun es (z, \<lparr>rmem = st, rpc = At_Poll\<rparr>) = Inl Exited \<or>
    race.crun es (z, \<lparr>rmem = st, rpc = At_Poll\<rparr>) = Inl Signed_Overflow \<or>
    (\<exists>r ss ts rs. race.crun es (z, \<lparr>rmem = st, rpc = At_Poll\<rparr>) = Inr (z, r) \<and> merger_at (rmem r) ss ts \<and>
       nq_contents (queue (rmem r)) = concat (map request_of rs) \<and> (\<forall>(k, b)\<in>set rs. int (length k) = ID_SIZE z))"
proof -
  have "loose_at z (z, \<lparr>rmem = st, rpc = At_Poll\<rparr>)"
    using tracks_loose [OF init_tracks [OF assms(1)]] by (simp add: init_gate_def)
  from loose_run [OF this assms(3,2)] show ?thesis
  proof (elim disjE exE conjE)
    fix s' assume run: "race.crun es (z, \<lparr>rmem = st, rpc = At_Poll\<rparr>) = Inr s'" and l: "loose_at z s'"
    obtain r where "s' = (z, r)" "loose z (rmem r)" using l by (cases s') auto
    with run show ?thesis unfolding loose_def by blast
  qed simp_all
qed

text \<open>
  The passage is told, its state stored again by the packet that was being handled, and told
  again: two requests for one passage.
\<close>

theorem interleaving_safe_witness:
  "\<exists>r. race.crun (passage @ [Get_State ''05'' False, Put_State, Arm_Timer 11, Get_State ''05'' False, Run_Timers five_secs 16,
        Put_State, Arm_Timer 16, Run_Timers five_secs 21]) (one_byte, \<lparr>rmem = small_merger, rpc = At_Poll\<rparr>) = Inr (one_byte, r) \<and>
     nq_contents (queue (rmem r)) = ''051.051.'' \<and> (\<exists>ss ts. merger_at (rmem r) ss ts)"
proof -
  let ?es = "passage @ [Get_State ''05'' False, Put_State, Arm_Timer 11, Get_State ''05'' False, Run_Timers five_secs 16,
        Put_State, Arm_Timer 16, Run_Timers five_secs 21]"
  have z: "sizes_ok one_byte" by (simp add: sizes_ok_def int_max_def)
  have ok: "list_all (time_ok one_byte) ?es" by (simp add: passage_def c_time_def int_max_def)
  have run: "case race.crun ?es (one_byte, \<lparr>rmem = small_merger, rpc = At_Poll\<rparr>) of Inl e \<Rightarrow> False
      | Inr (_, r) \<Rightarrow> nq_contents (queue (rmem r)) = ''051.051.''"
    unfolding passage_def list.map whole.simps concat.simps append.simps race.crun.simps by code_simp
  from interleaving_safe [OF small_merger_init z ok] run show ?thesis by auto blast
qed

end
