(* ===== verification/Merger_Threads.thy ===== *)
theory Merger_Threads
  imports Merger_System Merger_Races
begin

text \<open>
  All threads of the merger at once, each in the parts between which the others may run: the
  three parts of a detection, of which only the last takes \<open>lock_timers\<close>; the iterations of a
  walk over the timers, which holds \<open>lock_timers\<close> throughout; the three parts of a commit. A
  store of the server thread may fall between two iterations of a walk. Whatever the
  schedule, no freed node is used, and every request queued is in exactly one place.
\<close>

section \<open>The machine\<close>

text \<open>
  \<open>at_server\<close>, \<open>at_timers\<close> and \<open>at_sender\<close> say where the threads are; \<open>queued\<close> and \<open>accepted\<close>
  record the requests put into the queue and the batches the cloud took.
\<close>

record mthreads =
  tmem :: merger
  at_server :: flight
  at_timers :: "(conf \<times> int \<times> addr \<times> addr) option"
  tsend :: sender
  at_sender :: pc
  queued :: "string list"
  accepted :: "string list"

definition start_threads :: "merger \<Rightarrow> mthreads" where
  "start_threads st = \<lparr>tmem = st, at_server = At_Poll, at_timers = None, tsend = init_send, at_sender = Idle,
     queued = [], accepted = []\<rparr>"

text \<open>What an iteration that removes a student notifies, from the state it finds.\<close>

definition new_requests :: "string option \<Rightarrow> merger \<Rightarrow> string list" where
  "new_requests r st = (case r of None \<Rightarrow> []
     | Some k \<Rightarrow> (case read_state k st of Inl _ \<Rightarrow> []
         | Inr i \<Rightarrow> (case judge (state_of_int i) of None \<Rightarrow> [] | Some b \<Rightarrow> [request k b])))"

inductive t_step :: "bool \<Rightarrow> conf \<Rightarrow> sizes \<Rightarrow> mthreads \<Rightarrow> mthreads \<Rightarrow> bool" for schar cs z where
  Look: "at_server s = At_Poll \<Longrightarrow> int (length k) = ID_SIZE z \<Longrightarrow> read_state k (tmem s) = Inr i \<Longrightarrow>
    t_step schar cs z s (s\<lparr>at_server := Got k a i\<rparr>)"
| Put: "at_server s = Got k a i \<Longrightarrow> write_state k (of_bool a) i (tmem s) = Inr st \<Longrightarrow>
    t_step schar cs z s (s\<lparr>tmem := st, at_server := Stored k a\<rparr>)"
| Arm: "at_server s = Stored k a \<Longrightarrow> at_timers s = None \<Longrightarrow> c_time now \<Longrightarrow>
    set_timeout now k (tmem s) = Inr st \<Longrightarrow>
    t_step schar cs z s (s\<lparr>tmem := st, at_server := At_Poll\<rparr>)"
| Begin: "at_timers s = None \<Longrightarrow> c_time now \<Longrightarrow> load (heap (tmem s)) (timers (tmem s)) = Inr t \<Longrightarrow>
    t_step schar cs z s (s\<lparr>at_timers := Some (tcs, now, timers (tmem s), di_next t)\<rparr>)"
| Iterate: "at_timers s = Some (tcs, now, prev, timer) \<Longrightarrow> timer \<noteq> 0 \<Longrightarrow>
    timer_iter tcs z now prev timer (tmem s) = Inr (prev', timer', st, r) \<Longrightarrow>
    t_step schar cs z s (s\<lparr>tmem := st, at_timers := Some (tcs, now, prev', timer'),
      queued := queued s @ new_requests r (tmem s)\<rparr>)"
| Finish: "at_timers s = Some (tcs, now, prev, 0) \<Longrightarrow> t_step schar cs z s (s\<lparr>at_timers := None\<rparr>)"
| Resend: "at_sender s = Idle \<Longrightarrow> send_buf (tsend s) \<noteq> None \<Longrightarrow> t_step schar cs z s (s\<lparr>at_sender := Sending\<rparr>)"
| Choose: "at_sender s = Idle \<Longrightarrow> send_buf (tsend s) = None \<Longrightarrow>
    choose_len schar cs env (nq_len (queue (tmem s))) = Inr (Some len) \<Longrightarrow>
    t_step schar cs z s (s\<lparr>at_sender := Want_Lock, tsend := (tsend s)\<lparr>send_len := len\<rparr>\<rparr>)"
| Extract: "at_sender s = Want_Lock \<Longrightarrow> take_tail (send_len (tsend s)) (queue (tmem s)) = Inr (b, len, q) \<Longrightarrow>
    t_step schar cs z s
      (s\<lparr>at_sender := Sending, tmem := (tmem s)\<lparr>queue := q\<rparr>, tsend := (tsend s)\<lparr>send_buf := Some b, send_len := len\<rparr>\<rparr>)"
| Send: "at_sender s = Sending \<Longrightarrow> send_buf (tsend s) = Some b \<Longrightarrow> send_commit schar cs env (tsend s) = Inr d \<Longrightarrow>
    t_step schar cs z s
      (s\<lparr>at_sender := Idle, tsend := d, accepted := (if send_buf d = None then accepted s @ [b] else accepted s)\<rparr>)"

inductive t_reach :: "bool \<Rightarrow> conf \<Rightarrow> sizes \<Rightarrow> merger \<Rightarrow> mthreads \<Rightarrow> bool" for schar cs z st where
  start: "t_reach schar cs z st (start_threads st)"
| onward: "t_reach schar cs z st s \<Longrightarrow> t_step schar cs z s s' \<Longrightarrow> t_reach schar cs z st s'"

section \<open>The parts on well-formed dictionaries\<close>

lemma read_ok: "merger_at st ss ts \<Longrightarrow> read_state k st = Inr (lookup0 (dmap ss) k)"
  using dict_get_correct [of "heap st" "students st" ss k] by (simp add: merger_at_def read_state_def lookup0_def)

text \<open>A store leaves the list of the timers as it is, node by node.\<close>

lemma put_ok:
  assumes at: "merger_at st ss ts"
  shows "write_state k a i st = Inl Exited \<or>
    (\<exists>h ss'. write_state k a i st = Inr (st\<lparr>heap := h\<rparr>) \<and> merger_at (st\<lparr>heap := h\<rparr>) ss' ts)"
proof -
  have d: "dict_at (heap st) (students st) ss" "dict_at (heap st) (timers st) ts"
    "footprint (students st) ss \<inter> footprint (timers st) ts = {}" using at by (simp_all add: merger_at_def)
  let ?v = "int_of_state (update_state a (state_of_int i))"
  from dict_set_frame [OF d(1), of k ?v] show ?thesis
  proof (elim disjE exE conjE)
    fix h ss'
    assume h: "dict_set (heap st) (students st) k ?v = Inr (True, h)" "dict_at h (students st) ss'"
      and frame: "\<forall>e ms. dict_at (heap st) e ms \<longrightarrow> footprint (students st) ss \<inter> footprint e ms = {} \<longrightarrow>
        dict_at h e ms \<and> footprint (students st) ss' \<inter> footprint e ms = {}"
    from frame d(2,3) h(2) have "merger_at (st\<lparr>heap := h\<rparr>) ss' ts" by (simp add: merger_at_def)
    with h(1) show ?thesis by (auto simp: write_state_def)
  qed (simp add: write_state_def)
qed

lemma arm_ok:
  assumes at: "merger_at st ss ts"
  shows "set_timeout now k st = Inl Exited \<or>
    (\<exists>h ts'. set_timeout now k st = Inr (st\<lparr>heap := h\<rparr>) \<and> merger_at (st\<lparr>heap := h\<rparr>) ss ts' \<and>
       dmap ts' = (dmap ts)(k \<mapsto> word_of_int now))"
proof -
  have d: "dict_at (heap st) (students st) ss" "dict_at (heap st) (timers st) ts"
    "footprint (timers st) ts \<inter> footprint (students st) ss = {}" using at by (auto simp: merger_at_def)
  from dict_set_frame [OF d(2), of k "word_of_int now"] show ?thesis
  proof (elim disjE exE conjE)
    fix h ts'
    assume h: "dict_set (heap st) (timers st) k (word_of_int now) = Inr (True, h)" "dict_at h (timers st) ts'"
      "dmap ts' = (dmap ts)(k \<mapsto> word_of_int now)"
      and frame: "\<forall>e ms. dict_at (heap st) e ms \<longrightarrow> footprint (timers st) ts \<inter> footprint e ms = {} \<longrightarrow>
        dict_at h e ms \<and> footprint (timers st) ts' \<inter> footprint e ms = {}"
    from frame d(1,3) h(2) have "merger_at (st\<lparr>heap := h\<rparr>) ss ts'" by (auto simp: merger_at_def)
    with h(1,3) show ?thesis by (auto simp: set_timeout_def)
  qed (simp add: set_timeout_def)
qed

text \<open>The entries of the timers: numbers of the configured length with times of the clock.\<close>

definition entries_ok :: "sizes \<Rightarrow> node list \<Rightarrow> bool" where
  "entries_ok z ts \<longleftrightarrow> (\<forall>(a, k, v)\<in>set ts. c_time (sint v) \<and> int (length k) = ID_SIZE z)"

lemma entries_ok_simps [simp]:
  "entries_ok z []" "entries_ok z (ms @ ns) \<longleftrightarrow> entries_ok z ms \<and> entries_ok z ns"
  "entries_ok z ((a, k, v) # ns) \<longleftrightarrow> c_time (sint v) \<and> int (length k) = ID_SIZE z \<and> entries_ok z ns"
  by (simp_all add: entries_ok_def ball_Un)

lemma entries_armed:
  assumes ok: "entries_ok z ts" and d: "distinct (keys ts)" "distinct (keys ts')"
    and m: "dmap ts' = (dmap ts)(k \<mapsto> word_of_int now)" and now: "c_time now" "int (length k) = ID_SIZE z"
  shows "entries_ok z ts'"
  unfolding entries_ok_def
proof (clarify, goal_cases)
  case (1 a k' v)
  then have v: "dmap ts' k' = Some v" using dmap_in [OF d(2)] by blast
  have "sint (word_of_int now :: uint32) = now" using now(1) unfolding c_time_def by (intro sint_time) simp_all
  then show ?case
    using v now ok dmap_in [OF d(1), of k' v] unfolding m entries_ok_def by (auto split: if_splits)
qed

section \<open>The invariant\<close>

definition tview :: "mthreads \<Rightarrow> sys" where
  "tview s = \<lparr>sq = queue (tmem s), sd = tsend s, pc = at_sender s, sys.told = queued s, acked = accepted s\<rparr>"

fun flight_ok :: "sizes \<Rightarrow> flight \<Rightarrow> bool" where
  "flight_ok z At_Poll = True"
| "flight_ok z (Got k a i) = (int (length k) = ID_SIZE z)"
| "flight_ok z (Stored k a) = (int (length k) = ID_SIZE z)"

text \<open>The nodes \<open>ms\<close> a walk has passed, and those from \<open>timer\<close> on.\<close>

definition lists_ok :: "sizes \<Rightarrow> merger \<Rightarrow> (conf \<times> int \<times> addr \<times> addr) option \<Rightarrow> bool" where
  "lists_ok z st w \<longleftrightarrow> (\<exists>ss ms ns. merger_at st ss (ms @ ns) \<and> entries_ok z (ms @ ns) \<and>
     (\<forall>tcs now prev timer. w = Some (tcs, now, prev, timer) \<longrightarrow>
        c_time now \<and> prev = last (timers st # addrs ms) \<and> timer = hd_addr ns))"

definition t_inv :: "conf \<Rightarrow> sizes \<Rightarrow> mthreads \<Rightarrow> bool" where
  "t_inv cs z s \<longleftrightarrow> sys_inv cs z (tview s) \<and> flight_ok z (at_server s) \<and> lists_ok z (tmem s) (at_timers s)"

lemma lists_ok_intro:
  assumes "merger_at st ss (ms @ ns)" "entries_ok z (ms @ ns)"
    and "w = None \<or> (\<exists>tcs now. c_time now \<and> w = Some (tcs, now, last (timers st # addrs ms), hd_addr ns))"
  shows "lists_ok z st w"
  unfolding lists_ok_def using assms by (intro exI [of _ ss] exI [of _ ms] exI [of _ ns]) auto

lemma lists_okE:
  assumes "lists_ok z st w"
  obtains ss ms ns where "merger_at st ss (ms @ ns)" "entries_ok z (ms @ ns)"
    "w = None \<or> (\<exists>tcs now. c_time now \<and> w = Some (tcs, now, last (timers st # addrs ms), hd_addr ns))"
proof -
  obtain ss ms ns where "merger_at st ss (ms @ ns)" "entries_ok z (ms @ ns)"
    and w: "\<forall>tcs now prev timer. w = Some (tcs, now, prev, timer) \<longrightarrow>
        c_time now \<and> prev = last (timers st # addrs ms) \<and> timer = hd_addr ns"
    using assms unfolding lists_ok_def by blast
  moreover have "w = None \<or> (\<exists>tcs now. c_time now \<and> w = Some (tcs, now, last (timers st # addrs ms), hd_addr ns))"
    using w by (cases w) auto
  ultimately show thesis using that by blast
qed

text \<open>The node a walk looks at next, with its age.\<close>

lemma walk_node:
  assumes l: "lists_ok z st (Some (tcs, now, prev, timer))" and nz: "timer \<noteq> 0"
  obtains ss ms k v ns where "merger_at st ss (ms @ (timer, k, v) # ns)" "entries_ok z (ms @ (timer, k, v) # ns)"
    "c_time now" "prev = last (timers st # addrs ms)" "age_ok now (timer, k, v)"
proof -
  obtain ss ms ns where at: "merger_at st ss (ms @ ns)" "entries_ok z (ms @ ns)" "c_time now"
    and p: "prev = last (timers st # addrs ms)" "timer = hd_addr ns"
    using l by (rule lists_okE) auto
  obtain k v ns' where ns: "ns = (timer, k, v) # ns'" using p(2) nz by (cases ns) auto
  have "age_ok now (timer, k, v)" using at(2,3) ns by (simp add: c_time_def int_min_def int_max_def)
  with that at p(1) ns show thesis by blast
qed

lemma iterate_ok:
  assumes l: "lists_ok z st (Some (tcs, now, prev, timer))" and nz: "timer \<noteq> 0" and q: "nq_inv (queue st)" and z: "sizes_ok z"
  shows "timer_iter tcs z now prev timer st = Inl Signed_Overflow \<or>
    (\<exists>prev' timer' st' r. timer_iter tcs z now prev timer st = Inr (prev', timer', st', r) \<and>
       lists_ok z st' (Some (tcs, now, prev', timer')) \<and>
       (new_requests r st = [] \<and> queue st' = queue st \<or>
        (\<exists>k b. int (length k) = ID_SIZE z \<and> new_requests r st = [request k b] \<and> notify z k b (queue st) = Inr (queue st'))))"
proof -
  obtain ss ms k v ns where at: "merger_at st ss (ms @ (timer, k, v) # ns)" and e: "entries_ok z (ms @ (timer, k, v) # ns)"
    and now: "c_time now" and prev: "prev = last (timers st # addrs ms)" and age: "age_ok now (timer, k, v)"
    using l nz by (rule walk_node)
  let ?j = "judge (state_of_int (lookup0 (dmap ss) k))"
  obtain h where it: "timer_iter tcs z now prev timer st =
      (if expired tcs now (timer, k, v)
       then bindR (case ?j of None \<Rightarrow> Inr (queue st) | Some action \<Rightarrow> notify z k action (queue st)) (\<lambda>q.
             Inr (prev, hd_addr ns, st\<lparr>heap := h, queue := q\<rparr>, Some k))
       else Inr (timer, hd_addr ns, st, None))"
    and h: "merger_at (st\<lparr>heap := h\<rparr>) (del_node k ss) (ms @ ns)"
    using timer_iter_correct [OF at age, of tcs z] unfolding prev by blast
  have new: "new_requests (Some k) st = (case ?j of None \<Rightarrow> [] | Some b \<Rightarrow> [request k b])"
    using read_ok [OF at, of k] by (simp add: new_requests_def)
  have len: "int (length k) = ID_SIZE z" using e by simp
  have removed: "lists_ok z (st\<lparr>heap := h, queue := q\<rparr>) (Some (tcs, now, prev, hd_addr ns))" for q
    using h e now prev by (intro lists_ok_intro [where ss = "del_node k ss" and ms = ms and ns = ns]) simp_all
  show ?thesis
  proof (cases "expired tcs now (timer, k, v)")
    case False
    have "lists_ok z st (Some (tcs, now, timer, hd_addr ns))"
      using at e now by (intro lists_ok_intro [where ss = ss and ms = "ms @ [(timer, k, v)]" and ns = ns]) simp_all
    with False it show ?thesis by (simp add: new_requests_def del: expired.simps)
  next
    case True
    show ?thesis
    proof (cases ?j)
      case None
      with True it new removed [of "queue st"] show ?thesis by (simp del: expired.simps)
    next
      case (Some b)
      from notify_cases [OF q z len, of b] show ?thesis
      proof (elim disjE exE conjE)
        fix q' assume "notify z k b (queue st) = Inr q'"
        with True it new removed [of q'] Some len show ?thesis by (auto simp del: expired.simps)
      qed (use True it Some in \<open>simp del: expired.simps\<close>)
    qed
  qed
qed

text \<open>Two thirds of the invariant at a time: the queue and sender, and the server and lists.\<close>

lemma t_invI:
  "sys_inv cs z (tview s) \<Longrightarrow> flight_ok z (at_server s) \<Longrightarrow> lists_ok z (tmem s) (at_timers s) \<Longrightarrow> t_inv cs z s"
  by (simp add: t_inv_def)

lemma lists_ok_queue [simp]: "lists_ok z (st\<lparr>queue := q\<rparr>) w = lists_ok z st w"
  by (simp add: lists_ok_def merger_at_def)

lemma lists_ok_heap:
  assumes "merger_at (st\<lparr>heap := h\<rparr>) ss' (ms @ ns)" "entries_ok z (ms @ ns)"
    and "w = None \<or> (\<exists>tcs now. c_time now \<and> w = Some (tcs, now, last (timers st # addrs ms), hd_addr ns))"
  shows "lists_ok z (st\<lparr>heap := h\<rparr>) w"
  using assms by (intro lists_ok_intro [where ss = ss' and ms = ms and ns = ns]) simp_all

lemma put_inv:
  assumes l: "lists_ok z st w"
  shows "write_state k a i st = Inl Exited \<or>
    (\<exists>h. write_state k a i st = Inr (st\<lparr>heap := h\<rparr>) \<and> lists_ok z (st\<lparr>heap := h\<rparr>) w)"
proof -
  obtain ss ms ns where at: "merger_at st ss (ms @ ns)" and e: "entries_ok z (ms @ ns)"
    and w: "w = None \<or> (\<exists>tcs now. c_time now \<and> w = Some (tcs, now, last (timers st # addrs ms), hd_addr ns))"
    using l by (rule lists_okE)
  from put_ok [OF at, of k a i] lists_ok_heap [OF _ e w] show ?thesis by blast
qed

lemma arm_inv:
  assumes l: "lists_ok z st None" and now: "c_time now" "int (length k) = ID_SIZE z"
  shows "set_timeout now k st = Inl Exited \<or>
    (\<exists>h. set_timeout now k st = Inr (st\<lparr>heap := h\<rparr>) \<and> lists_ok z (st\<lparr>heap := h\<rparr>) None)"
proof -
  obtain ss ms ns where at: "merger_at st ss (ms @ ns)" and e: "entries_ok z (ms @ ns)"
    using l by (rule lists_okE)
  have dist: "merger_at st' ss' ts \<Longrightarrow> distinct (keys ts)" for st' ss' ts by (simp add: merger_at_def dict_at_def)
  from arm_ok [OF at, of now k] show ?thesis
  proof (elim disjE exE conjE)
    fix h ts'
    assume h: "set_timeout now k st = Inr (st\<lparr>heap := h\<rparr>)" "merger_at (st\<lparr>heap := h\<rparr>) ss ts'"
      "dmap ts' = (dmap (ms @ ns))(k \<mapsto> word_of_int now)"
    have "entries_ok z ts'" using entries_armed [OF e dist [OF at] dist [OF h(2)] h(3) now] .
    then have "lists_ok z (st\<lparr>heap := h\<rparr>) None"
      using h(2) by (intro lists_ok_intro [where ss = ss and ms = "[]" and ns = ts']) simp_all
    with h(1) show ?thesis by blast
  qed simp
qed

lemma begin_lists:
  assumes l: "lists_ok z st None" and now: "c_time now" and t: "load (heap st) (timers st) = Inr t"
  shows "lists_ok z st (Some (tcs, now, timers st, di_next t))"
proof -
  obtain ss ms ns where at: "merger_at st ss (ms @ ns)" and e: "entries_ok z (ms @ ns)" using l by (rule lists_okE)
  have "dict_at (heap st) (timers st) (ms @ ns)" using at by (simp add: merger_at_def)
  then obtain c where "cell (heap st) (timers st) = Some c" "seg (heap st) (di_next c) (ms @ ns) 0"
    by (rule dict_at_obtain)
  with t have "di_next t = hd_addr (ms @ ns)" using seg_hd by auto
  with at e now show ?thesis
    by (intro lists_ok_intro [where ss = ss and ms = "[]" and ns = "ms @ ns"]) simp_all
qed

lemma t_step_inv:
  assumes "t_step schar cs z s s'" "batch_ok cs z" "t_inv cs z s"
  shows "t_inv cs z s'"
proof -
  have z: "sizes_ok z" using assms(2) by (simp add: batch_ok_def)
  have v: "sys_inv cs z (tview s)" and f: "flight_ok z (at_server s)" and l: "lists_ok z (tmem s) (at_timers s)"
    using assms(3) by (simp_all add: t_inv_def)
  from assms(1) show ?thesis
  proof (cases rule: t_step.cases)
    case (Look k i a)
    with v l show ?thesis by (simp add: t_inv_def tview_def)
  next
    case (Put k a i st)
    from put_inv [OF l, of k "of_bool a" i] Put v f show ?thesis by (auto simp: t_inv_def tview_def)
  next
    case (Arm k a now st)
    with l f have "lists_ok z (tmem s) None" "int (length k) = ID_SIZE z" by simp_all
    from arm_inv [OF this(1) Arm(4) this(2)] Arm v show ?thesis by (auto simp: t_inv_def tview_def)
  next
    case (Begin now t tcs)
    with l have "lists_ok z (tmem s) None" by simp
    from begin_lists [OF this Begin(3,4)] Begin v f show ?thesis by (simp add: t_inv_def tview_def)
  next
    case (Iterate tcs now prev timer prev' timer' st r)
    have q: "nq_inv (queue (tmem s))" using v by (simp add: sys_inv_def tview_def)
    have st: "lists_ok z st (Some (tcs, now, prev', timer'))" and
      new: "new_requests r (tmem s) = [] \<and> queue st = queue (tmem s) \<or>
        (\<exists>k b. int (length k) = ID_SIZE z \<and> new_requests r (tmem s) = [request k b] \<and>
           notify z k b (queue (tmem s)) = Inr (queue st))"
      using iterate_ok [OF l [unfolded Iterate(2)] Iterate(3) q z] Iterate(4) by simp_all
    from new have "sys_inv cs z (tview s')"
    proof (elim disjE exE conjE)
      fix k b assume "int (length k) = ID_SIZE z" "new_requests r (tmem s) = [request k b]"
        "notify z k b (queue (tmem s)) = Inr (queue st)"
      with notify_step [OF assms(2) v, of k b "queue st"] Iterate(1) show ?thesis by (simp add: tview_def)
    qed (use v Iterate(1) in \<open>simp add: tview_def\<close>)
    with st f Iterate(1) show ?thesis by (intro t_invI) simp_all
  next
    case (Finish tcs now prev)
    from l obtain ss ms ns where "merger_at (tmem s) ss (ms @ ns)" "entries_ok z (ms @ ns)" by (rule lists_okE)
    then have "lists_ok z (tmem s) None" by (intro lists_ok_intro) simp_all
    with Finish v f show ?thesis by (simp add: t_inv_def tview_def)
  next
    case Resend
    with v f l show ?thesis by (auto simp: t_inv_def sys_inv_def tview_def buf_of_def)
  next
    case (Choose env len)
    from choose_len_cases [OF Choose(4)] Choose v f l show ?thesis
      by (auto simp: t_inv_def sys_inv_def tview_def buf_of_def)
  next
    case (Extract b len q)
    have "sys_inv cs z (tview s')"
      using extract_step [OF assms(2) v, of b len q] Extract by (simp add: tview_def)
    with f l Extract(1) show ?thesis by (intro t_invI) simp_all
  next
    case (Send b env d)
    have "sys_inv cs z (tview s')" using send_step [OF v, of b schar env d] Send by (simp add: tview_def cong: if_cong)
    with f l Send(1) show ?thesis by (intro t_invI) simp_all
  qed
qed

lemma t_reach_inv:
  "t_reach schar cs z st s \<Longrightarrow> batch_ok cs z \<Longrightarrow> init_merger h = Inr st \<Longrightarrow> t_inv cs z s"
proof (induction rule: t_reach.induct)
  case start
  have q: "queue st = nq_empty" using start(2) by (auto simp: init_merger_def)
  have "sys_inv cs z (tview (start_threads st))"
    using q by (simp add: sys_inv_def tview_def start_threads_def buf_of_def init_send_def nq_inv_def nq_empty_def
        nq_contents_def int_max_def)
  moreover obtain ss ts where at: "merger_at st ss ts" "dmap ts = seen_map init_gate"
    using init_tracks [OF start(2)] unfolding tracks_def by blast
  have "ts = []" using at(2) by (cases ts) (auto simp: seen_map_def init_gate_def fun_eq_iff split: if_splits)
  with at(1) have "lists_ok z st None" by (intro lists_ok_intro [where ss = ss and ms = "[]" and ns = "[]"]) simp_all
  ultimately show ?case by (intro t_invI) (simp_all add: start_threads_def)
next
  case (onward s s')
  with t_step_inv show ?case by blast
qed

section \<open>The end of a walk\<close>

text \<open>The nodes from an address on, as far as a fuel of the heap's size reaches.\<close>

fun nodes_from :: "nat \<Rightarrow> heap \<Rightarrow> addr \<Rightarrow> nat" where
  "nodes_from 0 h a = 0"
| "nodes_from (Suc n) h a = (case cell h a of None \<Rightarrow> 0 | Some it \<Rightarrow> Suc (nodes_from n h (di_next it)))"

definition to_go :: "mthreads \<Rightarrow> nat" where
  "to_go s = (case at_timers s of None \<Rightarrow> 0
     | Some (tcs, now, prev, timer) \<Rightarrow> nodes_from (length (heap (tmem s))) (heap (tmem s)) timer)"

lemma nodes_from_seg: "seg h p ns 0 \<Longrightarrow> length ns \<le> n \<Longrightarrow> nodes_from n h p = length ns"
proof (induction ns arbitrary: p n)
  case Nil
  then have "cell h p = None" using cell_Some_bounds [of h p] by (cases "cell h p") auto
  then show ?case by (cases n) simp_all
next
  case (Cons x ns)
  obtain a k v where x: "x = (a, k, v)" by (cases x)
  obtain m where n: "n = Suc m" using Cons.prems(2) by (cases n) auto
  from Cons.prems(1) x obtain it where "p = a" "cell h a = Some it" "seg h (di_next it) ns 0" by (auto split: option.splits)
  with Cons.IH [of "di_next it" m] Cons.prems(2) n show ?case by simp
qed

lemma nodes_from_list:
  assumes "merger_at st ss (ms @ ns)"
  shows "nodes_from (length (heap st)) (heap st) (hd_addr ns) = length ns"
proof -
  have d: "dict_at (heap st) (timers st) (ms @ ns)" using assms by (simp add: merger_at_def)
  obtain c :: dict_item where "seg (heap st) (di_next c) (ms @ ns) 0" using d by (rule dict_at_obtain)
  then obtain p where p: "seg (heap st) p ns 0" unfolding seg_append by blast
  have "length ns \<le> length (heap st)" using dict_at_bound [OF d] by simp
  from nodes_from_seg [OF p this] seg_hd [OF p] show ?thesis by simp
qed

lemma iterate_next:
  assumes l: "lists_ok z st (Some (tcs, now, prev, timer))" and nz: "timer \<noteq> 0"
    and it: "timer_iter tcs z now prev timer st = Inr (prev', timer', st', r)"
  shows "nodes_from (length (heap st)) (heap st) timer = Suc (nodes_from (length (heap st')) (heap st') timer')"
proof -
  obtain ss ms k v ns where at: "merger_at st ss (ms @ (timer, k, v) # ns)"
    and prev: "prev = last (timers st # addrs ms)" and age: "age_ok now (timer, k, v)"
    using l nz by (rule walk_node)
  have n: "nodes_from (length (heap st)) (heap st) timer = Suc (length ns)" using nodes_from_list [OF at] by simp
  obtain h where e: "timer_iter tcs z now prev timer st =
      (if expired tcs now (timer, k, v)
       then bindR (case judge (state_of_int (lookup0 (dmap ss) k)) of None \<Rightarrow> Inr (queue st)
           | Some action \<Rightarrow> notify z k action (queue st)) (\<lambda>q.
             Inr (prev, hd_addr ns, st\<lparr>heap := h, queue := q\<rparr>, Some k))
       else Inr (timer, hd_addr ns, st, None))"
    and h: "merger_at (st\<lparr>heap := h\<rparr>) (del_node k ss) (ms @ ns)"
    using timer_iter_correct [OF at age, of tcs z] unfolding prev by blast
  have "merger_at st ss ((ms @ [(timer, k, v)]) @ ns)" using at by simp
  note stay = nodes_from_list [OF this]
  show ?thesis
  proof (cases "expired tcs now (timer, k, v)")
    case False
    with e it n stay show ?thesis by (simp del: expired.simps)
  next
    case True
    with trans [OF sym [OF e] it] have "timer' = hd_addr ns" "heap st' = h" by (auto simp del: expired.simps)
    with n nodes_from_list [OF h] show ?thesis by simp
  qed
qed

text \<open>Stores of the server thread do not touch the timers.\<close>

lemma put_keeps:
  assumes l: "lists_ok z st (Some (tcs, now, prev, timer))" and p: "write_state k a i st = Inr st'"
  shows "nodes_from (length (heap st')) (heap st') timer = nodes_from (length (heap st)) (heap st) timer"
proof -
  obtain ss ms ns where at: "merger_at st ss (ms @ ns)" and t: "timer = hd_addr ns" using l by (rule lists_okE) auto
  from put_ok [OF at, of k a i] p obtain h ss' where "st' = st\<lparr>heap := h\<rparr>" "merger_at (st\<lparr>heap := h\<rparr>) ss' (ms @ ns)" by auto
  with nodes_from_list [OF at] nodes_from_list [of st' ss' ms ns] t show ?thesis by simp
qed

section \<open>Properties\<close>

text \<open>A result that is a value or one of some failures.\<close>

definition only :: "fault set \<Rightarrow> 'a res \<Rightarrow> bool" where
  "only F r \<longleftrightarrow> (case r of Inl e \<Rightarrow> e \<in> F | Inr _ \<Rightarrow> True)"


text \<open>
  A student is recorded once; while the timeout thread is at its node, the server thread has
  read its state again. The store and the removal may now happen in either order.
\<close>

lemma overlap:
  obtains m2 prev timer where
    "t_reach False small_conf small_sizes small_merger \<lparr>tmem = m2, at_server = Got ''05'' False 272, at_timers = Some ([], 7, prev, timer),
       tsend = init_send, at_sender = Idle, queued = [], accepted = []\<rparr>"
    "timer \<noteq> 0" "read_state ''05'' m2 = Inr 272" "nodes_from (length (heap m2)) (heap m2) timer = 1"
    "case timer_iter [] small_sizes 7 prev timer m2 of Inl _ \<Rightarrow> False | Inr (_, n, _, _) \<Rightarrow> n = 0"
proof -
  let ?s = "\<lambda>m f w. \<lparr>tmem = m, at_server = f, at_timers = w, tsend = init_send, at_sender = Idle, queued = [], accepted = []\<rparr>"
  let ?R = "t_reach False small_conf small_sizes small_merger"
  have e: "case write_state ''05'' (of_bool True) 0 small_merger of Inl _ \<Rightarrow> False
    | Inr m \<Rightarrow> (case set_timeout 7 ''05'' m of Inl _ \<Rightarrow> False
       | Inr m2 \<Rightarrow> (case load (heap m2) (timers m2) of Inl _ \<Rightarrow> False
          | Inr t \<Rightarrow> di_next t \<noteq> 0 \<and> read_state ''05'' m2 = Inr 272 \<and>
              nodes_from (length (heap m2)) (heap m2) (di_next t) = 1 \<and>
              (case timer_iter [] small_sizes 7 (timers m2) (di_next t) m2 of Inl _ \<Rightarrow> False | Inr (_, n, _, _) \<Rightarrow> n = 0)))"
    by code_simp
  then obtain m m2 t where m: "write_state ''05'' (of_bool True) 0 small_merger = Inr m"
      "set_timeout 7 ''05'' m = Inr m2" "load (heap m2) (timers m2) = Inr t"
    and nz: "di_next t \<noteq> 0" and r: "read_state ''05'' m2 = Inr 272"
    and n: "nodes_from (length (heap m2)) (heap m2) (di_next t) = 1"
    and it: "case timer_iter [] small_sizes 7 (timers m2) (di_next t) m2 of Inl _ \<Rightarrow> False | Inr (_, n, _, _) \<Rightarrow> n = 0"
    by (auto simp del: nodes_from.simps split: sum.split_asm)
  have r0: "read_state ''05'' small_merger = Inr 0" by code_simp
  have now: "c_time 7" by (simp add: c_time_def int_max_def)
  have "?R (?s small_merger At_Poll None)" using t_reach.start by (simp add: start_threads_def)
  from t_reach.onward [OF this t_step.Look, of "''05''" 0 True] have "?R (?s small_merger (Got ''05'' True 0) None)"
    using r0 by simp
  from t_reach.onward [OF this t_step.Put, of "''05''" True 0 m] have "?R (?s m (Stored ''05'' True) None)"
    using m(1) by simp
  from t_reach.onward [OF this t_step.Arm, of "''05''" True 7 m2] have "?R (?s m2 At_Poll None)"
    using m(2) now by simp
  from t_reach.onward [OF this t_step.Look, of "''05''" 272 False] have "?R (?s m2 (Got ''05'' False 272) None)"
    using r by simp
  from t_reach.onward [OF this t_step.Begin, of 7 t "[]"]
  have "?R (?s m2 (Got ''05'' False 272) (Some ([], 7, timers m2, di_next t)))" using m(3) now by simp
  with that nz r n it show thesis by blast
qed


text \<open>
  C6: whatever the schedule, every request the timeout thread has queued is at any moment in
  exactly one place, whole and as often as it was queued: in a batch the cloud accepted, in
  the batch being sent, or in the queue.
\<close>

theorem threads_conserve:
  assumes "t_reach schar cs z st s" "batch_ok cs z" "init_merger h = Inr st"
  shows "mset (queued s) = mset (concat (map (chop (rsize z)) (accepted s))) +
    mset (chop (rsize z) (case send_buf (tsend s) of None \<Rightarrow> [] | Some b \<Rightarrow> b)) +
    mset (chop (rsize z) (nq_contents (queue (tmem s))))"
  using t_reach_inv [OF assms] by (simp add: t_inv_def sys_inv_def tview_def buf_of_def)

text \<open>A whole detection, and a whole run of the timers, as runs of the machine.\<close>

lemma t_reach_detection:
  assumes "t_reach schar cs z st s" "at_server s = At_Poll" "at_timers s = None" "int (length k) = ID_SIZE z" "c_time now"
    and "handle_student k (of_bool a) now (tmem s) = Inr m"
  shows "t_reach schar cs z st (s\<lparr>tmem := m\<rparr>)"
proof -
  obtain i m1 where p: "read_state k (tmem s) = Inr i" "write_state k (of_bool a) i (tmem s) = Inr m1" "set_timeout now k m1 = Inr m"
    using assms(6) unfolding handle_student_parts by auto
  note s1 = t_reach.onward [OF assms(1) t_step.Look [OF assms(2,4) p(1), of schar cs a]]
  from t_reach.onward [OF s1 t_step.Put, of k a i m1] p(2)
  have s2: "t_reach schar cs z st (s\<lparr>tmem := m1, at_server := Stored k a\<rparr>)" by simp
  from t_reach.onward [OF s2 t_step.Arm, of k a now m] p(3) assms(3,5)
  have "t_reach schar cs z st (s\<lparr>tmem := m, at_server := At_Poll\<rparr>)" by simp
  moreover have "s\<lparr>tmem := m, at_server := At_Poll\<rparr> = s\<lparr>tmem := m\<rparr>" using assms(2) by simp
  ultimately show ?thesis by metis
qed

fun detections :: "(string \<times> bool \<times> int) list \<Rightarrow> merger \<Rightarrow> merger res" where
  "detections [] st = Inr st"
| "detections ((k, a, now) # ds) st = bindR (handle_student k (of_bool a) now st) (detections ds)"

lemma t_reach_detections:
  "t_reach schar cs z st s \<Longrightarrow> at_server s = At_Poll \<Longrightarrow> at_timers s = None \<Longrightarrow>
    \<forall>(k, a, now)\<in>set ds. int (length k) = ID_SIZE z \<and> c_time now \<Longrightarrow> detections ds (tmem s) = Inr m \<Longrightarrow>
    t_reach schar cs z st (s\<lparr>tmem := m\<rparr>)"
proof (induction ds arbitrary: s)
  case Nil
  then have "s\<lparr>tmem := m\<rparr> = s" by (cases s) simp
  with Nil.prems(1) show ?case by simp
next
  case (Cons d ds)
  obtain k a now where d: "d = (k, a, now)" by (cases d)
  with Cons.prems(5) obtain m1 where m1: "handle_student k (of_bool a) now (tmem s) = Inr m1" "detections ds m1 = Inr m"
    by auto
  have "t_reach schar cs z st (s\<lparr>tmem := m1\<rparr>)"
    using t_reach_detection [OF Cons.prems(1-3) _ _ m1(1)] Cons.prems(4) d by simp
  from Cons.IH [OF this] Cons.prems m1(2) show ?case by simp
qed

lemma t_reach_loop:
  "t_reach schar cs z st s \<Longrightarrow> at_timers s = Some (tcs, now, prev, timer) \<Longrightarrow>
    timers_loop n tcs z now prev timer (tmem s) = Inr m \<Longrightarrow>
    \<exists>rs. t_reach schar cs z st (s\<lparr>tmem := m, at_timers := None, queued := rs\<rparr>)"
proof (induction n arbitrary: s prev timer)
  case (Suc n)
  show ?case
  proof (cases "timer = 0")
    case True
    have "t_reach schar cs z st (s\<lparr>at_timers := None\<rparr>)"
      using t_reach.onward [OF Suc.prems(1) t_step.Finish] Suc.prems(2) True by blast
    moreover have "s\<lparr>tmem := m, at_timers := None, queued := queued s\<rparr> = s\<lparr>at_timers := None\<rparr>"
      using Suc.prems(3) True by simp
    ultimately show ?thesis by metis
  next
    case False
    then obtain prev' timer' m1 k where
      it: "timer_iter tcs z now prev timer (tmem s) = Inr (prev', timer', m1, k)"
      and rest: "timers_loop n tcs z now prev' timer' m1 = Inr m"
      using Suc.prems(3) unfolding timers_loop_iter by auto
    from Suc.IH [OF t_reach.onward [OF Suc.prems(1) t_step.Iterate [OF Suc.prems(2) False it]], of prev' timer'] rest
    show ?thesis by simp
  qed
qed simp

lemma t_reach_check:
  assumes "t_reach schar cs z st s" "at_timers s = None" "c_time now" "check_timers tcs z now (tmem s) = Inr m"
  shows "\<exists>rs. t_reach schar cs z st (s\<lparr>tmem := m, queued := rs\<rparr>)"
proof -
  obtain t where t: "load (heap (tmem s)) (timers (tmem s)) = Inr t"
    and l: "timers_loop (length (heap (tmem s))) tcs z now (timers (tmem s)) (di_next t) (tmem s) = Inr m"
    using assms(4) by (auto simp: check_timers_def)
  have "t_reach schar cs z st (s\<lparr>at_timers := Some (tcs, now, timers (tmem s), di_next t)\<rparr>)"
    using t_reach.onward [OF assms(1) t_step.Begin [OF assms(2,3) t]] .
  from t_reach_loop [OF this, of tcs now "timers (tmem s)" "di_next t"] l
  obtain rs where "t_reach schar cs z st (s\<lparr>tmem := m, at_timers := None, queued := rs\<rparr>)" by auto
  moreover have "s\<lparr>tmem := m, at_timers := None, queued := rs\<rparr> = s\<lparr>tmem := m, queued := rs\<rparr>" using assms(2) by simp
  ultimately show ?thesis by metis
qed

theorem threads_conserve_witness:
  "\<exists>s. t_reach False small_conf small_sizes small_merger s \<and> mset (queued s) = {#''051.''#}"
proof -
  let ?ds = "[(''05'', True, 7), (''05'', True, 8), (''05'', True, 9), (''05'', False, 9), (''05'', False, 10), (''05'', False, 11)]"
  let ?s0 = "start_threads small_merger"
  have e: "case detections ?ds small_merger of Inl _ \<Rightarrow> False
      | Inr m1 \<Rightarrow> (case check_timers [] small_sizes 11 m1 of Inl _ \<Rightarrow> False | Inr m2 \<Rightarrow> nq_contents (queue m2) = ''051.'')"
    by code_simp
  then obtain m1 where m1: "detections ?ds small_merger = Inr m1"
    by (auto simp del: detections.simps split: sum.splits)
  from e obtain m2 where m2: "check_timers [] small_sizes 11 m1 = Inr m2" "nq_contents (queue m2) = ''051.''"
    unfolding m1 by (cases "check_timers [] small_sizes 11 m1") simp_all
  have r1: "t_reach False small_conf small_sizes small_merger (?s0\<lparr>tmem := m1\<rparr>)"
    by (rule t_reach_detections [OF t_reach.start, where ds = ?ds])
      (use m1 in \<open>simp_all add: start_threads_def c_time_def int_max_def del: detections.simps\<close>)
  obtain rs where r2: "t_reach False small_conf small_sizes small_merger (?s0\<lparr>tmem := m2, queued := rs\<rparr>)"
    using t_reach_check [OF r1, of 11 "[]" m2] m2(1) by (auto simp: start_threads_def c_time_def int_max_def)
  let ?s = "?s0\<lparr>tmem := m2, queued := rs\<rparr>"
  have "accepted ?s = []" "send_buf (tsend ?s) = None" "nq_contents (queue (tmem ?s)) = ''051.''"
    using m2(2) by (simp_all add: start_threads_def init_send_def)
  then have "mset (concat (map (chop (rsize small_sizes)) (accepted ?s))) +
    mset (chop (rsize small_sizes) (case send_buf (tsend ?s) of None \<Rightarrow> [] | Some b \<Rightarrow> b)) +
    mset (chop (rsize small_sizes) (nq_contents (queue (tmem ?s)))) = {#''051.''#}"
    by (simp add: chop_single)
  with threads_conserve [OF r2 small_batch_ok small_merger_init] r2 show ?thesis by metis
qed



end
