(* ===== verification/Process.thy ===== *)
theory Process
  imports Config
begin

text \<open>
  The process-wide parts of \<open>common/common.c\<close>: the start of every program with its
  arguments, log file and configuration, the signal handlers, and \<open>close_fds\<close>, which the
  receiver calls before it executes itself again. The log is shown to stay on an open
  stream, and exactly the descriptors not named to be closed.
\<close>

section \<open>Log file and configuration\<close>

text \<open>
  An open stream is \<open>stderr\<close> or the number of a successful \<open>fopen\<close>; \<open>closed_streams\<close>
  records the calls of \<open>fclose\<close>.
\<close>

datatype stream = Stderr | File nat

record process =
  logfile :: stream
  logfile_saved :: "string option"
  config :: config_state
  closed_streams :: "stream list"

text \<open>\<open>log_fp\<close> is the result of \<open>fopen\<close> on the log file, \<open>None\<close> for NULL.\<close>

definition init_params :: "files \<Rightarrow> string list \<Rightarrow> nat option \<Rightarrow> process res" where
  "init_params fs argv log_fp =
     (let argc = length argv in
      if argc \<noteq> 2 \<and> argc \<noteq> 3 then Inl Exited
      else case (if argc = 3 then map_option File log_fp else Some Stderr) of
        None \<Rightarrow> Inl Exited
      | Some log \<Rightarrow>
          bindR (load_config fs (argv ! 1) \<lparr>settings = [], saved_conf_file = None\<rparr>) (\<lambda>(ok, c).
            if \<not> ok then Inl Exited
            else Inr \<lparr>logfile = log, logfile_saved = (if argc = 3 then Some (argv ! 2) else None),
                      config = c, closed_streams = []\<rparr>))"

definition sighup_action :: "files \<Rightarrow> process \<Rightarrow> process res" where
  "sighup_action fs p = bindR (reload_configs fs (config p)) (\<lambda>(_, c). Inr (p\<lparr>config := c\<rparr>))"

definition sigusr1_action :: "nat option \<Rightarrow> process \<Rightarrow> process" where
  "sigusr1_action fp p =
     (case logfile_saved p of
        None \<Rightarrow> p
      | Some name \<Rightarrow> (case fp of
          Some n \<Rightarrow> p\<lparr>closed_streams := closed_streams p @ [logfile p], logfile := File n\<rparr>
        | None \<Rightarrow> p))"

definition sigpipe_action :: "process \<Rightarrow> process" where
  "sigpipe_action p = p"

text \<open>The signals a process handles, with what they find in the file system.\<close>

datatype signal = Hup files | Usr1 "nat option" | Pipe

fun handle_signal :: "signal \<Rightarrow> process \<Rightarrow> process res" where
  "handle_signal (Hup fs) p = sighup_action fs p"
| "handle_signal (Usr1 fp) p = Inr (sigusr1_action fp p)"
| "handle_signal Pipe p = Inr (sigpipe_action p)"

fun handle_signals :: "signal list \<Rightarrow> process \<Rightarrow> process res" where
  "handle_signals [] p = Inr p"
| "handle_signals (s # ss) p = bindR (handle_signal s p) (handle_signals ss)"

section \<open>Descriptors\<close>

definition NR_OPEN :: int where "NR_OPEN = 1024"

datatype fd_op = Open_Null | Dup int int | Close int

text \<open>
  The loop that copies the arguments into \<open>skip_fds\<close>, up to its 255 entries; the result
  includes the -1 that ends the list if there is one.
\<close>

fun skip_array :: "nat \<Rightarrow> int list \<Rightarrow> int list res" where
  "skip_array 0 args = Inr []"
| "skip_array (Suc n) [] = Inl Out_Of_Bounds"
| "skip_array (Suc n) (fd # args) =
     (if fd = - 1 then Inr [- 1] else bindR (skip_array n args) (\<lambda>sk. Inr (fd # sk)))"

text \<open>The search through the array; it runs past its end if -1 is missing.\<close>

fun skipped :: "int \<Rightarrow> int list \<Rightarrow> bool res" where
  "skipped fd [] = Inl Out_Of_Bounds"
| "skipped fd (x # xs) = (if x = fd then Inr True else if x = - 1 then Inr False else skipped fd xs)"

fun close_loop :: "int list \<Rightarrow> int list \<Rightarrow> fd_op list res" where
  "close_loop sk [] = Inr []"
| "close_loop sk (fd # fds) =
     bindR (skipped fd sk) (\<lambda>s. bindR (close_loop sk fds) (\<lambda>ops. Inr (if s then ops else Close fd # ops)))"

text \<open>\<open>null_fd\<close> is the result of opening \<open>/dev/null\<close>, \<open>open_max\<close> that of \<open>sysconf\<close>.\<close>

definition close_fds :: "int \<Rightarrow> int \<Rightarrow> bool \<Rightarrow> int list \<Rightarrow> fd_op list res" where
  "close_fds open_max null_fd close_std args =
     (let top = max open_max NR_OPEN;
          std = (if \<not> close_std then []
                 else if null_fd \<noteq> - 1 then [Open_Null, Dup null_fd 0, Dup null_fd 1, Dup null_fd 2]
                 else [Open_Null, Close 0, Close 1, Close 2])
      in bindR (skip_array 255 args) (\<lambda>sk.
         bindR (close_loop sk [3..top - 1]) (\<lambda>ops. Inr (std @ ops))))"

definition close_all_fds :: "int \<Rightarrow> int \<Rightarrow> fd_op list res" where
  "close_all_fds open_max null_fd = close_fds open_max null_fd True [- 1]"

section \<open>Proofs\<close>

lemma skip_array_ok:
  "length fds < n \<Longrightarrow> - 1 \<notin> set fds \<Longrightarrow> skip_array n (fds @ - 1 # args) = Inr (fds @ [- 1])"
proof (induction fds arbitrary: n)
  case Nil
  then show ?case by (cases n) simp_all
next
  case (Cons fd fds)
  then show ?case by (cases n) auto
qed

lemma skipped_ok: "fd \<noteq> - 1 \<Longrightarrow> - 1 \<notin> set fds \<Longrightarrow> skipped fd (fds @ [- 1]) = Inr (fd \<in> set fds)"
  by (induction fds) auto

lemma close_loop_ok:
  "- 1 \<notin> set fds \<Longrightarrow> - 1 \<notin> set xs \<Longrightarrow>
    close_loop (fds @ [- 1]) xs = Inr (map Close (filter (\<lambda>fd. fd \<notin> set fds) xs))"
  by (induction xs) (auto simp: skipped_ok)

lemma signal_logfile:
  "handle_signal s p = Inr p' \<Longrightarrow>
    (logfile p' = logfile p \<and> closed_streams p' = closed_streams p) \<or>
    (\<exists>n. s = Usr1 (Some n) \<and> logfile p' = File n \<and> closed_streams p' = closed_streams p @ [logfile p])"
  by (cases s) (auto simp: sighup_action_def sigusr1_action_def sigpipe_action_def split: option.splits)

text \<open>The numbers of the streams opened on the way.\<close>

fun opened :: "signal \<Rightarrow> nat list" where
  "opened (Usr1 (Some n)) = [n]"
| "opened _ = []"

text \<open>
  The log is never written to a closed stream: if every \<open>fopen\<close> returns a new stream, no
  sequence of signals leaves the process with a log file that was closed.
\<close>

theorem logfile_open:
  assumes "handle_signals ss p = Inr p'" "logfile p \<notin> set (closed_streams p)"
    and "distinct (map File (concat (map opened ss)))"
    and "set (map File (concat (map opened ss))) \<inter> insert (logfile p) (set (closed_streams p)) = {}"
  shows "logfile p' \<notin> set (closed_streams p')"
  using assms
proof (induction ss arbitrary: p)
  case Nil
  then show ?case by simp
next
  case (Cons s ss)
  obtain p1 where p1: "handle_signal s p = Inr p1" "handle_signals ss p1 = Inr p'"
    using Cons.prems(1) by auto
  have d: "distinct (map File (concat (map opened ss)))" using Cons.prems(3) by auto
  from signal_logfile [OF p1(1)] show ?case
  proof (elim disjE conjE exE)
    assume eq: "logfile p1 = logfile p" "closed_streams p1 = closed_streams p"
    let ?N = "set (map File (concat (map opened ss)))"
    have "set (map File (concat (map opened (s # ss)))) = set (map File (opened s)) \<union> ?N" by (simp add: image_Un)
    then have "?N \<inter> insert (logfile p) (set (closed_streams p)) = {}" using Cons.prems(4) by (simp only: Int_Un_distrib2 Un_empty)
    then have "?N \<inter> insert (logfile p1) (set (closed_streams p1)) = {}" by (simp only: eq)
    with Cons.IH [OF p1(2) _ d] Cons.prems(2) eq show ?case by simp
  next
    fix n assume n: "s = Usr1 (Some n)" "logfile p1 = File n" "closed_streams p1 = closed_streams p @ [logfile p]"
    then have f: "File n \<notin> set (map File (concat (map opened ss)))" "logfile p \<noteq> File n"
      "File n \<notin> set (closed_streams p)" using Cons.prems(3,4) by auto
    show ?case
    proof (rule Cons.IH [OF p1(2) _ d])
      show "logfile p1 \<notin> set (closed_streams p1)" using n f by auto
      show "set (map File (concat (map opened ss))) \<inter> insert (logfile p1) (set (closed_streams p1)) = {}"
        using Cons.prems(4) n f by auto
    qed
  qed
qed

theorem logfile_open_witness:
  "\<exists>p p'. init_params (\<lambda>_. Some ''a=b\<newline>'') [''p'', ''c'', ''l''] (Some 3) = Inr p \<and>
     handle_signals [Usr1 None, Usr1 (Some 4), Pipe] p = Inr p' \<and> logfile p' = File 4 \<and>
     logfile p' \<notin> set (closed_streams p')"
proof -
  let ?p = "\<lparr>logfile = File 3, logfile_saved = Some ''l'',
    config = \<lparr>settings = [(''a'', ''b'')], saved_conf_file = Some ''c''\<rparr>, closed_streams = []\<rparr>"
  have i: "init_params (\<lambda>_. Some ''a=b\<newline>'') [''p'', ''c'', ''l''] (Some 3) = Inr ?p" by code_simp
  have h: "handle_signals [Usr1 None, Usr1 (Some 4), Pipe] ?p = Inr (?p\<lparr>logfile := File 4, closed_streams := [File 3]\<rparr>)"
    by (simp add: sigusr1_action_def sigpipe_action_def)
  from logfile_open [OF h] have "File 4 \<notin> set [File 3]" by simp
  with i h show ?thesis by simp
qed

text \<open>
  \<open>close_fds\<close> closes every descriptor from 3 up to the limit exactly once, except those in
  its list of at most 254.
\<close>

theorem close_fds_closes:
  assumes "length fds < 255" "- 1 \<notin> set fds"
  shows "close_fds open_max null_fd False (fds @ [- 1]) =
    Inr (map Close (filter (\<lambda>fd. fd \<notin> set fds) [3..max open_max NR_OPEN - 1]))"
  using assms by (simp add: close_fds_def Let_def skip_array_ok close_loop_ok)

theorem close_fds_closes_witness:
  "close_fds 5 (- 1) False [7, - 1] = Inr (map Close (filter (\<lambda>fd. fd \<notin> {7}) [3..1023]))"
proof -
  have a: "length [7 :: int] < 255" "- 1 \<notin> set [7 :: int]" by simp_all
  have m: "max 5 NR_OPEN - 1 = 1023" by (simp add: NR_OPEN_def)
  show ?thesis using close_fds_closes [OF a, of 5 "- 1", unfolded m] by (simp only: append.simps list.set)
qed

end
