(* ===== verification/Logging.thy ===== *)
theory Logging
  imports Hex Config Process
begin

text \<open>
  The log of every program: \<open>print_time\<close> and the macros of \<open>common/common.h\<close> that put time,
  source file and line in front of a message, \<open>print_buf\<close>, the assertions that log and exit,
  and the thread that flushes the stream. A log line is a string; the stream is what was
  flushed to the file and what is still in the buffer of the C library.
\<close>

section \<open>Times\<close>

text \<open>The broken-down local time, year and month as printed; \<open>tm_usec\<close> is \<open>tv_usec\<close>.\<close>

record local_time =
  tm_year :: nat
  tm_mon :: nat
  tm_mday :: nat
  tm_hour :: nat
  tm_min :: nat
  tm_sec :: nat
  tm_usec :: nat

definition TIME_BUFSIZE :: nat where "TIME_BUFSIZE = 30"

text \<open>\<open>%0wd\<close> of \<open>printf\<close>, for numbers that are not negative.\<close>

definition zero_padded :: "nat \<Rightarrow> nat \<Rightarrow> string" where
  "zero_padded w n = replicate (w - length (dec_string n)) (CHR ''0'') @ dec_string n"

text \<open>\<open>strftime\<close> with the format of the source.\<close>

definition strftime :: "local_time \<Rightarrow> string" where
  "strftime t = dec_string (tm_year t) @ ''-'' @ zero_padded 2 (tm_mon t) @ ''-'' @ zero_padded 2 (tm_mday t) @ '' '' @
     zero_padded 2 (tm_hour t) @ '':'' @ zero_padded 2 (tm_min t) @ '':'' @ zero_padded 2 (tm_sec t)"

text \<open>
  The static buffer gets the date, if it fits with its NUL, and then the milliseconds behind
  it, which nothing bounds.
\<close>

definition print_time :: "local_time \<Rightarrow> string res" where
  "print_time t =
     bindR (checkR (length (strftime t) < TIME_BUFSIZE) Out_Of_Bounds) (\<lambda>_.
       let s = strftime t @ ''.'' @ zero_padded 3 (tm_usec t div 1000)
       in bindR (checkR (length s < TIME_BUFSIZE) Out_Of_Bounds) (\<lambda>_. Inr s))"

section \<open>Lines\<close>

text \<open>What follows the last occurrence of a character, that character included.\<close>

fun strrchr :: "string \<Rightarrow> char \<Rightarrow> string option" where
  "strrchr [] c = None"
| "strrchr (x # xs) c = (case strrchr xs c of Some s \<Rightarrow> Some s | None \<Rightarrow> if x = c then Some (x # xs) else None)"

text \<open>\<open>__FILENAME__\<close> of a \<open>__FILE__\<close>.\<close>

definition file_name :: "string \<Rightarrow> string" where
  "file_name path = (case strrchr path CHR ''/'' of None \<Rightarrow> path | Some s \<Rightarrow> List.tl s)"

text \<open>A place of the source, and the line \<open>generic_debug\<close> prints for it.\<close>

type_synonym place = "string \<times> nat"

abbreviation TAB :: char where "TAB \<equiv> CHR 0x09"

definition generic_debug :: "local_time \<Rightarrow> place \<Rightarrow> string \<Rightarrow> string \<Rightarrow> string res" where
  "generic_debug t pl prepend_text msg =
     bindR (print_time t) (\<lambda>time.
       Inr (''['' @ time @ ''] '' @ file_name (fst pl) @ '':'' @ dec_string (snd pl) @ [TAB] @ prepend_text @ msg @ [NL]))"

definition debug :: "local_time \<Rightarrow> place \<Rightarrow> string \<Rightarrow> string res" where
  "debug t pl msg = generic_debug t pl [] msg"

definition fatal :: "local_time \<Rightarrow> place \<Rightarrow> string \<Rightarrow> string res" where
  "fatal t pl msg = generic_debug t pl ''FATAL: '' msg"

definition LOG_VERBOSE :: "conf \<Rightarrow> bool" where
  "LOG_VERBOSE cs \<longleftrightarrow> config_int cs ''debug.log_verbose'' = 1"

text \<open>Nothing is printed, and the time not taken, unless the log is verbose.\<close>

definition debug_verbose :: "conf \<Rightarrow> local_time \<Rightarrow> place \<Rightarrow> string \<Rightarrow> string res" where
  "debug_verbose cs t pl msg = (if LOG_VERBOSE cs then debug t pl msg else Inr [])"

definition print_buf :: "local_time \<Rightarrow> uchar list \<Rightarrow> string res" where
  "print_buf t buf = debug t (''common.c'', 40) (''Received ID: '' @ sprint_buf buf)"

text \<open>
  The assertions: the text logged, and whether the process goes on. \<open>IF_ERROR\<close> asserts that
  a system call did not return -1.
\<close>

definition assert_msg :: "local_time \<Rightarrow> place \<Rightarrow> bool \<Rightarrow> string \<Rightarrow> int \<Rightarrow> (bool \<times> string) res" where
  "assert_msg t pl holds msg errno =
     (if holds then Inr (True, [])
      else bindR (fatal t pl (''assertion failed: '' @ msg @ '' (errno '' @ dec_int errno @ '')'')) (\<lambda>l. Inr (False, l)))"

definition IF_ERROR :: "local_time \<Rightarrow> place \<Rightarrow> int \<Rightarrow> string \<Rightarrow> int \<Rightarrow> (bool \<times> string) res" where
  "IF_ERROR t pl ret msg errno = assert_msg t pl (ret \<noteq> - 1) msg errno"

section \<open>The stream\<close>

text \<open>
  What the file holds and what the library has buffered. The library may write its buffer
  at any time; \<open>fflush\<close> writes all of it.
\<close>

record log_stream =
  in_file :: string
  in_buffer :: string

datatype log_event = Print string | Library_Write nat | Flush

text \<open>
  \<open>Flush\<close> is one round of \<open>cron_logflush\<close> with an open log file.
\<close>

fun log_step :: "log_event \<Rightarrow> log_stream \<Rightarrow> log_stream" where
  "log_step (Print s) l = l\<lparr>in_buffer := in_buffer l @ s\<rparr>"
| "log_step (Library_Write n) l = \<lparr>in_file = in_file l @ take n (in_buffer l), in_buffer = drop n (in_buffer l)\<rparr>"
| "log_step Flush l = \<lparr>in_file = in_file l @ in_buffer l, in_buffer = []\<rparr>"

definition printed :: "log_event list \<Rightarrow> string" where
  "printed es = concat (map (\<lambda>e. case e of Print s \<Rightarrow> s | _ \<Rightarrow> []) es)"

section \<open>Lemmas\<close>

lemma length_zero_padded: "n < 10 ^ w \<Longrightarrow> 0 < w \<Longrightarrow> length (zero_padded w n) = w"
  using length_dec_string [of n w] by (simp add: zero_padded_def)

lemma strrchr_after: "c \<notin> set s \<Longrightarrow> strrchr (c # s) c = Some (c # s) \<and> strrchr s c = None"
proof -
  assume c: "c \<notin> set s"
  then have "strrchr s c = None" by (induction s) auto
  then show ?thesis by simp
qed

lemma strrchr_append: "strrchr s c = Some r \<Longrightarrow> strrchr (d @ s) c = Some r"
  by (induction d) simp_all

lemma file_name_dir: "CHR ''/'' \<notin> set f \<Longrightarrow> file_name (d @ ''/'' @ f) = f \<and> file_name f = f"
  using strrchr_after [of "CHR ''/''" f] strrchr_append [of "''/'' @ f" "CHR ''/''" "''/'' @ f" d]
  by (simp add: file_name_def)

lemma log_step_total:
  "in_file (log_step e l) @ in_buffer (log_step e l) = in_file l @ in_buffer l @ printed [e]"
  by (cases e) (simp_all add: printed_def)

lemma log_steps_total:
  "in_file (fold log_step es l) @ in_buffer (fold log_step es l) = in_file l @ in_buffer l @ printed es"
proof (induction es arbitrary: l)
  case (Cons e es)
  show ?case using Cons.IH [of "log_step e l"] log_step_total [of e l]
    by (simp add: printed_def)
qed (simp add: printed_def)

text \<open>The times \<open>localtime\<close> makes of a 32-bit clock.\<close>

definition time_fits :: "local_time \<Rightarrow> bool" where
  "time_fits t \<longleftrightarrow> 1000 \<le> tm_year t \<and> tm_year t < 10000 \<and> tm_mon t \<le> 12 \<and> tm_mday t \<le> 31 \<and> tm_hour t < 24 \<and>
     tm_min t < 60 \<and> tm_sec t \<le> 60 \<and> tm_usec t < 1000000"

lemma length_dec4: "1000 \<le> n \<Longrightarrow> n < 10000 \<Longrightarrow> length (dec_string n) = 4"
proof -
  assume n: "1000 \<le> n" "n < 10000"
  have d: "length (dec_string m) = Suc (length (dec_string (m div 10)))" if "10 \<le> m" for m
    using that by (subst dec_string.simps) simp
  have "length (dec_string (n div 10 div 10 div 10)) = 1"
  proof -
    have "n div 10 div 10 div 10 < 10" using n by simp
    then show ?thesis by (subst dec_string.simps) simp
  qed
  moreover have "10 \<le> n div 10" "10 \<le> n div 10 div 10" using n by simp_all
  ultimately show ?thesis using d [of n] d [of "n div 10"] d [of "n div 10 div 10"] n by simp
qed

lemma length_millis: "time_fits t \<Longrightarrow> length (zero_padded 3 (tm_usec t div 1000)) = 3"
proof -
  assume "time_fits t"
  then have "tm_usec t < 1000 * 1000" by (simp add: time_fits_def)
  then have "tm_usec t div 1000 < 1000" by (rule less_mult_imp_div_less)
  then show ?thesis by (intro length_zero_padded) simp_all
qed

lemma print_time_ok:
  assumes "time_fits t"
  shows "print_time t = Inr (strftime t @ ''.'' @ zero_padded 3 (tm_usec t div 1000))"
    "length (strftime t @ ''.'' @ zero_padded 3 (tm_usec t div 1000)) = 23"
proof -
  have ms: "length (zero_padded 3 (tm_usec t div 1000)) = 3" using assms by (rule length_millis)
  have two: "n < 100 \<Longrightarrow> length (zero_padded 2 n) = 2" for n using length_zero_padded [of n 2] by simp
  have d: "length (strftime t) = 19"
    using assms length_dec4 by (simp add: strftime_def two time_fits_def)
  show "print_time t = Inr (strftime t @ ''.'' @ zero_padded 3 (tm_usec t div 1000))"
    using d ms by (simp add: print_time_def TIME_BUFSIZE_def Let_def)
  show "length (strftime t @ ''.'' @ zero_padded 3 (tm_usec t div 1000)) = 23" using d ms by simp
qed

section \<open>Properties\<close>

text \<open>
  With a clock in the years of four digits, the time fits the static buffer with room to spare:
  it is always 23 characters, date, time and milliseconds, and no write leaves the 30 bytes.
\<close>

theorem print_time_fits:
  assumes "time_fits t"
  shows "\<exists>s. print_time t = Inr s \<and> length s = 23 \<and> take 19 s = strftime t \<and> Suc (length s) \<le> TIME_BUFSIZE"
proof -
  have "length (strftime t) = 19"
    using print_time_ok(2) [OF assms] length_millis [OF assms] by simp
  with print_time_ok [OF assms] show ?thesis by (simp add: TIME_BUFSIZE_def)
qed

definition some_time :: local_time where
  "some_time = \<lparr>tm_year = 2014, tm_mon = 3, tm_mday = 7, tm_hour = 8, tm_min = 5, tm_sec = 9, tm_usec = 12345\<rparr>"

theorem print_time_fits_witness: "print_time some_time = Inr ''2014-03-07 08:05:09.012''"
proof -
  have "time_fits some_time" by (simp add: time_fits_def some_time_def)
  from print_time_fits [OF this] obtain s where s: "print_time some_time = Inr s" by blast
  have "print_time some_time = Inr ''2014-03-07 08:05:09.012''" by code_simp
  with s show ?thesis by simp
qed

text \<open>
  The file always holds a beginning of what was printed, in order and nothing else, however the
  library writes its buffer, and after a round of the flushing thread it holds all of it.
\<close>

theorem log_flushed:
  "\<exists>rest. printed es = in_file (fold log_step es \<lparr>in_file = [], in_buffer = []\<rparr>) @ rest \<and>
    in_file (fold log_step (es @ [Flush]) \<lparr>in_file = [], in_buffer = []\<rparr>) = printed es"
proof -
  let ?l = "fold log_step es \<lparr>in_file = [], in_buffer = []\<rparr>"
  have t: "in_file ?l @ in_buffer ?l = printed es" using log_steps_total [of es "\<lparr>in_file = [], in_buffer = []\<rparr>"] by simp
  then show ?thesis by (intro exI [of _ "in_buffer ?l"]) simp
qed

end
