(* ===== verification/Region_Test.thy ===== *)
theory Region_Test
  imports C_Prelude
begin

text \<open>
  \<open>region-test/\<close>, the display that follows the merger's log: \<open>updater.c\<close> (reading the log line
  by line as it grows) and \<open>timer.c\<close> (switching a bar off after a second of silence). Drawing
  is the pair of flags \<open>background\<close>.
\<close>

section \<open>State\<close>

definition MASTER :: nat where "MASTER = 0"
definition SLAVE :: nat where "SLAVE = 1"
definition MAX_LINE_LEN :: nat where "MAX_LINE_LEN = 1024"

text \<open>
  \<open>log_pos\<close>: the position of the open log, \<open>None\<close> before it is opened. \<open>linebuf\<close>: the first
  \<open>buflen\<close> bytes of the static buffer. Times are seconds and microseconds.
\<close>

type_synonym timeval = "int \<times> int"

record region =
  log_pos :: "nat option"
  linebuf :: "uchar list"
  last_recv_time :: "timeval list"
  background :: "bool list"
  warned :: bool

definition init_region :: region where
  "init_region = \<lparr>log_pos = None, linebuf = [], last_recv_time = [(0, 0), (0, 0)],
     background = [False, False], warned = False\<rparr>"

section \<open>The updater thread\<close>

definition here :: "timeval \<Rightarrow> nat \<Rightarrow> region \<Rightarrow> region" where
  "here now device r = r\<lparr>last_recv_time := (last_recv_time r)[device := now],
     background := (background r)[device := True]\<rparr>"

text \<open>\<open>strndup\<close> stops at a NUL byte.\<close>

definition line_device :: "uchar list \<Rightarrow> nat option" where
  "line_device line =
     (let dup = map (\<lambda>c. char_of (unat c)) (takeWhile (\<lambda>c. c \<noteq> 0) line) in
      if strstr dup ''master'' \<noteq> None then Some MASTER
      else if strstr dup ''slave'' \<noteq> None then Some SLAVE
      else None)"

definition parse_line :: "timeval \<Rightarrow> uchar list \<Rightarrow> region \<Rightarrow> region" where
  "parse_line now line r =
     (case line_device line of None \<Rightarrow> r | Some d \<Rightarrow> here now d r)"

text \<open>
  The loop of \<open>nextline\<close> over what follows the position: the number of bytes read, the buffer,
  and whether the line is complete. A byte 255 is taken for the end of the file.
\<close>

fun read_chars :: "uchar list \<Rightarrow> uchar list \<Rightarrow> nat \<times> uchar list \<times> bool" where
  "read_chars buf [] = (0, buf, False)"
| "read_chars buf (c # cs) =
     (if c = 255 then (1, buf, False)
      else if c = 10 then (1, buf, True)
      else if 128 \<le> c then (let (n, r) = read_chars buf cs in (Suc n, r))
      else if Suc (length buf) = MAX_LINE_LEN then (1, buf @ [c], True)
      else (let (n, r) = read_chars (buf @ [c]) cs in (Suc n, r)))"

text \<open>
  \<open>file\<close> is the log as it is at the time of the call, \<open>None\<close> when it cannot be opened. The
  value returned is the line handed to \<open>parse_line\<close>, if any.
\<close>

definition nextline :: "timeval \<Rightarrow> uchar list option \<Rightarrow> region \<Rightarrow> uchar list option \<times> region" where
  "nextline now file r =
     (case log_pos r of
        None \<Rightarrow> (case file of
            None \<Rightarrow> (None, r\<lparr>warned := True\<rparr>)
          | Some bytes \<Rightarrow> (None, r\<lparr>log_pos := Some (length bytes - 1)\<rparr>))
      | Some pos \<Rightarrow>
          (case read_chars (linebuf r) (drop pos (case file of None \<Rightarrow> [] | Some bytes \<Rightarrow> bytes)) of
             (n, buf, False) \<Rightarrow> (None, r\<lparr>log_pos := Some (pos + n), linebuf := buf\<rparr>)
           | (n, buf, True) \<Rightarrow>
               (Some buf, parse_line now buf (r\<lparr>log_pos := Some (pos + n), linebuf := []\<rparr>))))"

text \<open>The loop of \<open>init_updater\<close>: one call of \<open>nextline\<close> per event.\<close>

fun init_updater :: "(timeval \<times> uchar list option) list \<Rightarrow> region \<Rightarrow> uchar list list \<times> region" where
  "init_updater [] r = ([], r)"
| "init_updater ((now, file) # es) r =
     (let (l, r1) = nextline now file r; (ls, r2) = init_updater es r1 in
      ((case l of None \<Rightarrow> [] | Some x \<Rightarrow> [x]) @ ls, r2))"

section \<open>The timer thread\<close>

definition time_diff :: "timeval \<Rightarrow> timeval \<Rightarrow> int res" where
  "time_diff t1 t2 =
     bindR (c_int (fst t1 - fst t2)) (\<lambda>s.
     bindR (c_int (s * 1000)) (\<lambda>ms.
     bindR (c_int (snd t1 - snd t2)) (\<lambda>us. c_int (ms + c_div us 1000))))"

definition check_device :: "timeval \<Rightarrow> nat \<Rightarrow> region \<Rightarrow> region res" where
  "check_device time dev r =
     bindR (time_diff time (last_recv_time r ! dev)) (\<lambda>d.
       Inr (if d > 1000 then r\<lparr>background := (background r)[dev := False]\<rparr> else r))"

definition check_status :: "timeval \<Rightarrow> region \<Rightarrow> region res" where
  "check_status time r = bindR (check_device time MASTER r) (check_device time SLAVE)"

section \<open>Reading a growing file\<close>

text \<open>The lines of a byte sequence, with an unfinished line \<open>buf\<close> before it.\<close>

fun log_lines :: "uchar list \<Rightarrow> uchar list \<Rightarrow> uchar list list" where
  "log_lines buf [] = []"
| "log_lines buf (c # cs) =
     (if c = 10 then buf # log_lines [] cs
      else if 128 \<le> c then log_lines buf cs
      else if Suc (length buf) = MAX_LINE_LEN then (buf @ [c]) # log_lines [] cs
      else log_lines (buf @ [c]) cs)"

lemma read_chars_lines:
  "255 \<notin> set cs \<Longrightarrow> read_chars buf cs = (n, buf', e) \<Longrightarrow>
    n \<le> length cs \<and> (\<not> e \<longrightarrow> n = length cs) \<and>
    log_lines buf (cs @ xs) =
      (if e then buf' # log_lines [] (drop n cs @ xs) else log_lines buf' xs)"
proof (induction buf cs arbitrary: n buf' e rule: read_chars.induct)
  case (1 buf)
  then show ?case by simp
next
  case (2 buf c cs)
  consider "c = 10" | "c \<noteq> 10" "128 \<le> c" | "c \<noteq> 10" "\<not> 128 \<le> c" "Suc (length buf) = MAX_LINE_LEN"
    | "c \<noteq> 10" "\<not> 128 \<le> c" "Suc (length buf) \<noteq> MAX_LINE_LEN" by blast
  then show ?case
  proof cases
    case 1
    with "2.prems" show ?thesis by auto
  next
    case 2
    with "2.prems" "2.IH"(1) show ?thesis by (auto split: prod.splits if_splits)
  next
    case 3
    with "2.prems" show ?thesis by auto
  next
    case 4
    with "2.prems" "2.IH"(2) show ?thesis by (auto split: prod.splits if_splits)
  qed
qed

lemma parse_line_simps [simp]:
  "log_pos (parse_line now l r) = log_pos r" "linebuf (parse_line now l r) = linebuf r"
  by (simp_all add: parse_line_def here_def split: option.split)

text \<open>The snapshots of a log that only grows, up to \<open>final\<close>.\<close>

fun growing :: "uchar list \<Rightarrow> (timeval \<times> uchar list option) list \<Rightarrow> bool" where
  "growing final [] \<longleftrightarrow> True"
| "growing final ((t, file) # es) \<longleftrightarrow>
     (case file of None \<Rightarrow> False | Some b \<Rightarrow> take (length b) final = b) \<and> growing final es"

lemma drop_snapshot:
  assumes "take (length b) final = b"
  shows "drop pos final = drop pos b @ drop (pos + length (drop pos b)) final"
proof (cases "pos \<le> length b")
  case True
  have "drop pos final = drop pos (take (length b) final @ drop (length b) final)" by simp
  with True assms show ?thesis by simp
next
  case False
  then show ?thesis by simp
qed

lemma updater_lines:
  "growing final es \<Longrightarrow> 255 \<notin> set final \<Longrightarrow> log_pos r = Some pos \<Longrightarrow> init_updater es r = (ls, r') \<Longrightarrow>
    \<exists>pos'. log_pos r' = Some pos' \<and>
      log_lines (linebuf r) (drop pos final) = ls @ log_lines (linebuf r') (drop pos' final)"
proof (induction es arbitrary: r pos ls)
  case Nil
  then show ?case by auto
next
  case (Cons ev es)
  obtain now snap where ev: "ev = (now, snap)" by (cases ev)
  obtain b where b: "snap = Some b" "take (length b) final = b" "growing final es"
    using Cons.prems(1) ev by (auto split: option.splits)
  let ?r = "snd (nextline now snap r)"
  obtain n buf e where rc: "read_chars (linebuf r) (drop pos b) = (n, buf, e)"
    using prod_cases3 by blast
  obtain ls1 where rest: "init_updater es ?r = (ls1, r')"
    "ls = (case fst (nextline now snap r) of None \<Rightarrow> [] | Some x \<Rightarrow> [x]) @ ls1"
    using Cons.prems(4) ev by (auto simp: Let_def split: prod.splits)
  have no: "255 \<notin> set (drop pos b)"
    using Cons.prems(2) arg_cong [OF b(2), of set] by (auto dest!: in_set_dropD dest: in_set_takeD)
  note rl = read_chars_lines [OF no rc, of "drop (pos + length (drop pos b)) final"]
  have cut: "drop pos final = drop pos b @ drop (pos + length (drop pos b)) final"
    using b(2) by (rule drop_snapshot)
  have after: "drop n (drop pos b) @ drop (pos + length (drop pos b)) final = drop (pos + n) final"
    using arg_cong [OF cut, of "drop n"] rl by (simp add: add.commute)
  have nl: "log_pos ?r = Some (pos + n)"
    using rc b(1) Cons.prems(3) by (simp add: nextline_def split: bool.split)
  have step: "log_lines (linebuf r) (drop pos final) =
      (case fst (nextline now snap r) of None \<Rightarrow> [] | Some x \<Rightarrow> [x]) @ log_lines (linebuf ?r) (drop (pos + n) final)"
    using rl rc b(1) Cons.prems(3) after cut by (cases e) (simp_all add: nextline_def)
  from Cons.IH [OF b(3) Cons.prems(2) nl rest(1)] step rest(2) show ?case by auto
qed

lemma updater_count: "init_updater es r = (ls, r') \<Longrightarrow> log_pos r = Some pos \<Longrightarrow> length ls \<le> length es"
proof (induction es arbitrary: r ls pos)
  case Nil
  then show ?case by simp
next
  case (Cons ev es)
  obtain now snap where ev: "ev = (now, snap)" by (cases ev)
  have "\<exists>q. log_pos (snd (nextline now snap r)) = Some q"
    using Cons.prems(2) by (auto simp: nextline_def split: prod.splits bool.splits)
  then obtain q where q: "log_pos (snd (nextline now snap r)) = Some q" by blast
  obtain ls1 where rest: "init_updater es (snd (nextline now snap r)) = (ls1, r')"
    "ls = (case fst (nextline now snap r) of None \<Rightarrow> [] | Some x \<Rightarrow> [x]) @ ls1"
    using Cons.prems(1) ev by (auto simp: Let_def split: prod.splits)
  from Cons.IH [OF rest(1) q] rest(2) show ?case by (auto split: option.split)
qed



text \<open>
  Before a device was seen its time is zero, and the difference to the clock, in milliseconds,
  does not fit an \<open>int\<close>.
\<close>

lemma timer_overflows:
  assumes "2147484 \<le> sec"
  shows "check_status (sec, usec) init_region = Inl Signed_Overflow"
proof (cases "sec \<le> int_max")
  case True
  with assms have "int_min \<le> sec" "\<not> sec * 1000 \<le> int_max" by (simp_all add: int_min_def int_max_def)
  with True show ?thesis
    by (simp add: check_status_def check_device_def time_diff_def init_region_def MASTER_def c_int_def)
next
  case False
  then show ?thesis
    by (simp add: check_status_def check_device_def time_diff_def init_region_def MASTER_def c_int_def)
qed

text \<open>A bar is on from the packet of its device until a check more than a second later.\<close>

lemma bar_off:
  assumes "time_diff t (last_recv_time r ! dev) = Inr d" "dev < length (background r)"
  shows "\<exists>r'. check_device t dev r = Inr r' \<and> background r' ! dev = (background r ! dev \<and> d \<le> 1000)"
  using assms by (auto simp: check_device_def)

end
