(* ===== verification/Merger_Log.thy ===== *)
theory Merger_Log
  imports Logging Region_Test Student
begin

text \<open>
  The messages the server and the timeout thread of the merger write into the log, and what
  the display of \<open>region-test/\<close>, which looks for the words master and slave in every line,
  makes of them.
\<close>

section \<open>Messages\<close>

text \<open>\<open>%x\<close> of \<open>printf\<close>.\<close>

fun hex_string :: "nat \<Rightarrow> string" where
  "hex_string n =
     (if n < 16 then [tohexchar (int n)] else hex_string (n div 16) @ [tohexchar (int (n mod 16))])"

declare hex_string.simps [simp del]

definition counts_text :: "student_state \<Rightarrow> string" where
  "counts_text s = '' head_master_count '' @ dec_string (unat (head_master_count s)) @
     '' head_slave_count '' @ dec_string (unat (head_slave_count s)) @
     '' head_count '' @ dec_int (head_count s) @ '' tail '' @ hex_string (unat (tail s))"

text \<open>True stands for the slave, as \<open>action\<close> and the index of a connection do.\<close>

datatype merger_msg =
    Seen string bool student_state
  | Invalid_Packet
  | Polling_Error
  | Connected bool string
  | Read_Error bool
  | Connection_Exit bool
  | Notified string bool
  | Queue_Grown int
  | Timed_Out string student_state

definition receiver_name :: "bool \<Rightarrow> string" where
  "receiver_name i = (if i then ''slave'' else ''master'')"

text \<open>The texts.\<close>

abbreviation (input) seen_text :: "string \<Rightarrow> bool \<Rightarrow> student_state \<Rightarrow> string" where
  "seen_text sid action s \<equiv> ''student '' @ sid @ '' at '' @ receiver_name action @ counts_text s"

abbreviation (input) master_connected_text :: "string \<Rightarrow> string" where
  "master_connected_text addr \<equiv> ''master ('' @ addr @ '') connected''"

abbreviation (input) slave_connected_text :: "string \<Rightarrow> string" where
  "slave_connected_text addr \<equiv> ''slave ('' @ addr @ '') connected''"

abbreviation (input) read_error_text :: "bool \<Rightarrow> string" where
  "read_error_text i \<equiv> ''read from '' @ receiver_name i"

abbreviation (input) exit_text :: "bool \<Rightarrow> string" where
  "exit_text i \<equiv> receiver_name i @ '' exit''"

abbreviation (input) notified_text :: "string \<Rightarrow> bool \<Rightarrow> string" where
  "notified_text sid action \<equiv> ''Notify: student '' @ sid @ '' action '' @ (if action then ''IN'' else ''OUT'')"

abbreviation (input) grown_text :: "int \<Rightarrow> string" where
  "grown_text n \<equiv> ''realloc notify_queue size to '' @ dec_int n"

abbreviation (input) timed_out_text :: "string \<Rightarrow> student_state \<Rightarrow> string" where
  "timed_out_text sid s \<equiv> ''student '' @ sid @ '' timeout'' @ counts_text s"

text \<open>The prefix, the place and the text of each; \<open>Seen\<close> is written when the log is verbose.\<close>

fun message :: "merger_msg \<Rightarrow> string \<times> place \<times> string" where
  "message (Seen sid action s) = ([], (''server.c'', 28), seen_text sid action s)"
| "message Invalid_Packet = ([], (''server.c'', 34), ''Received invalid packet: '')"
| "message Polling_Error = (''FATAL: '', (''server.c'', 75), ''Error in polling'')"
| "message (Connected False addr) = (''FATAL: '', (''server.c'', 91), master_connected_text addr)"
| "message (Connected True addr) = (''FATAL: '', (''server.c'', 96), slave_connected_text addr)"
| "message (Read_Error i) = (''FATAL: '', (''server.c'', 107), read_error_text i)"
| "message (Connection_Exit i) = (''FATAL: '', (''server.c'', 111), exit_text i)"
| "message (Notified sid action) = ([], (''timeout.c'', 8), notified_text sid action)"
| "message (Queue_Grown n) = ([], (''timeout.c'', 15), grown_text n)"
| "message (Timed_Out sid s) = ([], (''timeout.c'', 76), timed_out_text sid s)"

definition log_message :: "local_time \<Rightarrow> merger_msg \<Rightarrow> string res" where
  "log_message t m = (case message m of (prefix, pl, msg) \<Rightarrow> generic_debug t pl prefix msg)"

section \<open>Words in a line\<close>

lemma is_prefix_sep: "is_prefix s (t @ c # u) \<Longrightarrow> c \<notin> set s \<Longrightarrow> is_prefix s t"
  by (induction s t rule: is_prefix.induct) auto

text \<open>A word does not reach over a character it does not contain.\<close>

lemma strstr_sep:
  "c \<notin> set w \<Longrightarrow> strstr xs w = None \<Longrightarrow> strstr ys w = None \<Longrightarrow> strstr (xs @ c # ys) w = None"
proof (induction xs)
  case Nil
  then show ?case by (cases w) auto
next
  case (Cons x xs)
  have "\<not> is_prefix w (x # xs)" "strstr xs w = None" using Cons.prems(2) by (auto split: if_splits)
  moreover have "\<not> is_prefix w ((x # xs) @ c # ys)" using is_prefix_sep Cons.prems(1) calculation(1) by blast
  ultimately show ?case using Cons by simp
qed

lemma strstr_absent: "x \<in> set w \<Longrightarrow> x \<notin> set s \<Longrightarrow> strstr s w = None"
proof (rule ccontr)
  assume x: "x \<in> set w" "x \<notin> set s" and "strstr s w \<noteq> None"
  then obtain i u where "s = take i s @ w @ u" using strstr_Some by blast
  then have "set w \<subseteq> set s" by (metis Un_iff set_append subsetI)
  with x show False by blast
qed

lemma strstr_found: "strstr (xs @ w @ ys) w \<noteq> None"
proof (induction xs)
  case Nil
  have "is_prefix w (w @ ys)" by (auto simp: is_prefix_iff)
  then show ?case by (cases "w @ ys") auto
qed simp

section \<open>The bytes of a line\<close>

definition bytes_of :: "string \<Rightarrow> uchar list" where
  "bytes_of s = map of_char s"

lemma char_byte [simp]: "char_of (unat (of_char c :: uchar)) = c"
proof -
  have "unat (of_nat (of_char c) :: uchar) = of_char c"
    using nat_of_char_less_256 [of c] by (simp add: unat_of_nat)
  then have "unat (of_char c :: uchar) = of_char c" by (simp only: of_nat_of_char)
  then show ?thesis by simp
qed

lemma byte_NUL: "(of_char c :: uchar) = 0 \<Longrightarrow> c = NUL"
proof -
  assume "(of_char c :: uchar) = 0"
  then have "c = char_of (0 :: nat)" using char_byte [of c] by simp
  then show ?thesis by (simp add: char_of_def)
qed

lemma line_device_bytes:
  assumes "NUL \<notin> set s"
  shows "line_device (bytes_of s) =
    (if strstr s ''master'' \<noteq> None then Some MASTER else if strstr s ''slave'' \<noteq> None then Some SLAVE else None)"
proof -
  have tw: "takeWhile (\<lambda>c. c \<noteq> 0) (bytes_of s) = bytes_of s"
    using assms byte_NUL by (auto simp: bytes_of_def)
  have m: "map (\<lambda>c. char_of (unat c)) (bytes_of s) = s" by (simp add: bytes_of_def comp_def)
  show ?thesis unfolding line_device_def tw m Let_def ..
qed

section \<open>The head of a line\<close>

text \<open>Time, file and line number contain none of the characters of the two words that matter.\<close>

lemma digits_chars: "set (dec_string n) \<subseteq> {c. isdigit c}"
  using dec_string_digits [of n] by (auto simp: list_all_iff)

lemma time_chars:
  assumes "print_time t = Inr s"
  shows "set s \<subseteq> {c. isdigit c} \<union> {CHR ''-'', CHR '' '', CHR '':'', CHR ''.''}"
proof -
  have "isdigit (CHR ''0'')" by code_simp
  then have z: "set (zero_padded w n) \<subseteq> {c. isdigit c}" for w n
    using digits_chars by (auto simp: zero_padded_def)
  from assms have "s = strftime t @ ''.'' @ zero_padded 3 (tm_usec t div 1000)"
    by (auto simp: print_time_def Let_def)
  then show ?thesis using z digits_chars by (fastforce simp: strftime_def)
qed

text \<open>The line without its end, in two parts around the tabulator.\<close>

lemma generic_debug_parts:
  assumes "time_fits t" "generic_debug t pl prefix msg = Inr l"
  obtains time where "print_time t = Inr time"
    "l = (''['' @ time @ ''] '' @ file_name (fst pl) @ '':'' @ dec_string (snd pl)) @ TAB # (prefix @ msg) @ [NL]"
  using assms print_time_ok(1) [OF assms(1)] by (auto simp: generic_debug_def)

text \<open>Every message stands in \<open>server.c\<close> or \<open>timeout.c\<close>.\<close>

lemma message_file: "message m = (prefix, pl, msg) \<Longrightarrow> file_name (fst pl) \<in> {''server.c'', ''timeout.c''}"
  by (cases m rule: message.cases) (auto simp: file_name_def)

lemma head_none:
  assumes "print_time t = Inr time" "f \<in> {''server.c'', ''timeout.c''}" "w \<in> {''master'', ''slave''}"
  shows "strstr (''['' @ time @ ''] '' @ f @ '':'' @ dec_string n) w = None"
proof -
  have d: "\<not> isdigit (CHR ''a'')" by code_simp
  then have "CHR ''a'' \<notin> set time" using time_chars [OF assms(1)] by auto
  moreover have "CHR ''a'' \<notin> set (dec_string n)" using digits_chars d by auto
  ultimately have "CHR ''a'' \<notin> set (''['' @ time @ ''] '' @ f @ '':'' @ dec_string n)" using assms(2) by auto
  moreover have "CHR ''a'' \<in> set w" using assms(3) by auto
  ultimately show ?thesis using strstr_absent by blast
qed

lemma strstr_suffix: "strstr ys w \<noteq> None \<Longrightarrow> strstr (xs @ ys) w \<noteq> None"
  by (induction xs) auto

lemma strstr_suffix_None: "strstr (xs @ c # ys) w = None \<Longrightarrow> strstr ys w = None"
  using strstr_suffix [of ys w "xs @ [c]"] by (cases "strstr ys w") auto

lemma head_skip:
  assumes "print_time t = Inr time" "f \<in> {''server.c'', ''timeout.c''}" "w \<in> {''master'', ''slave''}"
  shows "strstr ((''['' @ time @ ''] '' @ f @ '':'' @ dec_string n) @ TAB # msg) w = None \<longleftrightarrow> strstr msg w = None"
proof
  assume "strstr msg w = None"
  moreover have "TAB \<notin> set w" using assms(3) by auto
  ultimately show "strstr ((''['' @ time @ ''] '' @ f @ '':'' @ dec_string n) @ TAB # msg) w = None"
    using head_none [OF assms] strstr_sep by blast
next
  assume "strstr ((''['' @ time @ ''] '' @ f @ '':'' @ dec_string n) @ TAB # msg) w = None"
  then show "strstr msg w = None" by (rule strstr_suffix_None)
qed

section \<open>What the display makes of a message\<close>

text \<open>The bar a message switches on.\<close>

fun shown :: "merger_msg \<Rightarrow> nat option" where
  "shown (Seen sid action s) = Some MASTER"
| "shown (Timed_Out sid s) = Some MASTER"
| "shown (Connected i addr) = Some (if i then SLAVE else MASTER)"
| "shown (Read_Error i) = Some (if i then SLAVE else MASTER)"
| "shown (Connection_Exit i) = Some (if i then SLAVE else MASTER)"
| "shown _ = None"

text \<open>Student numbers are hexadecimal, addresses digits and dots.\<close>

definition hex_char :: "char \<Rightarrow> bool" where
  "hex_char c \<longleftrightarrow> isdigit c \<or> c \<in> set ''abcdef''"

fun msg_ok :: "merger_msg \<Rightarrow> bool" where
  "msg_ok (Seen sid action s) = list_all hex_char sid"
| "msg_ok (Timed_Out sid s) = list_all hex_char sid"
| "msg_ok (Notified sid action) = list_all hex_char sid"
| "msg_ok (Connected i addr) = list_all (\<lambda>c. isdigit c \<or> c = CHR ''.'') addr"
| "msg_ok _ = True"

definition shows_in :: "string \<Rightarrow> nat option" where
  "shows_in s =
    (if strstr s ''master'' \<noteq> None then Some MASTER else if strstr s ''slave'' \<noteq> None then Some SLAVE else None)"

lemma counts_found: "strstr (xs @ counts_text s) ''master'' \<noteq> None"
  unfolding counts_text_def
  using strstr_found [of "xs @ '' head_''" "''master''"] by simp

lemma hex_absent: "list_all hex_char s \<Longrightarrow> CHR ''m'' \<notin> set s \<and> CHR ''l'' \<notin> set s \<and> NUL \<notin> set s"
proof -
  have "\<not> hex_char (CHR ''m'')" "\<not> hex_char (CHR ''l'')" "\<not> hex_char NUL" by code_simp+
  then show "list_all hex_char s \<Longrightarrow> ?thesis" by (auto simp: list_all_iff)
qed

lemma addr_absent:
  "list_all (\<lambda>c. isdigit c \<or> c = CHR ''.'') s \<Longrightarrow> CHR ''m'' \<notin> set s \<and> CHR ''l'' \<notin> set s \<and> NUL \<notin> set s"
proof -
  have "\<not> isdigit (CHR ''m'')" "\<not> isdigit (CHR ''l'')" "\<not> isdigit NUL" by code_simp+
  then show "list_all (\<lambda>c. isdigit c \<or> c = CHR ''.'') s \<Longrightarrow> ?thesis" by (auto simp: list_all_iff)
qed

lemma dec_int_absent: "CHR ''m'' \<notin> set (dec_int n) \<and> CHR ''v'' \<notin> set (dec_int n) \<and> NUL \<notin> set (dec_int n)"
proof -
  have "\<not> isdigit (CHR ''m'')" "\<not> isdigit (CHR ''v'')" "\<not> isdigit NUL" by code_simp+
  then show ?thesis using digits_chars by (auto simp: dec_int_def)
qed

lemma name_found: "strstr (xs @ receiver_name i @ ys) (receiver_name i) \<noteq> None"
  by (rule strstr_found)

lemma message_shown:
  assumes "msg_ok m" "message m = (prefix, pl, msg)"
  shows "shows_in (prefix @ msg) = shown m"
proof (cases m rule: message.cases)
  case (1 sid action s)
  with assms(2) counts_found [of "''student '' @ sid @ '' at '' @ receiver_name action" s]
  show ?thesis by (auto simp: shows_in_def)
next
  case (4 addr)
  with assms(2) strstr_found [of "''FATAL: ''" "''master''" "'' ('' @ addr @ '') connected''"]
  show ?thesis by (auto simp: shows_in_def)
next
  case (5 addr)
  have "CHR ''m'' \<notin> set (''FATAL: slave ('' @ addr @ '') connected'')"
    using addr_absent [of addr] assms(1) 5 by simp
  then have "strstr (''FATAL: slave ('' @ addr @ '') connected'') ''master'' = None"
    using strstr_absent [of "CHR ''m''"] by simp
  with 5 assms(2) strstr_found [of "''FATAL: ''" "''slave''" "'' ('' @ addr @ '') connected''"]
  show ?thesis by (auto simp: shows_in_def)
next
  case (8 sid action)
  let ?s = "''Notify: student '' @ sid @ '' action '' @ (if action then ''IN'' else ''OUT'')"
  have "CHR ''m'' \<notin> set ?s" "CHR ''l'' \<notin> set ?s" using hex_absent [of sid] assms(1) 8 by simp_all
  then have "strstr ?s ''master'' = None" "strstr ?s ''slave'' = None"
    using strstr_absent [of "CHR ''m''"] strstr_absent [of "CHR ''l''"] by simp_all
  with 8 assms(2) show ?thesis by (auto simp: shows_in_def)
next
  case (9 n)
  let ?s = "''realloc notify_queue size to '' @ dec_int n"
  have "CHR ''m'' \<notin> set ?s" "CHR ''v'' \<notin> set ?s" using dec_int_absent [of n] by simp_all
  then have "strstr ?s ''master'' = None" "strstr ?s ''slave'' = None"
    using strstr_absent [of "CHR ''m''"] strstr_absent [of "CHR ''v''"] by simp_all
  with 9 assms(2) show ?thesis by (auto simp: shows_in_def)
next
  case (10 sid s)
  with assms(2) counts_found [of "''student '' @ sid @ '' timeout''" s]
  show ?thesis by (auto simp: shows_in_def)
qed (use assms(2) in \<open>auto simp: shows_in_def receiver_name_def\<close>)

section \<open>The log as the display reads it\<close>

text \<open>Printable characters, which the display neither drops nor takes for an end.\<close>

definition plain_char :: "char \<Rightarrow> bool" where
  "plain_char c \<longleftrightarrow> c \<noteq> NL \<and> c \<noteq> NUL \<and> ord c < 128"

lemma uint_of_char: "uint (of_char c :: uchar) = ord c"
proof -
  have "unat (of_nat (of_char c) :: uchar) = of_char c"
    using nat_of_char_less_256 [of c] by (simp add: unat_of_nat)
  then have "int (unat (of_char c :: uchar)) = int (of_char c)" by (simp only: of_nat_of_char)
  then show ?thesis by (simp add: ord_def of_nat_of_char)
qed

lemma log_lines_plain:
  "list_all plain_char s \<Longrightarrow> length buf + length s < MAX_LINE_LEN - 1 \<Longrightarrow>
    log_lines buf (bytes_of (s @ NL # later)) = (buf @ bytes_of s) # log_lines [] (bytes_of later)"
proof (induction s arbitrary: buf)
  case Nil
  have "(of_char NL :: uchar) = 10" by simp
  then show ?case by (simp add: bytes_of_def)
next
  case (Cons c s)
  let ?b = "of_char c :: uchar"
  have c: "c \<noteq> NL" "ord c < 128" using Cons.prems(1) by (simp_all add: plain_char_def)
  have "?b \<noteq> 10"
  proof
    assume "?b = 10"
    then have "c = char_of (10 :: nat)" using char_byte [of c] by simp
    moreover have "char_of (10 :: nat) = NL" by code_simp
    ultimately show False using c(1) by simp
  qed
  moreover have "\<not> 128 \<le> ?b" using c(2) by (simp add: word_le_def uint_of_char)
  moreover have "Suc (length buf) \<noteq> MAX_LINE_LEN" using Cons.prems(2) by simp
  ultimately have "log_lines buf (bytes_of ((c # s) @ NL # later)) = log_lines (buf @ [?b]) (bytes_of (s @ NL # later))"
    by (simp add: bytes_of_def)
  with Cons.IH [of "buf @ [?b]"] Cons.prems show ?case by (simp add: bytes_of_def)
qed

lemma plain_digits: "set s \<subseteq> {c. isdigit c} \<Longrightarrow> list_all plain_char s"
proof -
  have "isdigit c \<Longrightarrow> plain_char c" for c by (auto simp: plain_char_def isdigit_def ord_def)
  then show "set s \<subseteq> {c. isdigit c} \<Longrightarrow> ?thesis" by (auto simp: list_all_iff)
qed

lemma plain_literals:
  "list_all plain_char ''[] server.c:timeout.c:FATAL: student at slavemaster head_master_count head_slave_count head_count tail ''"
  "list_all plain_char ''Received invalid packet: Error in polling ( ) connected read from exit Notify: action INOUT realloc notify_queue size to abcdef-.''"
  "plain_char TAB"
  by code_simp+

lemma plain_hex_string: "list_all plain_char (hex_string n)"
proof (induction n rule: hex_string.induct)
  case (1 n)
  have "m < 16 \<Longrightarrow> plain_char (tohexchar (int m))" for m
  proof -
    assume "m < 16"
    then have "m \<in> set [0..<16]" by simp
    moreover have "list_all (\<lambda>m. plain_char (tohexchar (int m))) [0..<16]" by code_simp
    ultimately show ?thesis by (simp only: list_all_iff)
  qed
  with 1 show ?case by (subst hex_string.simps) simp
qed

lemma plain_append [simp]: "list_all plain_char (s @ t) \<longleftrightarrow> list_all plain_char s \<and> list_all plain_char t"
  by simp

lemma plain_dec: "list_all plain_char (dec_string n)"
  by (rule plain_digits [OF digits_chars])

lemma plain_dec_int: "list_all plain_char (dec_int n)"
  using plain_dec plain_literals(2) by (simp add: dec_int_def)

lemma plain_hex: "list_all hex_char s \<Longrightarrow> list_all plain_char s"
proof -
  have "hex_char c \<Longrightarrow> plain_char c" for c
    using plain_digits [of "[c]"] plain_literals(2) by (auto simp: hex_char_def)
  then show "list_all hex_char s \<Longrightarrow> ?thesis" by (auto simp: list_all_iff)
qed

lemma plain_addr: "list_all (\<lambda>c. isdigit c \<or> c = CHR ''.'') s \<Longrightarrow> list_all plain_char s"
proof -
  have "isdigit c \<or> c = CHR ''.'' \<Longrightarrow> plain_char c" for c
    using plain_digits [of "[c]"] plain_literals(2) by auto
  then show "list_all (\<lambda>c. isdigit c \<or> c = CHR ''.'') s \<Longrightarrow> ?thesis" by (auto simp: list_all_iff)
qed

lemma plain_time: "print_time t = Inr s \<Longrightarrow> list_all plain_char s"
  using time_chars [of t s] plain_digits [of "[c]" for c] plain_literals
  by (force simp: list_all_iff)

lemma plain_counts: "list_all plain_char (counts_text s)"
  using plain_literals by (simp add: counts_text_def plain_dec plain_dec_int plain_hex_string)

lemma plain_message:
  assumes "msg_ok m" "message m = (prefix, pl, msg)"
  shows "list_all plain_char (prefix @ msg) \<and> list_all plain_char (file_name (fst pl))"
  using assms plain_literals
  by (cases m rule: message.cases)
    (auto simp: receiver_name_def plain_counts plain_dec_int file_name_def dest!: plain_hex plain_addr)

text \<open>One message as a line of the log.\<close>

lemma log_message_line:
  assumes "time_fits t" "msg_ok m"
  shows "\<exists>s. log_message t m = Inr (s @ [NL]) \<and> list_all plain_char s \<and> line_device (bytes_of s) = shown m"
proof -
  obtain prefix pl msg where m: "message m = (prefix, pl, msg)" using prod_cases3 by blast
  obtain time where time: "print_time t = Inr time" using print_time_ok(1) [OF assms(1)] by blast
  let ?head = "''['' @ time @ ''] '' @ file_name (fst pl) @ '':'' @ dec_string (snd pl)"
  let ?s = "?head @ TAB # (prefix @ msg)"
  have f: "file_name (fst pl) \<in> {''server.c'', ''timeout.c''}" using m by (rule message_file)
  have l: "log_message t m = Inr (?s @ [NL])" by (simp add: log_message_def m generic_debug_def time)
  have p: "list_all plain_char ?s"
    using plain_time [OF time] plain_message [OF assms(2) m] plain_dec plain_literals by simp
  then have "NUL \<notin> set ?s" by (auto simp: list_all_iff plain_char_def)
  from line_device_bytes [OF this] have "line_device (bytes_of ?s) = shows_in (prefix @ msg)"
    using head_skip [OF time f, of "''master''" "snd pl" "prefix @ msg"]
      head_skip [OF time f, of "''slave''" "snd pl" "prefix @ msg"] by (simp only: shows_in_def insertI1 insertI2 simp_thms)
  with l p message_shown [OF assms(2) m] show ?thesis by (intro exI [of _ ?s]) simp
qed

lemma log_lines_concat:
  "list_all (\<lambda>s. list_all plain_char s \<and> length s < MAX_LINE_LEN - 1) ss \<Longrightarrow>
    log_lines [] (bytes_of (concat (map (\<lambda>s. s @ [NL]) ss))) = map bytes_of ss"
proof (induction ss)
  case Nil
  then show ?case by (simp add: bytes_of_def)
next
  case (Cons s ss)
  then show ?case using log_lines_plain [of s "[]" "concat (map (\<lambda>s. s @ [NL]) ss)"] by simp
qed



end
