(* ===== verification/Receiver_Test.thy ===== *)
theory Receiver_Test
  imports Receiver
begin

text \<open>
  \<open>receive/test.c\<close>, the range test with several cards, \<open>receive/sms.c\<close> and
  \<open>receive/search-channel.c\<close>: the counting of sequence numbers, the per-card liveness check
  with its text messages, the request that sends one, and the probing of the channels. The
  number of messages about a card is shown to be bounded by the configured limit.
\<close>

section \<open>Text messages\<close>

definition sms_body :: "conf \<Rightarrow> string \<Rightarrow> string \<Rightarrow> string" where
  "sms_body cs encode_msg encode_mobile =
     snprintf (length encode_msg + length encode_mobile + MAX_HEADERS_LENGTH)
       (''token='' @ get_config cs ''sms.token'' @ ''&msg='' @ encode_msg @ ''&mobile='' @ encode_mobile)"

definition sms_send :: "bool \<Rightarrow> conf \<Rightarrow> http_env \<Rightarrow> string \<Rightarrow> unit res" where
  "sms_send schar cs env msg =
     bindR (urlencode schar msg) (\<lambda>encode_msg.
     bindR (urlencode schar (get_config cs ''sms.mobiles'')) (\<lambda>encode_mobile.
     bindR (http_post cs env (get_config cs ''sms.remote_host'') (get_config cs ''sms.remote_path'')
              (sms_body cs encode_msg encode_mobile)) (\<lambda>_. Inr ())))"

section \<open>Batch mode\<close>

text \<open>The statics of \<open>batch\<close>.\<close>

record batch_stat =
  b_total :: int
  b_wrong :: int
  b_last :: int
  b_last_time :: int

text \<open>
  \<open>n\<close> is \<open>batch_count\<close>, \<open>total_time\<close> the time since the start; the flag tells whether a line
  is printed.
\<close>

definition batch :: "int \<Rightarrow> int res \<Rightarrow> uchar list \<Rightarrow> batch_stat \<Rightarrow> (bool \<times> batch_stat) res" where
  "batch n total_time buf s =
     bindR (checkR (buf \<noteq> []) Out_Of_Bounds) (\<lambda>_.
     bindR (c_int (b_total s + 1)) (\<lambda>t.
       let b = uint (last buf) in
       bindR (if b \<noteq> 0 \<and> b \<noteq> b_last s + 1 then c_int (b_wrong s + 1) else Inr (b_wrong s)) (\<lambda>w.
       bindR (checkR (n \<noteq> 0) Div_Zero) (\<lambda>_.
         let s1 = s\<lparr>b_total := t, b_wrong := w, b_last := b\<rparr> in
         if c_mod t n = 0 then bindR total_time (\<lambda>tt. Inr (True, s1\<lparr>b_last_time := tt\<rparr>))
         else Inr (False, s1)))))"

section \<open>Several cards\<close>

text \<open>The entries of the static arrays for one card.\<close>

record slot =
  total :: int
  counter :: int
  died :: bool
  sms_count :: int

definition no_slot :: slot where
  "no_slot = \<lparr>total = 0, counter = 0, died = False, sms_count = 0\<rparr>"

datatype message = Miss nat | Is_OK nat

fun message_text :: "message \<Rightarrow> string" where
  "message_text (Miss i) = ''RFID Number '' @ dec_string i @ '' miss [5005]'' @ [NL]"
| "message_text (Is_OK i) = ''RFID Number '' @ dec_string i @ '' is OK [5005]'' @ [NL]"

text \<open>
  \<open>sms_active && .. && sms_count[i]++ < max\<close>: the count is increased when the comparison is
  reached.
\<close>

definition may_send :: "bool \<Rightarrow> int \<Rightarrow> slot \<Rightarrow> (bool \<times> slot) res" where
  "may_send cond limit s =
     (if cond then bindR (c_int (sms_count s + 1)) (\<lambda>n. Inr (sms_count s < limit, s\<lparr>sms_count := n\<rparr>))
      else Inr (False, s))"

text \<open>One pass of the inner loop: the messages, the contribution to \<open>error_flag\<close>, the entries.\<close>

definition check_slot :: "bool \<Rightarrow> int \<Rightarrow> nat \<Rightarrow> slot \<Rightarrow> (message list \<times> bool \<times> slot) res" where
  "check_slot sms_active limit i s =
     (if total s = 0 then Inr ([], False, s\<lparr>counter := 0\<rparr>)
      else if counter s = 0 then
        bindR (may_send (sms_active \<and> \<not> died s) limit s) (\<lambda>(send, s1).
          Inr (if send then [Miss i] else [], True, s1\<lparr>died := True, counter := 0\<rparr>))
      else
        bindR (may_send (sms_active \<and> died s) limit s) (\<lambda>(send, s1).
          Inr (if send then [Is_OK i] else [], False, s1\<lparr>died := False, counter := 0\<rparr>)))"

fun check_slots :: "bool \<Rightarrow> int \<Rightarrow> nat \<Rightarrow> slot list \<Rightarrow> (message list \<times> bool \<times> slot list) res" where
  "check_slots sms_active limit i [] = Inr ([], False, [])"
| "check_slots sms_active limit i (s # ss) =
     bindR (check_slot sms_active limit i s) (\<lambda>(m, e, s1).
     bindR (check_slots sms_active limit (Suc i) ss) (\<lambda>(ms, es, ss1). Inr (m @ ms, e \<or> es, s1 # ss1)))"

record multi_stat =
  slots :: "slot list"
  last_time :: int

definition init_multi :: multi_stat where
  "init_multi = \<lparr>slots = replicate 256 no_slot, last_time = 0\<rparr>"

text \<open>Bytes \<open>0\<close> to \<open>BUF_SIZE - 2\<close> count from 1.\<close>

definition valid_pattern :: "uchar list \<Rightarrow> bool" where
  "valid_pattern buf \<longleftrightarrow> list_all (\<lambda>i. uint (buf ! i) = int i + 1) [0..<length buf - 1]"

text \<open>
  \<open>test_multiple\<close> at a time: \<open>None\<close> for an invalid packet, otherwise the messages and, when
  the cards were checked, the value written to the second LED.
\<close>

definition test_multiple ::
  "conf \<Rightarrow> bool \<Rightarrow> int \<Rightarrow> uchar list \<Rightarrow> multi_stat \<Rightarrow> ((message list \<times> bool option) option \<times> multi_stat) res" where
  "test_multiple cs sms_active curr_time buf m =
     (if \<not> valid_pattern buf then Inr (None, m)
      else bindR (checkR (buf \<noteq> []) Out_Of_Bounds) (\<lambda>_.
        let no = unat (last buf); s = slots m ! no in
        bindR (c_int (total s + 1)) (\<lambda>t. bindR (c_int (counter s + 1)) (\<lambda>c.
          let m1 = m\<lparr>slots := (slots m)[no := s\<lparr>total := t, counter := c\<rparr>]\<rparr> in
          bindR (c_int (curr_time - last_time m)) (\<lambda>d.
            if d > config_int cs ''test.multiple_send_interval'' then
              bindR (check_slots sms_active (config_int cs ''sms.maxnum_per_rfid'') 0 (slots m1)) (\<lambda>(ms, e, ss).
                Inr (Some (ms, Some e), \<lparr>slots = ss, last_time = curr_time\<rparr>))
            else Inr (Some ([], None), m1))))))"

text \<open>The packets of a session: the messages sent, in order.\<close>

fun test_session :: "conf \<Rightarrow> bool \<Rightarrow> (int \<times> uchar list) list \<Rightarrow> multi_stat \<Rightarrow> (message list \<times> multi_stat) res" where
  "test_session cs sms_active [] m = Inr ([], m)"
| "test_session cs sms_active ((t, buf) # ps) m =
     bindR (test_multiple cs sms_active t buf m) (\<lambda>(r, m1).
     bindR (test_session cs sms_active ps m1) (\<lambda>(ms, m2).
       Inr ((case r of None \<Rightarrow> [] | Some (new, _) \<Rightarrow> new) @ ms, m2)))"

section \<open>The interrupt handler and the arguments\<close>

text \<open>What a run of the handler prints, and the messages it sends.\<close>

datatype test_output =
    Busy
  | Failed
  | Multi "(message list \<times> bool option) option"
  | Batch_Line bool
  | Single string

record tester =
  t_drv :: nrf
  t_blinker :: blinker
  t_batch :: batch_stat
  t_multi :: multi_stat

text \<open>\<open>test_multiple_mode\<close>, \<open>batch_count\<close>, \<open>sms_active\<close> and the station, as \<open>main\<close> sets them.\<close>

record test_args =
  multiple_mode :: bool
  batch_count :: int
  sms_on :: bool
  station :: uchar

definition parse_args :: "conf \<Rightarrow> string list \<Rightarrow> test_args" where
  "parse_args cs argv =
     (let argc = length argv;
          st = (if 2 \<le> argc then atoi (argv ! 1) else config_int cs ''nrf.channel'');
          m = (3 \<le> argc \<and> argv ! 2 = ''-m'')
      in \<lparr>multiple_mode = m, batch_count = (if 3 \<le> argc \<and> \<not> m then atoi (argv ! 2) else 0),
          sms_on = (4 \<le> argc \<and> argv ! 3 = ''-n''), station = word_of_int (st AND 0x7F)\<rparr>)"

text \<open>\<open>junk\<close> is the content of the array of \<open>BUF_SIZE\<close> bytes the chip is sent.\<close>

definition test_irq ::
  "dev \<Rightarrow> conf \<Rightarrow> test_args \<Rightarrow> bool \<Rightarrow> uchar list \<Rightarrow> int \<times> int \<Rightarrow> int \<times> int \<Rightarrow> tester \<Rightarrow> (test_output \<times> tester) res" where
  "test_irq d cs a busy junk begin_tv now r =
     (if busy then Inr (Busy, r)
      else bindR (nRF24L01_RxPacket d junk (t_drv r)) (\<lambda>(flag, buf, s).
        if \<not> flag then Inr (Failed, r\<lparr>t_drv := s\<rparr>)
        else bindR (blink_led cs begin_tv now (t_blinker r)) (\<lambda>l.
          let r1 = r\<lparr>t_drv := s, t_blinker := l\<rparr> in
          if multiple_mode a then
            bindR (elapsed_ms begin_tv now) (\<lambda>t.
            bindR (test_multiple cs (sms_on a) t buf (t_multi r)) (\<lambda>(out, m). Inr (Multi out, r1\<lparr>t_multi := m\<rparr>)))
          else if batch_count a > 0 then
            bindR (batch (batch_count a) (elapsed_ms begin_tv now) buf (t_batch r)) (\<lambda>(line, b).
              Inr (Batch_Line line, r1\<lparr>t_batch := b\<rparr>))
          else Inr (Single (sprint_buf buf), r1))))"

section \<open>Searching the channel\<close>

text \<open>The handler of \<open>search-channel.c\<close>: the station and the number it prints.\<close>

definition search_irq ::
  "dev \<Rightarrow> conf \<Rightarrow> int \<Rightarrow> bool \<Rightarrow> uchar list \<Rightarrow> int \<times> int \<Rightarrow> int \<times> int \<Rightarrow> nrf \<Rightarrow> blinker \<Rightarrow>
     ((int \<times> string) option \<times> nrf \<times> blinker) res" where
  "search_irq d cs probed busy junk begin_tv now s l =
     (if busy then Inr (None, s, l)
      else bindR (nRF24L01_RxPacket d junk s) (\<lambda>(flag, buf, s1).
        if flag then bindR (blink_led cs begin_tv now l) (\<lambda>l1. Inr (Some (probed, sprint_buf buf), s1, l1))
        else Inr (None, s1, l)))"

text \<open>The stations probed, each for ten seconds; \<open>n\<close> is the fuel of each initialisation.\<close>

fun probe :: "nat \<Rightarrow> dev \<Rightarrow> conf \<Rightarrow> int list \<Rightarrow> nrf \<Rightarrow> nrf res" where
  "probe n d cs [] s = Inr s"
| "probe n d cs (st # sts) s =
     bindR (init_NRF24L01 n d cs (word_of_int (st AND 0x7F)) s) (\<lambda>s1.
       probe n d cs sts (s1\<lparr>bus := usleep 10000000 (bus s1)\<rparr>))"

definition search_channels :: "nat \<Rightarrow> dev \<Rightarrow> conf \<Rightarrow> nrf \<Rightarrow> nrf res" where
  "search_channels n d cs s = probe n d cs [0..127] s"

text \<open>After any number of probes the radio is on the last station probed.\<close>

lemma init_station:
  assumes "init_NRF24L01 n d cs c s = Inr s'" "driver_ok s"
  shows "driver_ok s' \<and> register (frames (bus s')) RF_CH = Some [c]"
proof -
  have w: "widths_ok s" "at_rest (bus s)" using assms(2) by (simp_all add: driver_ok_def)
  obtain k b where k: "s' = set_up cs c s\<lparr>bus := b\<rparr>" "at_rest b"
    "frames b = frames (bus s) @ concat (replicate (Suc k) (init_frames cs (set_up cs c s)))"
    using init_frames_all [OF assms(1) w] by blast
  have "register (frames b) RF_CH = Some [station_R (set_up cs c s)]"
    unfolding k(3) by (subst register_passes) (simp_all add: init_frames_registers)
  with k(1,2) w(1) show ?thesis by (simp add: driver_ok_def set_up_def widths_ok_def)
qed

lemma probe_station:
  "probe n d cs (sts @ [st]) s = Inr s' \<Longrightarrow> driver_ok s \<Longrightarrow>
    driver_ok s' \<and> register (frames (bus s')) RF_CH = Some [word_of_int (st AND 0x7F)]"
proof (induction sts arbitrary: s)
  case Nil
  then obtain s1 where "init_NRF24L01 n d cs (word_of_int (st AND 0x7F)) s = Inr s1"
    "s' = s1\<lparr>bus := usleep 10000000 (bus s1)\<rparr>" by auto
  with init_station [OF this(1) Nil(2)] show ?case by (simp add: driver_sleep)
next
  case (Cons p sts)
  then obtain s1 where "init_NRF24L01 n d cs (word_of_int (p AND 0x7F)) s = Inr s1"
    "probe n d cs (sts @ [st]) (s1\<lparr>bus := usleep 10000000 (bus s1)\<rparr>) = Inr s'" by auto
  with Cons.IH init_station [OF this(1) Cons.prems(2)] show ?case by (simp add: driver_sleep)
qed

section \<open>The number of messages\<close>

fun about :: "nat \<Rightarrow> message \<Rightarrow> bool" where
  "about i (Miss j) = (i = j)"
| "about i (Is_OK j) = (i = j)"

definition budget :: "int \<Rightarrow> slot \<Rightarrow> nat" where
  "budget limit s = nat (limit - sms_count s)"

definition msgs :: "nat \<Rightarrow> message list \<Rightarrow> nat" where
  "msgs i ms = length (filter (about i) ms)"

lemma msgs_simps [simp]: "msgs i [] = 0" "msgs i (a @ b) = msgs i a + msgs i b"
  by (simp_all add: msgs_def)

lemma check_slot_budget:
  assumes "check_slot act limit i s = Inr (m, e, s')"
  shows "msgs j m + budget limit s' \<le> budget limit s" "j \<noteq> i \<Longrightarrow> msgs j m = 0"
  using assms by (auto simp: check_slot_def may_send_def budget_def msgs_def c_int_Inr_iff split: if_splits)

lemma check_slots_length: "check_slots act limit i ss = Inr (ms, e, ss') \<Longrightarrow> length ss' = length ss"
  by (induction ss arbitrary: i ms e ss') auto

lemma check_slots_budget:
  "check_slots act limit i ss = Inr (ms, e, ss') \<Longrightarrow>
    (j < length ss \<longrightarrow> msgs (i + j) ms + budget limit (ss' ! j) \<le> budget limit (ss ! j)) \<and>
    (\<forall>k<i. msgs k ms = 0)"
proof (induction ss arbitrary: i j ms e ss')
  case Nil
  then show ?case by simp
next
  case (Cons s ss)
  obtain m e1 s1 ms2 e2 ss2 where c: "check_slot act limit i s = Inr (m, e1, s1)"
    "check_slots act limit (Suc i) ss = Inr (ms2, e2, ss2)" "ms = m @ ms2" "ss' = s1 # ss2"
    using Cons.prems by (simp only: check_slots.simps bindR_Inr_iff split_paired_Ex split_conv) blast
  note one = check_slot_budget [OF c(1)]
  note rest = Cons.IH [OF c(2)]
  show ?case
  proof (cases j)
    case 0
    with one(1) [of i] rest [of 0] one(2) c(3,4) show ?thesis by auto
  next
    case (Suc k)
    with one(2) [of "i + j"] rest [of k] one(2) c(3,4) show ?thesis by auto
  qed
qed

lemma test_multiple_budget:
  assumes "test_multiple cs act t buf m = Inr (r, m')" "length (slots m) = 256" "j < 256"
  shows "msgs j (case r of None \<Rightarrow> [] | Some (new, _) \<Rightarrow> new) + budget (config_int cs ''sms.maxnum_per_rfid'') (slots m' ! j)
      \<le> budget (config_int cs ''sms.maxnum_per_rfid'') (slots m ! j) \<and> length (slots m') = 256"
proof (cases "valid_pattern buf")
  case False
  with assms show ?thesis by (simp add: test_multiple_def)
next
  case True
  let ?l = "config_int cs ''sms.maxnum_per_rfid''"
  let ?s = "slots m ! unat (last buf)"
  let ?ss = "(slots m)[unat (last buf) := ?s\<lparr>total := total ?s + 1, counter := counter ?s + 1\<rparr>]"
  have b: "budget ?l (?ss ! j) = budget ?l (slots m ! j)"
    using assms(2,3) by (cases "unat (last buf) = j") (simp_all add: budget_def)
  have "(r = Some ([], None) \<and> slots m' = ?ss) \<or>
      (\<exists>ms e ss. check_slots act ?l 0 ?ss = Inr (ms, e, ss) \<and> r = Some (ms, Some e) \<and> slots m' = ss)"
    using assms(1) True by (auto simp: test_multiple_def Let_def c_int_Inr_iff split: if_splits)
  then show ?thesis
  proof (elim disjE exE conjE)
    assume "r = Some ([], None)" "slots m' = ?ss"
    then show ?thesis using assms(2) b by simp
  next
    fix ms e ss
    assume c: "check_slots act ?l 0 ?ss = Inr (ms, e, ss)" "r = Some (ms, Some e)" "slots m' = ss"
    from check_slots_budget [OF c(1), of j] check_slots_length [OF c(1)] c(2,3) b assms(2,3)
    show ?thesis by simp
  qed
qed

lemma test_session_budget:
  "test_session cs act ps m = Inr (ms, m') \<Longrightarrow> length (slots m) = 256 \<Longrightarrow> j < 256 \<Longrightarrow>
    msgs j ms \<le> budget (config_int cs ''sms.maxnum_per_rfid'') (slots m ! j)"
proof (induction cs act ps m arbitrary: ms m' rule: test_session.induct)
  case (1 cs act m)
  then show ?case by simp
next
  case (2 cs act t buf ps m)
  obtain r m1 ms1 where r: "test_multiple cs act t buf m = Inr (r, m1)"
    "test_session cs act ps m1 = Inr (ms1, m')" "ms = (case r of None \<Rightarrow> [] | Some (new, _) \<Rightarrow> new) @ ms1"
    using "2.prems"(1) by auto
  note b = test_multiple_budget [OF r(1) "2.prems"(2,3)]
  from "2.IH" [OF r(2)] b "2.prems"(3) r(3) show ?case by auto
qed

text \<open>
  C36: in a session of the range test, whatever packets arrive, at most
  \<open>sms.maxnum_per_rfid\<close> text messages are sent about any one card.
\<close>

theorem sms_bounded:
  assumes "test_session cs sms_active ps init_multi = Inr (ms, m)" "i < 256"
  shows "length (filter (about i) ms) \<le> nat (config_int cs ''sms.maxnum_per_rfid'')"
  using test_session_budget [OF assms(1) _ assms(2)] assms(2)
  by (simp add: init_multi_def no_slot_def budget_def msgs_def)

theorem sms_bounded_witness:
  "\<exists>ms m. test_session [(''sms.maxnum_per_rfid'', ''1'')] True
      [(1, [1, 5]), (2, [1, 6]), (3, [1, 5]), (4, [1, 6])] init_multi = Inr (ms, m) \<and>
    length (filter (about 5) ms) \<le> 1"
proof -
  let ?cs = "[(''sms.maxnum_per_rfid'', ''1'')] :: conf"
  let ?ps = "[(1, [1, 5]), (2, [1, 6]), (3, [1, 5]), (4, [1, 6])]"
  have "map_sum id (\<lambda>_. ()) (test_session ?cs True ?ps init_multi) = Inr ()" by code_simp
  then obtain ms m where s: "test_session ?cs True ?ps init_multi = Inr (ms, m)"
    by (cases "test_session ?cs True ?ps init_multi") auto
  have "config_int ?cs ''sms.maxnum_per_rfid'' = 1" by code_simp
  with sms_bounded [OF s, of 5] s show ?thesis by (intro exI [of _ ms] exI [of _ m] conjI) simp_all
qed

end
