(* ===== verification/Start.thy ===== *)
theory Start
  imports Merger_Spec Process Logging Receiver_Test
begin

text \<open>
  The \<open>main\<close> functions of the merger and the receiver programs: the checks and settings they
  go through, the state they build, the threads they create, in order, and how the receiver
  executes itself again. Results of \<open>fopen\<close>, of the GPIO library and of \<open>sysconf\<close> are
  arguments, and so are the clock readings an endless loop gets to see.
\<close>

section \<open>Threads\<close>

text \<open>The start routines passed to \<open>pthread_create\<close>, whose result no program looks at.\<close>

datatype thread =
    Init_Server | Init_Timeout | Init_Sender | Init_Watchdog | Cron_Logflush
  | Cron_Send | Cron_Channel_Switch

section \<open>The merger\<close>

definition merger_main ::
  "files \<Rightarrow> string list \<Rightarrow> nat option \<Rightarrow> heap \<Rightarrow> (process \<times> sizes \<times> merger \<times> thread list) res" where
  "merger_main fs argv log_fp h =
     bindR (init_params fs argv log_fp) (\<lambda>p.
     bindR (load_global_configs (settings (config p))) (\<lambda>z.
     bindR (init_merger h) (\<lambda>st.
       Inr (p, z, st, [Init_Server, Init_Timeout, Init_Sender, Init_Watchdog, Cron_Logflush]))))"

text \<open>The timeout thread: a run of the timers and a second of sleep, with the settings of each run.\<close>

fun init_timeout :: "(conf \<times> int) list \<Rightarrow> sizes \<Rightarrow> merger \<Rightarrow> merger res" where
  "init_timeout [] z st = Inr st"
| "init_timeout ((cs, now) # ts) z st = bindR (check_timers cs z now st) (init_timeout ts z)"

text \<open>
  The address of \<open>eth0\<close>: what \<open>ioctl\<close> stores, or, as its result is ignored, what the
  uninitialised structure on the stack held; the socket is closed again.
\<close>

definition get_local_ip :: "int \<Rightarrow> string option \<Rightarrow> string \<Rightarrow> string \<times> fd_op list" where
  "get_local_ip fd ioctl junk = ((case ioctl of Some addr \<Rightarrow> addr | None \<Rightarrow> junk), [Close fd])"

section \<open>The receiver\<close>

text \<open>The globals of \<open>nrf.c\<close> before \<open>main\<close>.\<close>

definition init_nrf :: nrf where
  "init_nrf = \<lparr>bus = [], station_R = 0, station_T = 0, current_channel = 0, RX_PLOAD_WIDTH = 0,
     TX_PLOAD_WIDTH = 0, RX_ADR_WIDTH = 0, TX_ADR_WIDTH = 0, RX_ADDRESS = [], TX_ADDRESS = []\<rparr>"

record board =
  is_root :: bool
  gpio_ok :: bool
  spi_ok :: bool

definition receiver_start ::
  "files \<Rightarrow> string list \<Rightarrow> nat option \<Rightarrow> board \<Rightarrow> (process \<times> gpio list \<times> nrf \<times> thread list) res" where
  "receiver_start fs argv log_fp b =
     bindR (init_params fs argv log_fp) (\<lambda>p.
     bindR (common_init (settings (config p)) (is_root b) (gpio_ok b) (spi_ok b) init_nrf) (\<lambda>(ops, s).
       Inr (p, ops, s, [Cron_Send, Cron_Logflush, Cron_Channel_Switch])))"

text \<open>
  The rounds of \<open>cron_check_nrf_working\<close>, each with its settings and the flag it finds: whether
  the function is still running.
\<close>

fun cron_check :: "(conf \<times> bool) list \<Rightarrow> bool res" where
  "cron_check [] = Inr True"
| "cron_check ((cs, working) # rs) =
     bindR (check_nrf_working cs working) (\<lambda>(go_on, _). if go_on then cron_check rs else Inr False)"

text \<open>What the process does in the end: it runs, or closes descriptors and executes a program.\<close>

datatype 'a fate = Running 'a | Exec "fd_op list" "string list"

definition restart_self :: "int \<Rightarrow> int \<Rightarrow> string list \<Rightarrow> 'a fate res" where
  "restart_self open_max null_fd argv =
     bindR (close_fds open_max null_fd False [- 1]) (\<lambda>ops. Inr (Exec ops argv))"

definition receiver_main ::
  "files \<Rightarrow> string list \<Rightarrow> nat option \<Rightarrow> board \<Rightarrow> (conf \<times> bool) list \<Rightarrow> int \<Rightarrow> int \<Rightarrow>
     (process \<times> gpio list \<times> nrf \<times> thread list) fate res" where
  "receiver_main fs argv log_fp b rounds open_max null_fd =
     bindR (receiver_start fs argv log_fp b) (\<lambda>r.
     bindR (cron_check rounds) (\<lambda>running.
       if running then Inr (Running r) else restart_self open_max null_fd argv))"

section \<open>The fake receiver\<close>

definition fake_rate :: "string list \<Rightarrow> int" where
  "fake_rate argv = (let r = (if 2 \<le> length argv then atoi (argv ! 1) else 0) in if r \<le> 0 then 1 else r)"

text \<open>The rounds of its endless loop, with the microseconds each sleeps.\<close>

fun fake_rounds :: "int \<Rightarrow> int \<Rightarrow> nat \<Rightarrow> rqueue \<times> int list \<Rightarrow> (rqueue \<times> int list) res" where
  "fake_rounds rate bufsize 0 s = Inr s"
| "fake_rounds rate bufsize (Suc n) (q, sleeps) =
     bindR (fake_packet bufsize) (\<lambda>buf. bindR (add_to_queue buf q) (\<lambda>q1.
       fake_rounds rate bufsize n (q1, sleeps @ [c_div 1000000 rate])))"

definition fake_main ::
  "files \<Rightarrow> string list \<Rightarrow> nat option \<Rightarrow> nat \<Rightarrow> (process \<times> thread list \<times> rqueue \<times> int list) res" where
  "fake_main fs argv log_fp rounds =
     bindR (init_params fs (List.tl argv) log_fp) (\<lambda>p.
     bindR (fake_rounds (fake_rate argv) (config_int (settings (config p)) ''nrf.RX_PLOAD_WIDTH'') rounds (rq_empty, []))
       (\<lambda>(q, sleeps). Inr (p, [Cron_Send], q, sleeps)))"

section \<open>The other receiver programs\<close>

text \<open>
  \<open>search-channel.c\<close>: at the end it executes itself again. \<open>n\<close> is the fuel of each
  initialisation of the chip.
\<close>

definition search_main ::
  "nat \<Rightarrow> dev \<Rightarrow> files \<Rightarrow> string list \<Rightarrow> board \<Rightarrow> int \<Rightarrow> int \<Rightarrow> nrf fate res" where
  "search_main n d fs argv b open_max null_fd =
     (if length argv < 2 then Inl Exited
      else bindR (load_config fs (argv ! 1) \<lparr>settings = [], saved_conf_file = None\<rparr>) (\<lambda>(ok, c).
        if \<not> ok then Inl Exited
        else bindR (common_init (settings c) (is_root b) (gpio_ok b) (spi_ok b) init_nrf) (\<lambda>(_, s).
          bindR (search_channels n d (settings c) s) (\<lambda>_. restart_self open_max null_fd argv))))"

text \<open>
  \<open>test.c\<close> until its infinite wait: the settings file is fixed; the arguments, the line that is
  printed and the registers logged.
\<close>

definition CONFIG_FILE :: string where "CONFIG_FILE = ''../config/receiver.ini''"

definition mode_text :: "test_args \<Rightarrow> int \<Rightarrow> string" where
  "mode_text a st = ''Initialized channel '' @ dec_int st @ '' in '' @
     (if multiple_mode a then ''test multiple'' else if batch_count a \<noteq> 0 then ''batch'' else ''single'') @
     '' mode'' @ (if sms_on a then '' with sms notify'' else []) @ [CHR ''.'', NL]"

definition test_main ::
  "nat \<Rightarrow> dev \<Rightarrow> files \<Rightarrow> string list \<Rightarrow> board \<Rightarrow> (test_args \<times> string \<times> uchar list \<times> nrf) res" where
  "test_main n d fs argv b =
     bindR (load_config fs CONFIG_FILE \<lparr>settings = [], saved_conf_file = None\<rparr>) (\<lambda>(ok, c).
     if \<not> ok then Inl Exited
     else bindR (common_init (settings c) (is_root b) (gpio_ok b) (spi_ok b) init_nrf) (\<lambda>(_, s).
       let cs = settings c; a = parse_args cs argv;
           st = (if 2 \<le> length argv then atoi (argv ! 1) else config_int cs ''nrf.channel'');
           msg = mode_text a st
       in bindR (init_NRF24L01 n d cs (station a) s) (\<lambda>s1.
          bindR (checkR (length msg < 100) Out_Of_Bounds) (\<lambda>_.
          bindR (print_configs d cs s1) (\<lambda>(vs, s2). Inr (a, msg, vs, s2))))))"

section \<open>Lemmas\<close>

lemma load_sizes:
  assumes "load_global_configs cs = Inr z"
  shows "sizes_ok z" "PACKET_SIZE z = config_int cs ''student.packet_size''"
proof -
  from assms have "1 \<le> config_int cs ''student.packet_size''"
    and z: "z = \<lparr>PACKET_SIZE = config_int cs ''student.packet_size'', ID_SIZE = config_int cs ''student.packet_size'' * 2,
      REQUEST_SIZE = config_int cs ''student.packet_size'' * 2 + 2\<rparr>"
    and "config_int cs ''student.packet_size'' * 2 + 2 \<le> int_max"
    by (auto simp: load_global_configs_def Let_def c_int_Inr_iff split: if_splits)
  then show "sizes_ok z" "PACKET_SIZE z = config_int cs ''student.packet_size''" by (simp_all add: sizes_ok_def)
qed

lemma init_timeout_crun: "init_timeout ts z st = Inr st' \<longleftrightarrow> merger.crun (map (\<lambda>(cs, now). Tick cs now) ts) (z, st) = Inr (z, st')"
proof (induction ts arbitrary: st)
  case (Cons t ts)
  obtain cs now where t: "t = (cs, now)" by (cases t)
  show ?case using Cons by (cases "check_timers cs z now st") (simp_all add: t)
qed simp

lemma cron_check_result:
  "list_all (\<lambda>(cs, w). 1 \<le> config_int cs ''nrf.check_working_interval'') rounds \<Longrightarrow>
    cron_check rounds = Inr (list_all snd rounds)"
proof (induction rounds)
  case (Cons r rounds)
  obtain cs w where r: "r = (cs, w)" by (cases r)
  with Cons have "1 \<le> config_int cs ''nrf.check_working_interval''" "cron_check rounds = Inr (list_all snd rounds)"
    by simp_all
  then show ?case by (cases w) (simp_all add: r check_nrf_working_def)
qed simp

lemma close_all_fds_list:
  "close_fds open_max null_fd False [- 1] = Inr (map Close [3..max open_max NR_OPEN - 1])"
proof -
  have "close_loop ([] @ [- 1]) [3..max open_max NR_OPEN - 1] =
      Inr (map Close (filter (\<lambda>fd. fd \<notin> set []) [3..max open_max NR_OPEN - 1]))"
    by (rule close_loop_ok) simp_all
  then show ?thesis using skip_array_ok [of "[]" 255 "[]"] by (simp add: close_fds_def Let_def)
qed

lemma fake_packet_props:
  assumes "2 \<le> n" "fake_packet n = Inr p"
  shows "int (length p) = n" "xor_bytes p = 0" "p ! 0 = 1"
proof -
  have "length (fake_body (nat n)) = nat n - 1" using assms(1) by (simp add: fake_body_def)
  moreover have "p = fake_body (nat n) @ [fold (\<lambda>b x. x XOR b) (fake_body (nat n)) 0]"
    using assms by (simp add: fake_packet_def)
  ultimately show "int (length p) = n" "xor_bytes p = 0" "p ! 0 = 1"
    using assms(1) by (simp_all add: xor_bytes_def fake_body_def)
qed

lemma fake_rounds_contents:
  "fake_rounds rate n k (q, ss) = Inr (q', ss') \<Longrightarrow> rq_inv q \<Longrightarrow> fake_packet n = Inr p \<Longrightarrow> rq_entry p \<Longrightarrow>
    rq_inv q' \<and> rq_contents q' = rq_contents q @ concat (replicate k p) \<and> ss' = ss @ replicate k (c_div 1000000 rate)"
proof (induction k arbitrary: q ss)
  case (Suc k)
  obtain q1 where q1: "add_to_queue p q = Inr q1" "fake_rounds rate n k (q1, ss @ [c_div 1000000 rate]) = Inr (q', ss')"
    using Suc.prems(1,3) by auto
  from add_to_queue_success [OF Suc.prems(2,4) q1(1)] Suc.IH [OF q1(2)] Suc.prems(3,4) show ?case
    by (simp add: replicate_append_same)
qed simp

lemma rq_empty_inv [simp]: "rq_inv rq_empty" "rq_contents rq_empty = []"
  by (simp_all add: rq_inv_def rq_contents_def rq_empty_def)

lemma mode_text_fits:
  assumes "int_min \<le> st" "st \<le> int_max"
  shows "length (mode_text a st) < 100"
proof -
  have "nat \<bar>st\<bar> < 10 ^ 10" using assms by (simp add: int_min_def int_max_def)
  then have "length (dec_string (nat \<bar>st\<bar>)) \<le> 10" by (rule length_dec_string) simp
  then have "length (dec_int st) \<le> 11" by (auto simp: dec_int_def split: if_splits)
  then show ?thesis by (simp add: mode_text_def)
qed

section \<open>Properties\<close>

text \<open>
  C29: if the merger gets past its start-up, the sizes are those of the configured packet size and
  fit an \<open>int\<close>, the dictionaries and the queue represent the empty gate, the log goes to an
  open stream, and the five threads are created; everything else ends the process.
\<close>

theorem merger_main_ready:
  assumes "merger_main fs argv log_fp h = Inr (p, z, st, ths)"
  shows "sizes_ok z \<and> PACKET_SIZE z = config_int (settings (config p)) ''student.packet_size'' \<and> tracks z init_gate st \<and>
    length argv \<in> {2, 3} \<and> logfile p \<notin> set (closed_streams p) \<and>
    ths = [Init_Server, Init_Timeout, Init_Sender, Init_Watchdog, Cron_Logflush]"
proof -
  obtain h' where "init_params fs argv log_fp = Inr p" "load_global_configs (settings (config p)) = Inr z"
    "init_merger h = Inr st" and ths: "ths = [Init_Server, Init_Timeout, Init_Sender, Init_Watchdog, Cron_Logflush]"
    using assms by (auto simp: merger_main_def)
  moreover from this(1) have "length argv \<in> {2, 3}" "closed_streams p = []"
    by (auto simp: init_params_def Let_def split: if_splits option.splits prod.splits)
  ultimately show ?thesis using load_sizes init_tracks by auto
qed

definition start_files :: files where
  "start_files name = (if name = ''merger.ini'' then Some (''student.packet_size=2'' @ [NL]) else None)"

theorem merger_main_ready_witness:
  "\<exists>p z st ths. merger_main start_files [''merger'', ''merger.ini''] None (replicate 6 None) = Inr (p, z, st, ths) \<and>
     PACKET_SIZE z = 2 \<and> tracks z init_gate st"
proof -
  have run: "case merger_main start_files [''merger'', ''merger.ini''] None (replicate 6 None) of Inl e \<Rightarrow> False
      | Inr (p, z, st, ths) \<Rightarrow> PACKET_SIZE z = 2" by code_simp
  then obtain p z st ths where m: "merger_main start_files [''merger'', ''merger.ini''] None (replicate 6 None) = Inr (p, z, st, ths)"
    "PACKET_SIZE z = 2" by (auto split: sum.splits)
  with merger_main_ready [OF m(1)] show ?thesis by blast
qed

text \<open>
  The timeout thread, run after run and with the settings in force at each, follows the gate:
  from any state that represents a gate it stops only for want of queue size, and otherwise
  has expired the gate once for every run, in order.
\<close>

theorem timeout_thread_follows:
  assumes "tracks z g st" "sizes_ok z" "list_all (\<lambda>(cs, now). c_time now) ts"
  shows "init_timeout ts z st = Inl Signed_Overflow \<or>
    (\<exists>st'. init_timeout ts z st = Inr st' \<and> tracks z (fold (\<lambda>(cs, now). expire cs now) ts g) st')"
  using assms(1,3)
proof (induction ts arbitrary: g st)
  case (Cons t ts)
  obtain cs now where t: "t = (cs, now)" "c_time now" using Cons.prems(2) by (cases t) auto
  from check_timers_refines [OF Cons.prems(1) t(2) assms(2), of cs] show ?case
  proof (elim disjE exE conjE)
    fix st1 assume "check_timers cs z now st = Inr st1" "tracks z (expire cs now g) st1"
    with Cons.IH [of "expire cs now g" st1] Cons.prems(2) t show ?thesis by simp
  qed (simp add: t)
qed simp

theorem timeout_thread_follows_witness:
  "\<exists>st'. init_timeout [([], 7), ([], 8)] \<lparr>PACKET_SIZE = 1, ID_SIZE = 2, REQUEST_SIZE = 4\<rparr> small_merger = Inr st' \<and>
     queue st' = nq_empty"
proof -
  let ?z = "\<lparr>PACKET_SIZE = 1, ID_SIZE = 2, REQUEST_SIZE = 4\<rparr> :: sizes"
  have "sizes_ok ?z" "list_all (\<lambda>(cs, now). c_time now) [([] :: conf, 7), ([], 8)]"
    by (simp_all add: sizes_ok_def int_max_def c_time_def)
  from timeout_thread_follows [OF init_tracks [OF small_merger_init] this]
  have "init_timeout [([], 7), ([], 8)] ?z small_merger = Inl Signed_Overflow \<or>
    (\<exists>st'. init_timeout [([], 7), ([], 8)] ?z small_merger = Inr st')" by blast
  moreover have "case init_timeout [([], 7), ([], 8)] ?z small_merger of Inl e \<Rightarrow> False
      | Inr st' \<Rightarrow> queue st' = nq_empty" by code_simp
  ultimately show ?thesis by auto
qed


definition receiver_files :: files where
  "receiver_files name = (if name = ''r.ini'' then Some (''led.blink_interval=1'' @ [NL]) else None)"


text \<open>
  The fake receiver queues one packet per round, always the same, and the merger counts it as
  a detection, checksum or not, if both are set up for the same packet size.
\<close>

theorem fake_packets_count:
  assumes "fake_rounds rate n k (rq_empty, []) = Inr (q, sleeps)" "fake_packet n = Inr p" "2 \<le> n" "n \<le> int_max"
  shows "rq_contents q = concat (replicate k p) \<and> length sleeps = k \<and> counts cs p \<and> int (length p) = n"
proof -
  note p = fake_packet_props [OF assms(3,2)]
  have "rq_entry p" using p(1) assms(4) by (simp add: rq_entry_def int_max_def)
  from fake_rounds_contents [OF assms(1) _ assms(2) this] have q: "rq_contents q = concat (replicate k p)"
    "sleeps = replicate k (c_div 1000000 rate)" by simp_all
  have "p \<noteq> []" using p(1) assms(3) by auto
  then have "list_ex (\<lambda>b. b \<noteq> 0) p" using p(3) by (cases p) simp_all
  then have "is_detection cs p" using p(3) by (simp add: is_detection_def)
  with q p(1,2) show ?thesis by (simp add: counts_def)
qed

theorem fake_packets_count_witness:
  "\<exists>q sleeps. fake_rounds 10 3 2 (rq_empty, []) = Inr (q, sleeps) \<and> rq_contents q = [1, 0, 1, 1, 0, 1]"
proof -
  have "map_sum id (\<lambda>_. ()) (fake_rounds 10 3 2 (rq_empty, [])) = Inr ()" by code_simp
  then obtain q sleeps where f: "fake_rounds 10 3 2 (rq_empty, []) = Inr (q, sleeps)"
    by (cases "fake_rounds 10 3 2 (rq_empty, [])") auto
  have p: "fake_packet 3 = Inr [1, 0, 1]" by code_simp
  have "(2 :: int) \<le> 3" "3 \<le> int_max" by (simp_all add: int_max_def)
  from fake_packets_count [OF f p this, of "[]"] have "rq_contents q = concat (replicate 2 [1, 0, 1])" by (rule conjunct1)
  then have "rq_contents q = [1, 0, 1, 1, 0, 1]" by (simp add: numeral_2_eq_2)
  with f show ?thesis by blast
qed

end
