(* ===== verification/Reload.thy ===== *)
theory Reload
  imports Process
begin

text \<open>
  Two consequences of how \<open>common/config.c\<close> reloads its file on SIGHUP. The other threads look
  settings up while the handler adds them one by one: what they find meanwhile is stated for
  every moment. And the file is opened again each time but never closed: after as many
  signals as the process has descriptors left, no change of the file is read any more.
\<close>

section \<open>Lookups during a reload\<close>

text \<open>The parser only adds settings in front of those it finds, whatever the file says.\<close>

lemma added [simp]: "\<exists>new'. new @ x # cs = new' @ cs" "\<exists>new'. x # cs = new' @ cs" "\<exists>new'. cs = new' @ cs"
  by (rule exI [of _ "new @ [x]"], simp, rule exI [of _ "[x]"], simp, rule exI [of _ "[]"], simp)

lemma parse_loop_adds: "parse_loop l c rest key val cs = Inr (ok, cs') \<Longrightarrow> \<exists>new. cs' = new @ cs"
proof (induction l c rest key val cs arbitrary: ok cs' rule: parse_loop.induct)
  case (1 c rest key val cs)
  from "1.IH" "1.prems" show ?case
    by (auto simp: parse_loop.simps(1) [of c rest key val cs] split: if_splits list.splits)
next
  case (2 c rest key val cs)
  from "2.IH" "2.prems" show ?case
    by (auto simp: parse_loop.simps(2) [of c rest key val cs] split: if_splits list.splits)
next
  case (3 c rest key val cs)
  from "3.IH" "3.prems" show ?case
    by (auto simp: parse_loop.simps(3) [of c rest key val cs] split: if_splits list.splits sum.splits)
next
  case (4 c rest key val cs)
  from "4.IH" "4.prems" show ?case
    by (auto simp: parse_loop.simps(4) [of c rest key val cs] add_config_def split: if_splits list.splits sum.splits)
      (metis added(1))
qed

lemma reload_adds:
  assumes "reload_configs fs st = Inr (ok, st')"
  shows "\<exists>new. settings st' = new @ settings st \<and> saved_conf_file st' = saved_conf_file st"
proof (cases "saved_conf_file st")
  case (Some f)
  show ?thesis
  proof (cases "fs f")
    case None
    with Some assms show ?thesis by (simp add: reload_configs_def)
  next
    case (Some body)
    with \<open>saved_conf_file st = Some f\<close> assms obtain cs' where p: "parse_config body (settings st) = Inr (ok, cs')"
      "st' = st\<lparr>settings := cs'\<rparr>" by (auto simp: reload_configs_def)
    have "\<exists>new. cs' = new @ settings st"
      using p(1) parse_loop_adds by (auto simp: parse_config_def split: list.splits if_splits)
    with p(2) show ?thesis by simp
  qed
qed (use assms in \<open>simp add: reload_configs_def\<close>)

text \<open>
  The lists another thread may find while the new settings are added, from the last line to
  the first: every moment is the old list with the settings of a beginning of the file.
\<close>

definition moments :: "conf \<Rightarrow> conf \<Rightarrow> conf list" where
  "moments new old = map (\<lambda>i. drop i new @ old) [0..<Suc (length new)]"

lemma moments_lookup:
  assumes "cs \<in> set (moments new old)"
  shows "get_config cs k = get_config old k \<or> (k, get_config cs k) \<in> set new"
proof -
  obtain i where cs: "cs = drop i new @ old" using assms unfolding moments_def set_map by blast
  have found: "k \<in> fst ` set xs \<Longrightarrow> (k, get_config xs k) \<in> set xs" for xs
    by (induction xs k rule: get_config.induct) auto
  show ?thesis
  proof (cases "k \<in> fst ` set (drop i new)")
    case True
    with found [of "drop i new"] show ?thesis
      unfolding cs get_config_append by (auto dest: in_set_dropD)
  qed (simp add: cs get_config_append)
qed

section \<open>Descriptors\<close>

text \<open>
  A reload of a process with \<open>used\<close> open descriptors out of \<open>limit\<close>: \<open>fopen\<close> takes one, and
  nothing gives it back.
\<close>

definition reload_open :: "nat \<Rightarrow> files \<Rightarrow> config_state \<times> nat \<Rightarrow> (bool \<times> config_state \<times> nat) res" where
  "reload_open limit fs = (\<lambda>(st, used).
     bindR (reload_configs (\<lambda>f. if used < limit then fs f else None) st) (\<lambda>(ok, st').
       Inr (ok, st', if saved_conf_file st \<noteq> None \<and> used < limit \<and> fs (the (saved_conf_file st)) \<noteq> None
         then Suc used else used)))"

fun sighups :: "nat \<Rightarrow> files list \<Rightarrow> config_state \<times> nat \<Rightarrow> (config_state \<times> nat) res" where
  "sighups limit [] s = Inr s"
| "sighups limit (fs # fss) s = bindR (reload_open limit fs s) (\<lambda>(ok, s'). sighups limit fss s')"

lemma sighups_used:
  "sighups limit fss (st, used) = Inr (st', used') \<Longrightarrow> saved_conf_file st = Some f \<Longrightarrow> list_all (\<lambda>fs. fs f \<noteq> None) fss \<Longrightarrow>
    used \<le> limit \<Longrightarrow> used' = min limit (used + length fss) \<and> saved_conf_file st' = Some f"
proof (induction fss arbitrary: st used)
  case (Cons fs fss)
  obtain ok st1 where r: "reload_configs (\<lambda>f. if used < limit then fs f else None) st = Inr (ok, st1)"
    and rest: "sighups limit fss (st1, if used < limit then Suc used else used) = Inr (st', used')"
    using Cons.prems(1-3) by (auto simp: reload_open_def)
  have "saved_conf_file st1 = Some f" using reload_adds [OF r] Cons.prems(2) by simp
  from Cons.IH [OF rest this] Cons.prems(3,4) show ?case by (auto split: if_splits)
qed simp

section \<open>Properties\<close>



text \<open>
  C27: every reload costs a descriptor: once as many signals have come as there were descriptors
  left, a reload fails whatever the file holds, and the settings stay as they are for good.
\<close>

theorem reload_exhausts:
  assumes "sighups limit fss (st, used) = Inr (st', used')" "saved_conf_file st = Some f"
    "list_all (\<lambda>fs. fs f \<noteq> None) fss" "used \<le> limit" "limit \<le> used + length fss"
  shows "reload_open limit fs (st', used') = Inr (False, st', used')"
  using sighups_used [OF assms(1-4)] assms(5) by (auto simp: reload_open_def reload_configs_def)

theorem reload_exhausts_witness:
  "reload_open 4 (\<lambda>_. Some (''a=3'' @ [NL])) (\<lparr>settings = [(''a'', ''2''), (''a'', ''1'')], saved_conf_file = Some ''f''\<rparr>, 4) =
     Inr (False, \<lparr>settings = [(''a'', ''2''), (''a'', ''1'')], saved_conf_file = Some ''f''\<rparr>, 4)"
proof -
  have "sighups 4 [\<lambda>_. Some (''a=2'' @ [NL])] (\<lparr>settings = [(''a'', ''1'')], saved_conf_file = Some ''f''\<rparr>, 3) =
    Inr (\<lparr>settings = [(''a'', ''2''), (''a'', ''1'')], saved_conf_file = Some ''f''\<rparr>, 4)" by code_simp
  from reload_exhausts [OF this, of "''f''"] show ?thesis by simp
qed

end
