(* ===== verification/Bus_Race.thy ===== *)
theory Bus_Race
  imports Receiver
begin

text \<open>
  The channel thread of \<open>receive/nrf.c\<close> reprograms the chip without taking \<open>irq_lock\<close>, so the
  interrupt handler may use the bus in the middle of one of its accesses. What the chip sees
  then is computed on the decoded trace: the handler's first frame is swallowed by the open
  one, and the register takes the handler's bytes.
\<close>

section \<open>An access that is interrupted\<close>

text \<open>\<open>SPI_write_reg\<close> with the handler's read of a packet between its two bytes.\<close>

definition interrupted_write :: "dev \<Rightarrow> uchar \<Rightarrow> uchar \<Rightarrow> uchar list \<Rightarrow> nrf \<Rightarrow> (bool \<times> uchar list \<times> nrf) res" where
  "interrupted_write d reg val junk s =
     (let mid = spi_write_byte d reg (csn 0 (bus s))
      in bindR (nRF24L01_RxPacket d junk (s\<lparr>bus := mid\<rparr>)) (\<lambda>(flag, payload, s1).
           Inr (flag, payload, s1\<lparr>bus := csn 1 (spi_write_byte d val (bus s1))\<rparr>)))"

text \<open>The rest of a pass of \<open>init_NRF24L01\<close> once the channel is written, with the byte read back.\<close>

definition finish_pass :: "dev \<Rightarrow> conf \<Rightarrow> nrf \<Rightarrow> uchar \<times> nrf" where
  "finish_pass d cs s =
     (let w = (\<lambda>reg val b. SPI_write_reg d (WRITE_REG + reg) val b);
          b11 = w RX_PW_P0 (uc (RX_PLOAD_WIDTH s)) (bus s);
          b12 = w RF_SETUP (uc (NRFconf cs ''RF_SETUP'')) b11;
          b13 = flush_rx d b12;
          b14 = w CONFIG (uc (NRFconf cs ''CONFIG'')) b13;
          (v, b15) = SPI_Read d CONFIG (usleep 10000 b14)
      in (v, s\<lparr>bus := b15\<rparr>))"

section \<open>What the chip sees\<close>

text \<open>The handler's read of the status register inside an open frame.\<close>

lemma status_in_frame:
  assumes "quiet b"
  shows "let b1 = snd (SPI_Read d STATUS (ce 0 (spi_write_byte d reg (csn 0 b))))
    in quiet b1 \<and> frames b1 = frames b @ [[reg, STATUS, 0xCC]]"
  using assms by (cases "decode b")
    (simp add: SPI_Read_def spi_read_byte_def spi_write_byte_def spi_rw_def csn_def ce_def quiet_def at_rest_def Let_def)

text \<open>The second byte arrives with the chip no longer selected and the radio on.\<close>

lemma late_byte:
  assumes "at_rest b" "radio (decode b)"
  shows "frames (csn 1 (spi_write_byte d v b)) = frames b" "current (decode (csn 1 (spi_write_byte d v b))) = []"
    "\<not> orderly (decode (csn 1 (spi_write_byte d v b)))" "radio (decode (csn 1 (spi_write_byte d v b)))"
  using assms by (simp_all add: spi_write_byte_def spi_rw_def csn_def at_rest_def)

lemma interrupted_write_frames:
  assumes "quiet (bus s)" "unat (uc (RX_PLOAD_WIDTH s)) = length junk"
  obtains flag payload b sta where "interrupted_write d reg val junk s = Inr (flag, payload, s\<lparr>bus := b\<rparr>)"
    "frames b = frames (bus s) @ [[reg, STATUS, 0xCC]] @ (if flag then [RD_RX_PLOAD # junk] else []) @
       [[FLUSH_RX, 0], [WRITE_REG + STATUS, sta]]"
    "current (decode b) = []" "\<not> orderly (decode b)" "radio (decode b)"
proof -
  let ?mid = "spi_write_byte d reg (csn 0 (bus s))"
  obtain sta b1 where r: "SPI_Read d STATUS (ce 0 (bus (s\<lparr>bus := ?mid\<rparr>))) = (sta, b1)" by fastforce
  have b1: "quiet b1" "frames b1 = frames (bus s) @ [[reg, STATUS, 0xCC]]"
    using status_in_frame [OF assms(1), of d reg] r by (simp_all add: Let_def)
  have len: "unat (uc (RX_PLOAD_WIDTH (s\<lparr>bus := ?mid\<rparr>))) = length junk" using assms(2) by simp
  obtain b where b: "nRF24L01_RxPacket d junk (s\<lparr>bus := ?mid\<rparr>) = Inr (sta AND 0x40 \<noteq> 0,
      if sta AND 0x40 \<noteq> 0 then d (b1 @ [CSN 0, Spi [RD_RX_PLOAD]]) junk else junk, (s\<lparr>bus := ?mid\<rparr>)\<lparr>bus := b\<rparr>)"
    "frames b = frames b1 @ (if sta AND 0x40 \<noteq> 0 then [RD_RX_PLOAD # junk] else []) @
       [[FLUSH_RX, 0], [WRITE_REG + STATUS, sta]]" "at_rest b" "radio (decode b)"
    by (rule RxPacket_after_status [OF b1(1) r len])
  note l = late_byte [OF b(3,4), of d val]
  show thesis
    by (rule that [of "sta AND 0x40 \<noteq> 0" _ "csn 1 (spi_write_byte d val b)" sta])
      (simp_all add: interrupted_write_def Let_def b(1) l b(2) b1(2))
qed

lemma flush_frame:
  "current (decode b) = [] \<Longrightarrow> decode (flush_rx d b) = add_frame [FLUSH_RX, 0] (decode b)"
  by (cases "decode b")
    (auto simp: flush_rx_def SPI_write_reg_def spi_write_byte_def spi_rw_def csn_def add_frame_def)

lemma finish_pass_frames:
  assumes "current (decode (bus s)) = []"
  obtains v b where "finish_pass d cs s = (v, s\<lparr>bus := b\<rparr>)"
    "frames b = frames (bus s) @ [[WRITE_REG + RX_PW_P0, uc (RX_PLOAD_WIDTH s)],
       [WRITE_REG + RF_SETUP, uc (NRFconf cs ''RF_SETUP'')], [FLUSH_RX, 0],
       [WRITE_REG + CONFIG, uc (NRFconf cs ''CONFIG'')], [CONFIG, 0xCC]]"
    "orderly (decode b) \<longrightarrow> orderly (decode (bus s))" "radio (decode b) = radio (decode (bus s))"
proof -
  let ?b = "bus (snd (finish_pass d cs s))"
  have d: "decode ?b = add_frame [CONFIG, 0xCC] (add_frame [WRITE_REG + CONFIG, uc (NRFconf cs ''CONFIG'')]
      (add_frame [FLUSH_RX, 0] (add_frame [WRITE_REG + RF_SETUP, uc (NRFconf cs ''RF_SETUP'')]
      (add_frame [WRITE_REG + RX_PW_P0, uc (RX_PLOAD_WIDTH s)] (decode (bus s))))))"
    using assms by (simp add: finish_pass_def Let_def split_def flush_frame)
  show thesis
    by (rule that [of "fst (finish_pass d cs s)" ?b])
      (simp_all add: d, simp add: finish_pass_def Let_def split_def)
qed

section \<open>Properties\<close>



text \<open>
  A packet that arrives after \<open>current_channel\<close> has moved on and before the chip is retuned is
  queued behind the new channel though the chip still listens to the old one.
\<close>

lemma irq_mislabels:
  assumes "switcher_ok w (drv r)" "prev_num w \<noteq> 0" "unat (uc (RX_PLOAD_WIDTH (drv r))) = length junk"
    and "r' = r\<lparr>drv := (drv r)\<lparr>current_channel := ch\<rparr>\<rparr>" "on_irq d cs False junk begin_tv now r' = Inr r''"
    and "nrf_is_working r'' \<noteq> nrf_is_working r"
  shows "register (frames (bus (drv r''))) RF_CH = Some [current_channel (drv r)] \<and>
    (\<exists>payload. add_to_queue (ch # payload) (rxq r) = Inr (rxq r''))"
proof -
  have t: "at_rest (bus (drv r'))" "register (frames (bus (drv r'))) RF_CH = Some [current_channel (drv r)]"
    using assms(1,2,4) by (simp_all add: switcher_ok_def tuned_def driver_ok_def)
  have len: "unat (uc (RX_PLOAD_WIDTH (drv r'))) = length junk" using assms(3,4) by simp
  define sta where "sta = hd (d (bus (drv r') @ [CE 0, CSN 0, Spi [STATUS]]) [0xCC])"
  obtain b where b: "nRF24L01_RxPacket d junk (drv r') = Inr (sta AND 0x40 \<noteq> 0,
      if sta AND 0x40 \<noteq> 0 then d (payload_point (bus (drv r'))) junk else junk, (drv r')\<lparr>bus := b\<rparr>)"
    "frames b = frames (bus (drv r')) @ [[STATUS, 0xCC]] @
      (if sta AND 0x40 \<noteq> 0 then [RD_RX_PLOAD # junk] else []) @ [[FLUSH_RX, 0], [WRITE_REG + STATUS, sta]]"
    by (rule RxPacket_result [where d = d and sta = sta, OF t(1) len sta_def])
  have "register (frames b) RF_CH = Some [current_channel (drv r)]"
    unfolding b(2) by (simp add: register_append register_Cons t(2))
  then show ?thesis using assms(4-6) b(1) by (auto simp: on_irq_def split: if_splits)
qed

end
