(* ===== verification/Watchdog.thy ===== *)
theory Watchdog
  imports Config
begin

text \<open>
  \<open>merger/watchdog.c\<close>: the thread that reports locks held for too long and receivers that
  fall silent. Its output is the list of reports it makes. The reports of a run are shown
  to be those of a reference definition over the history of heartbeats: a receiver is
  reported once, at the end of the first period in which it was not heard.
\<close>

section \<open>The operations\<close>

definition get_conf :: "conf \<Rightarrow> string \<Rightarrow> int" where
  "get_conf cs key = (let val = config_int cs key in if val < 1 then 1 else val)"

text \<open>The two messages handed to \<open>report_it_now\<close>, with their arguments.\<close>

datatype report = Lock_Stuck string int | Receiver_Dead string

text \<open>
  \<open>check_lock\<close> with the time of day and what \<open>pthread_mutex_timedlock\<close> returns for the
  deadline, which is the first component of the result.
\<close>

definition check_lock :: "conf \<Rightarrow> int \<Rightarrow> int \<Rightarrow> (int \<times> int \<Rightarrow> int) \<Rightarrow> string \<Rightarrow> ((int \<times> int) \<times> report list) res" where
  "check_lock cs tv_sec tv_usec timedlock msg =
     bindR (c_int (tv_sec + get_conf cs ''watchdog.lock_timeout'')) (\<lambda>sec.
     bindR (c_int (tv_usec * 1000)) (\<lambda>nsec.
       let flag = timedlock (sec, nsec)
       in Inr ((sec, nsec), if flag = 0 then [] else [Lock_Stuck msg flag])))"

record watchdog =
  receiver_alive :: "bool list"
  last_receiver_alive :: "bool list"
  relatime :: int

definition init_watch :: watchdog where
  "init_watch = \<lparr>receiver_alive = [False, False], last_receiver_alive = [True, True], relatime = 0\<rparr>"

definition check_receiver :: "nat \<Rightarrow> string \<Rightarrow> watchdog \<Rightarrow> report list \<times> watchdog" where
  "check_receiver no name w =
     (if receiver_alive w ! no = False \<and> last_receiver_alive w ! no = True then [Receiver_Dead name] else [],
      w\<lparr>last_receiver_alive := (last_receiver_alive w)[no := receiver_alive w ! no],
        receiver_alive := (receiver_alive w)[no := False]\<rparr>)"

text \<open>The server's side: \<open>receiver_alive[no] = true\<close> for the receivers heard from.\<close>

definition heartbeats :: "bool list \<Rightarrow> watchdog \<Rightarrow> watchdog" where
  "heartbeats heard w = w\<lparr>receiver_alive := map2 (\<or>) (receiver_alive w) heard\<rparr>"

text \<open>
  One round of \<open>init_watchdog\<close> after its \<open>sleep\<close>; \<open>now\<close> gives the times of day at the two
  lock checks, \<open>timedlock\<close> the outcomes on the two locks.
\<close>

definition watchdog_round ::
  "conf \<Rightarrow> (int \<times> int) \<times> (int \<times> int) \<Rightarrow> (int \<times> int \<Rightarrow> int) \<times> (int \<times> int \<Rightarrow> int) \<Rightarrow> watchdog \<Rightarrow>
   (report list \<times> watchdog) res" where
  "watchdog_round cs now timedlock w =
     bindR (check_lock cs (fst (fst now)) (snd (fst now)) (fst timedlock) ''notify queue'') (\<lambda>(_, r1).
     bindR (check_lock cs (fst (snd now)) (snd (snd now)) (snd timedlock) ''timers'') (\<lambda>(_, r2).
     bindR (c_int (relatime w + 1)) (\<lambda>t.
       let w1 = w\<lparr>relatime := t\<rparr> in
       if c_mod t (get_conf cs ''watchdog.receiver_timeout'') = 0 then
         let (r3, w2) = check_receiver 0 ''master'' w1; (r4, w3) = check_receiver 1 ''slave'' w2
         in Inr (r1 @ r2 @ r3 @ r4, w3)
       else Inr (r1 @ r2, w1))))"

section \<open>Runs\<close>

text \<open>
  What happens in a second: which receivers were heard, the times, the lock outcomes.
\<close>

record second =
  heard :: "bool list"
  times :: "(int \<times> int) \<times> (int \<times> int)"
  locks :: "(int \<times> int \<Rightarrow> int) \<times> (int \<times> int \<Rightarrow> int)"

primrec watch :: "conf \<Rightarrow> second list \<Rightarrow> watchdog \<Rightarrow> (report list list \<times> watchdog) res" where
  "watch cs [] w = Inr ([], w)"
| "watch cs (x # xs) w =
     bindR (watchdog_round cs (times x) (locks x) (heartbeats (heard x) w)) (\<lambda>(r, w1).
     bindR (watch cs xs w1) (\<lambda>(rs, w2). Inr (r # rs, w2)))"

lemma watch_snoc:
  "watch cs (xs @ [x]) w = bindR (watch cs xs w) (\<lambda>(rs, w1).
     bindR (watchdog_round cs (times x) (locks x) (heartbeats (heard x) w1)) (\<lambda>(r, w2). Inr (rs @ [r], w2)))"
proof (induction xs arbitrary: w)
  case Nil
  show ?case by (auto simp: bindR_assoc intro!: arg_cong [where f = "bindR _"])
next
  case (Cons y xs)
  show ?case
    by (auto simp: Cons.IH bindR_assoc split_def intro!: arg_cong [where f = "bindR _"])
qed

text \<open>
  The reference: with period \<open>n\<close>, receiver \<open>i\<close> is heard in a period of the history if in
  one of its seconds, and is reported at the end of a period in which it is not heard if it
  was in the period before; the period before the first one counts as heard.
\<close>

definition heard_in :: "second list \<Rightarrow> nat \<Rightarrow> nat \<Rightarrow> nat \<Rightarrow> bool" where
  "heard_in xs i a b = list_ex (\<lambda>x. heard x ! i) (take (b - a) (drop a xs))"

definition due :: "nat \<Rightarrow> second list \<Rightarrow> nat \<Rightarrow> bool" where
  "due n xs i \<longleftrightarrow> n dvd length xs \<and> \<not> heard_in xs i (length xs - n) (length xs) \<and>
     (length xs = n \<or> heard_in xs i (length xs - 2 * n) (length xs - n))"

definition dead_reports :: "nat \<Rightarrow> second list \<Rightarrow> report list" where
  "dead_reports n xs = (if due n xs 0 then [Receiver_Dead ''master''] else []) @
     (if due n xs 1 then [Receiver_Dead ''slave''] else [])"

definition is_dead :: "report \<Rightarrow> bool" where
  "is_dead r = (case r of Receiver_Dead _ \<Rightarrow> True | Lock_Stuck _ _ \<Rightarrow> False)"

definition second_ok :: "conf \<Rightarrow> second \<Rightarrow> bool" where
  "second_ok cs x \<longleftrightarrow> length (heard x) = 2 \<and>
     (\<forall>t\<in>{fst (times x), snd (times x)}. 0 \<le> fst t \<and> fst t + get_conf cs ''watchdog.lock_timeout'' \<le> int_max \<and>
        0 \<le> snd t \<and> snd t < 1000000)"

section \<open>The state after a history\<close>

definition elapsed :: "nat \<Rightarrow> second list \<Rightarrow> nat" where
  "elapsed n xs = length xs - length xs mod n"

definition alive_now :: "nat \<Rightarrow> second list \<Rightarrow> nat \<Rightarrow> bool" where
  "alive_now n xs i = heard_in xs i (elapsed n xs) (length xs)"

definition alive_before :: "nat \<Rightarrow> second list \<Rightarrow> nat \<Rightarrow> bool" where
  "alive_before n xs i \<longleftrightarrow> length xs < n \<or> heard_in xs i (elapsed n xs - n) (elapsed n xs)"

definition after :: "nat \<Rightarrow> second list \<Rightarrow> watchdog" where
  "after n xs = \<lparr>receiver_alive = [alive_now n xs 0, alive_now n xs 1],
     last_receiver_alive = [alive_before n xs 0, alive_before n xs 1], relatime = int (length xs)\<rparr>"

lemma heard_in_append: "b \<le> length xs \<Longrightarrow> heard_in (xs @ ys) i a b = heard_in xs i a b"
  by (simp add: heard_in_def)

lemma heard_in_snoc:
  "a \<le> length xs \<Longrightarrow> heard_in (xs @ [x]) i a (Suc (length xs)) \<longleftrightarrow> heard_in xs i a (length xs) \<or> heard x ! i"
  by (simp add: heard_in_def Suc_diff_le)

lemma heard_in_empty [simp]: "\<not> heard_in xs i a a"
  by (simp add: heard_in_def)

lemma elapsed_le: "elapsed n xs \<le> length xs"
  by (simp add: elapsed_def)

lemma elapsed_snoc:
  assumes "0 < n"
  shows "elapsed n (xs @ [x]) = (if n dvd Suc (length xs) then Suc (length xs) else elapsed n xs)"
    and "n dvd Suc (length xs) \<Longrightarrow> elapsed n xs = Suc (length xs) - n"
proof -
  show "elapsed n (xs @ [x]) = (if n dvd Suc (length xs) then Suc (length xs) else elapsed n xs)"
    using assms by (auto simp: elapsed_def mod_Suc dvd_eq_mod_eq_0)
  show "elapsed n xs = Suc (length xs) - n" if "n dvd Suc (length xs)"
    using assms that by (auto simp: elapsed_def mod_Suc dvd_eq_mod_eq_0 split: if_splits)
qed

lemma alive_heartbeat:
  "heard_in (xs @ [x]) i (elapsed n xs) (Suc (length xs)) \<longleftrightarrow> alive_now n xs i \<or> heard x ! i"
  by (simp add: heard_in_snoc elapsed_le alive_now_def)

lemma due_snoc:
  assumes "0 < n"
  shows "due n (xs @ [x]) i \<longleftrightarrow>
    n dvd Suc (length xs) \<and> \<not> (alive_now n xs i \<or> heard x ! i) \<and> alive_before n xs i"
proof (cases "n dvd Suc (length xs)")
  case True
  then have e: "elapsed n xs = Suc (length xs) - n" and le: "n \<le> Suc (length xs)"
    using elapsed_snoc(2) [OF assms] by (auto dest: dvd_imp_le)
  have "Suc (length xs) - 2 * n = elapsed n xs - n" by (simp add: e)
  moreover have "heard_in (xs @ [x]) i (elapsed n xs - n) (elapsed n xs) = heard_in xs i (elapsed n xs - n) (elapsed n xs)"
    by (rule heard_in_append) (rule elapsed_le)
  moreover have "length xs < n \<longleftrightarrow> Suc (length xs) = n" using le True by (auto dest: dvd_imp_le)
  ultimately show ?thesis
    using True alive_heartbeat [of xs x i n] by (simp add: due_def alive_before_def e [symmetric])
next
  case False
  then show ?thesis by (simp add: due_def)
qed

lemma after_snoc:
  assumes "0 < n"
  shows "alive_now n (xs @ [x]) i \<longleftrightarrow> \<not> n dvd Suc (length xs) \<and> (alive_now n xs i \<or> heard x ! i)"
    and "alive_before n (xs @ [x]) i \<longleftrightarrow>
      (if n dvd Suc (length xs) then alive_now n xs i \<or> heard x ! i else alive_before n xs i)"
proof -
  show "alive_now n (xs @ [x]) i \<longleftrightarrow> \<not> n dvd Suc (length xs) \<and> (alive_now n xs i \<or> heard x ! i)"
    using alive_heartbeat [of xs x i n] by (simp add: alive_now_def elapsed_snoc(1) [OF assms])
  show "alive_before n (xs @ [x]) i \<longleftrightarrow>
      (if n dvd Suc (length xs) then alive_now n xs i \<or> heard x ! i else alive_before n xs i)"
  proof (cases "n dvd Suc (length xs)")
    case True
    then have "n \<le> Suc (length xs)" by (auto dest: dvd_imp_le)
    with True alive_heartbeat [of xs x i n] show ?thesis
      by (simp add: alive_before_def elapsed_snoc(1) [OF assms] elapsed_snoc(2) [OF assms True] not_less)
  next
    case False
    then have "Suc (length xs) < n \<longleftrightarrow> length xs < n" by (metis Suc_lessI dvd_refl Suc_lessD)
    moreover have "heard_in (xs @ [x]) i (elapsed n xs - n) (elapsed n xs) = heard_in xs i (elapsed n xs - n) (elapsed n xs)"
      by (rule heard_in_append) (rule elapsed_le)
    ultimately show ?thesis
      using False by (simp add: alive_before_def elapsed_snoc(1) [OF assms])
  qed
qed

lemma get_conf_pos: "1 \<le> get_conf cs key"
  by (simp add: get_conf_def Let_def)

lemma check_lock_ok:
  assumes "0 \<le> s" "s + get_conf cs ''watchdog.lock_timeout'' \<le> int_max" "0 \<le> u" "u < 1000000"
  shows "\<exists>d r. check_lock cs s u f msg = Inr (d, r) \<and> filter is_dead r = []"
proof -
  have "c_int (s + get_conf cs ''watchdog.lock_timeout'') = Inr (s + get_conf cs ''watchdog.lock_timeout'')"
    "c_int (u * 1000) = Inr (u * 1000)"
    using assms get_conf_pos [of cs "''watchdog.lock_timeout''"]
    by (auto intro!: c_int_ok simp: int_min_def int_max_def)
  then show ?thesis by (simp add: check_lock_def Let_def is_dead_def)
qed

lemma watchdog_round_after:
  assumes n: "get_conf cs ''watchdog.receiver_timeout'' = int n" and ok: "second_ok cs x"
    and len: "Suc (length xs) \<le> nat int_max"
  shows "\<exists>r. watchdog_round cs (times x) (locks x) (heartbeats (heard x) (after n xs)) =
      Inr (r, after n (xs @ [x])) \<and> filter is_dead r = dead_reports n (xs @ [x])"
proof -
  have pos: "0 < n" using n get_conf_pos [of cs "''watchdog.receiver_timeout''"] by simp
  obtain h0 h1 where h: "heard x = [h0, h1]"
    using ok by (auto simp: second_ok_def length_Suc_conv numeral_2_eq_2)
  let ?lock1 = "check_lock cs (fst (fst (times x))) (snd (fst (times x))) (fst (locks x)) ''notify queue''"
  let ?lock2 = "check_lock cs (fst (snd (times x))) (snd (snd (times x))) (snd (locks x)) ''timers''"
  have "\<exists>d r. ?lock1 = Inr (d, r) \<and> filter is_dead r = []" "\<exists>d r. ?lock2 = Inr (d, r) \<and> filter is_dead r = []"
    using ok by (simp_all add: second_ok_def check_lock_ok del: split_paired_Ex)
  then obtain d1 r1 d2 r2 where l: "?lock1 = Inr (d1, r1)" "filter is_dead r1 = []"
    "?lock2 = Inr (d2, r2)" "filter is_dead r2 = []" by blast
  have t: "c_int (int (length xs) + 1) = Inr (int (Suc (length xs)))"
    using len by (simp add: c_int_def int_min_def int_max_def)
  have m: "c_mod (int (Suc (length xs))) (int n) = 0 \<longleftrightarrow> n dvd Suc (length xs)"
    using pos by (subst c_mod_pos) (auto simp del: of_nat_Suc simp: zmod_int [symmetric] dvd_eq_mod_eq_0)
  define a0 where "a0 \<longleftrightarrow> alive_now n xs 0 \<or> h0"
  define a1 where "a1 \<longleftrightarrow> alive_now n xs 1 \<or> h1"
  define b0 where "b0 = alive_before n xs 0"
  define b1 where "b1 = alive_before n xs 1"
  have hb: "heartbeats (heard x) (after n xs) =
      \<lparr>receiver_alive = [a0, a1], last_receiver_alive = [b0, b1], relatime = int (length xs)\<rparr>"
    by (simp add: heartbeats_def after_def h a0_def a1_def b0_def b1_def)
  have due: "due n (xs @ [x]) 0 \<longleftrightarrow> n dvd Suc (length xs) \<and> \<not> a0 \<and> b0"
    "due n (xs @ [x]) 1 \<longleftrightarrow> n dvd Suc (length xs) \<and> \<not> a1 \<and> b1"
    by (simp_all add: due_snoc [OF pos] h a0_def a1_def b0_def b1_def)
  have aft: "after n (xs @ [x]) = (if n dvd Suc (length xs)
      then \<lparr>receiver_alive = [False, False], last_receiver_alive = [a0, a1], relatime = int (Suc (length xs))\<rparr>
      else \<lparr>receiver_alive = [a0, a1], last_receiver_alive = [b0, b1], relatime = int (Suc (length xs))\<rparr>)"
    by (simp add: after_def after_snoc [OF pos] h a0_def a1_def b0_def b1_def)
  have run: "watchdog_round cs (times x) (locks x) (heartbeats (heard x) (after n xs)) =
      (if n dvd Suc (length xs)
       then let (r3, w2) = check_receiver 0 ''master'' \<lparr>receiver_alive = [a0, a1], last_receiver_alive = [b0, b1], relatime = int (Suc (length xs))\<rparr>;
                (r4, w3) = check_receiver 1 ''slave'' w2 in Inr (r1 @ r2 @ r3 @ r4, w3)
       else Inr (r1 @ r2, \<lparr>receiver_alive = [a0, a1], last_receiver_alive = [b0, b1], relatime = int (Suc (length xs))\<rparr>))"
    unfolding watchdog_round_def l bindR.simps prod.case hb n Let_def
    by (simp only: t m bindR.simps watchdog.simps Let_def)
  show ?thesis
    unfolding run aft dead_reports_def due
    by (simp add: check_receiver_def l(2,4) is_dead_def)
qed

section \<open>Properties\<close>

text \<open>
  C21: over any history of seconds, the watchdog reports a receiver dead exactly at the end of a
  period in which it was not heard and before which it was (or which is the first), never
  in the middle of a period and never twice in one silence; the lock reports do not
  interfere.
\<close>

theorem watchdog_reports:
  assumes "list_all (second_ok cs) xs" "get_conf cs ''watchdog.receiver_timeout'' = int n"
    and "length xs \<le> nat int_max"
  shows "\<exists>rs. watch cs xs init_watch = Inr (rs, after n xs) \<and>
    map (filter is_dead) rs = map (\<lambda>k. dead_reports n (take (Suc k) xs)) [0..<length xs]"
  using assms(1,3)
proof (induction xs rule: rev_induct)
  case Nil
  have "0 < n" using assms(2) get_conf_pos [of cs "''watchdog.receiver_timeout''"] by simp
  then show ?case
    by (simp add: after_def init_watch_def alive_now_def alive_before_def elapsed_def)
next
  case (snoc x xs)
  then obtain rs where rs: "watch cs xs init_watch = Inr (rs, after n xs)"
    "map (filter is_dead) rs = map (\<lambda>k. dead_reports n (take (Suc k) xs)) [0..<length xs]" by auto
  obtain r where r: "watchdog_round cs (times x) (locks x) (heartbeats (heard x) (after n xs)) =
      Inr (r, after n (xs @ [x]))" "filter is_dead r = dead_reports n (xs @ [x])"
    using watchdog_round_after [OF assms(2), of x xs] snoc.prems by auto
  have "map (\<lambda>k. dead_reports n (take (Suc k) (xs @ [x]))) [0..<length xs] =
      map (\<lambda>k. dead_reports n (take (Suc k) xs)) [0..<length xs]" by auto
  with rs r show ?case by (auto simp: watch_snoc)
qed

theorem watchdog_reports_witness:
  "\<exists>rs w. watch [(''watchdog.receiver_timeout'', ''2'')]
      (map (\<lambda>h. \<lparr>heard = h, times = ((0, 0), (0, 0)), locks = (\<lambda>_. 0, \<lambda>_. 0)\<rparr>)
        [[True, False], [False, False], [False, False], [False, False]]) init_watch = Inr (rs, w) \<and>
    map (filter is_dead) rs = [[], [Receiver_Dead ''slave''], [], [Receiver_Dead ''master'']]"
proof -
  let ?cs = "[(''watchdog.receiver_timeout'', ''2'')] :: conf"
  let ?xs = "map (\<lambda>h. \<lparr>heard = h, times = ((0, 0), (0, 0)), locks = (\<lambda>_. 0, \<lambda>_. 0)\<rparr>)
        [[True, False], [False, False], [False, False], [False, False]]"
  have c: "get_conf ?cs ''watchdog.receiver_timeout'' = int 2" "get_conf ?cs ''watchdog.lock_timeout'' = 1"
    by code_simp+
  have ok: "list_all (second_ok ?cs) ?xs" by (simp add: second_ok_def c int_max_def)
  have d: "map (\<lambda>k. dead_reports 2 (take (Suc k) ?xs)) [0..<length ?xs] =
      [[], [Receiver_Dead ''slave''], [], [Receiver_Dead ''master'']]"
    by (simp add: upt_rec dead_reports_def due_def heard_in_def)
  have len: "length ?xs \<le> nat int_max" by (simp add: int_max_def)
  from watchdog_reports [OF ok c(1) len] obtain rs where
    "watch ?cs ?xs init_watch = Inr (rs, after 2 ?xs)"
    "map (filter is_dead) rs = [[], [Receiver_Dead ''slave''], [], [Receiver_Dead ''master'']]"
    unfolding d by (elim exE conjE)
  then show ?thesis by (intro exI conjI)
qed

end
