(* ===== verification/Send_Nrf.thy ===== *)
theory Send_Nrf
  imports Spi_Bus
begin

text \<open>
  The test transmitter: \<open>send/nrf.c\<close>, its variant \<open>send/nrf_simple.c\<close> and the loop of
  \<open>send/main.c\<close>. The accesses of the first two files to the bus are those of \<open>Spi_Bus\<close>.
  The payloads that go on the air are read off the decoded trace: with \<open>nrf_simple.c\<close> they
  are the packets the loop composes, with \<open>nrf.c\<close> the bytes the chip returned while the
  packet before was written stay in them.
\<close>

section \<open>\<open>send/nrf.c\<close>\<close>

definition TX_ADR_WIDTH :: uchar where "TX_ADR_WIDTH = 5"
definition TX_PLOAD_WIDTH :: uchar where "TX_PLOAD_WIDTH = 9"
definition BUF_SIZE :: nat where "BUF_SIZE = 9"

text \<open>The trace, and the array \<open>TX_ADDRESS\<close>.\<close>

record tx =
  tx_bus :: bus
  TX_ADDRESS :: "uchar list"

definition tx_start :: tx where
  "tx_start = \<lparr>tx_bus = [], TX_ADDRESS = [0xff, 0xff, 0xff, 0xff, 0xff]\<rparr>"

text \<open>The buffer is overwritten with what the chip returned.\<close>

definition nRF24L01_TxPacket :: "dev \<Rightarrow> uchar list \<Rightarrow> tx \<Rightarrow> (uchar list \<times> tx) res" where
  "nRF24L01_TxPacket d buf s =
     (let b1 = SPI_write_reg d (WRITE_REG + STATUS) 0x70 (ce 0 (tx_bus s));
          b2 = SPI_write_reg d FLUSH_TX 0 b1
      in bindR (SPI_Write_Buf d WR_TX_PLOAD buf TX_PLOAD_WIDTH b2) (\<lambda>(buf1, b3).
           Inr (buf1, s\<lparr>tx_bus := usleep 800 (ce 1 b3)\<rparr>)))"

definition init_NRF24L01 :: "dev \<Rightarrow> uchar \<Rightarrow> tx \<Rightarrow> tx res" where
  "init_NRF24L01 d station s =
     (let w = (\<lambda>reg val b. SPI_write_reg d (WRITE_REG + reg) val b) in
      bindR (SPI_Write_Buf d (WRITE_REG + TX_ADDR) (TX_ADDRESS s) TX_ADR_WIDTH (ce 0 (tx_bus s))) (\<lambda>(addr, b1).
        let b2 = w STATUS 0x70 b1;
            b3 = w EN_AA 0x01 b2;
            b4 = w EN_RXADDR 0x01 b3;
            b5 = w SETUP_RETR 0x00 b4;
            b6 = w RF_CH station b5;
            b7 = w RF_SETUP 0x07 b6;
            b8 = w CONFIG 0x7e b7
        in Inr (s\<lparr>tx_bus := usleep 10000 (ce 1 b8), TX_ADDRESS := addr\<rparr>)))"

text \<open>The values \<open>print_configs\<close> prints, and the trace.\<close>

definition print_configs :: "dev \<Rightarrow> bus \<Rightarrow> uchar list \<times> bus" where
  "print_configs d b =
     (let (vs, b1) = read_regs d [STATUS, EN_AA, EN_RXADDR, SETUP_RETR, RF_CH, RX_PW_P0, RF_SETUP, CONFIG] (ce 0 b)
      in (vs, ce 1 b1))"

section \<open>\<open>send/nrf_simple.c\<close>\<close>

abbreviation (input) WR_TX_PAYLOAD_NOACK :: uchar where "WR_TX_PAYLOAD_NOACK \<equiv> 0xB0"
abbreviation (input) ACTIVATE :: uchar where "ACTIVATE \<equiv> 0x50"
abbreviation (input) FEATURE :: uchar where "FEATURE \<equiv> 0x1D"

text \<open>The loop that writes a buffer byte by byte; every byte is copied to a local first.\<close>

fun write_bytes :: "dev \<Rightarrow> uchar list \<Rightarrow> bus \<Rightarrow> bus" where
  "write_bytes d [] b = b"
| "write_bytes d (v # vs) b = write_bytes d vs (spi_write_byte d v b)"

definition SPI_write_buf :: "dev \<Rightarrow> uchar \<Rightarrow> uchar list \<Rightarrow> uchar \<Rightarrow> bus \<Rightarrow> bus res" where
  "SPI_write_buf d reg buf bytes b =
     bindR (checkR (unat bytes \<le> length buf) Out_Of_Bounds) (\<lambda>_.
       Inr (csn 1 (write_bytes d (take (unat bytes) buf) (spi_write_byte d reg (csn 0 b)))))"

definition simple_TxPacket :: "dev \<Rightarrow> uchar list \<Rightarrow> bus \<Rightarrow> bus res" where
  "simple_TxPacket d buf b =
     bindR (SPI_write_buf d WR_TX_PAYLOAD_NOACK buf TX_PLOAD_WIDTH (ce 0 b)) (\<lambda>b1.
       Inr (usleep 20 (ce 1 b1)))"

definition write_local_addr :: "dev \<Rightarrow> bus \<Rightarrow> bus" where
  "write_local_addr d b =
     csn 1 (write_bytes d (replicate (unat TX_ADR_WIDTH) 0xFF) (spi_write_byte d (WRITE_REG + TX_ADDR) (csn 0 b)))"

definition simple_init :: "dev \<Rightarrow> uchar \<Rightarrow> bus \<Rightarrow> bus" where
  "simple_init d station b =
     (let w = (\<lambda>reg val b. SPI_write_reg d (WRITE_REG + reg) val b);
          b1 = write_local_addr d (ce 0 b);
          b2 = w STATUS 0x70 b1;
          b3 = w EN_AA 0x01 b2;
          b4 = w EN_RXADDR 0x00 b3;
          b5 = w SETUP_RETR 0x00 b4;
          b6 = w RF_CH station b5;
          b7 = w RF_SETUP 0x07 b6;
          b8 = w CONFIG 0x7e b7;
          b9 = w ACTIVATE 0x73 b8;
          b10 = w FEATURE 0x01 b9;
          b11 = SPI_write_reg d FLUSH_TX 0 b10
      in usleep 10000 (ce 1 b11))"

text \<open>
  Both files define the accesses of \<open>Spi_Bus\<close> again: \<open>nrf_simple.c\<close> those to single bytes and
  registers and the print of the registers, \<open>nrf.c\<close> those to registers and \<open>flush_rx\<close>.
\<close>

definition simple_write_byte :: "dev \<Rightarrow> uchar \<Rightarrow> bus \<Rightarrow> bus" where
  "simple_write_byte d val b = snd (spi_rw d [val] b)"

definition simple_read_byte :: "dev \<Rightarrow> bus \<Rightarrow> uchar \<times> bus" where
  "simple_read_byte d b = (let (val, b1) = spi_rw d [0xCC] b in (hd val, b1))"

definition simple_Read :: "dev \<Rightarrow> uchar \<Rightarrow> bus \<Rightarrow> uchar \<times> bus" where
  "simple_Read d reg b =
     (let (reg_val, b1) = simple_read_byte d (simple_write_byte d reg (csn 0 b)) in (reg_val, csn 1 b1))"

definition simple_write_reg :: "dev \<Rightarrow> uchar \<Rightarrow> uchar \<Rightarrow> bus \<Rightarrow> bus" where
  "simple_write_reg d reg val b = csn 1 (simple_write_byte d val (simple_write_byte d reg (csn 0 b)))"

fun simple_registers :: "dev \<Rightarrow> uchar list \<Rightarrow> bus \<Rightarrow> uchar list \<times> bus" where
  "simple_registers d [] b = ([], b)"
| "simple_registers d (r # rs) b =
     (let (v, b1) = simple_Read d r b; (vs, b2) = simple_registers d rs b1 in (v # vs, b2))"

definition simple_print_configs :: "dev \<Rightarrow> bus \<Rightarrow> uchar list \<times> bus" where
  "simple_print_configs d b =
     (let (vs, b1) = simple_registers d [STATUS, EN_AA, EN_RXADDR, SETUP_RETR, RF_CH, RX_PW_P0, RF_SETUP, CONFIG] (ce 0 b)
      in (vs, ce 1 b1))"

definition send_write_reg :: "dev \<Rightarrow> uchar \<Rightarrow> uchar \<Rightarrow> bus \<Rightarrow> bus" where
  "send_write_reg d reg val b = csn 1 (spi_write_byte d val (spi_write_byte d reg (csn 0 b)))"

definition send_Read :: "dev \<Rightarrow> uchar \<Rightarrow> bus \<Rightarrow> uchar \<times> bus" where
  "send_Read d reg b =
     (let (reg_val, b1) = spi_read_byte d (spi_write_byte d reg (csn 0 b)) in (reg_val, csn 1 b1))"

definition send_flush_rx :: "dev \<Rightarrow> bus \<Rightarrow> bus" where
  "send_flush_rx d b = csn 1 (send_write_reg d FLUSH_RX 0 (csn 0 b))"

text \<open>The copies agree.\<close>

lemma simple_copies:
  "simple_write_byte d = spi_write_byte d" "simple_read_byte d = spi_read_byte d"
  "simple_write_reg d = SPI_write_reg d" "simple_Read d = SPI_Read d"
  "send_write_reg d = SPI_write_reg d" "send_Read d = SPI_Read d"
  by (simp_all add: fun_eq_iff simple_write_byte_def spi_write_byte_def simple_read_byte_def spi_read_byte_def
    simple_write_reg_def SPI_write_reg_def simple_Read_def SPI_Read_def send_write_reg_def send_Read_def)

lemma simple_registers_eq: "simple_registers d rs b = read_regs d rs b"
  by (induction rs arbitrary: b) (simp_all add: simple_copies)

lemma simple_print_configs_eq: "simple_print_configs d b = print_configs d b"
  by (simp add: simple_print_configs_def print_configs_def simple_registers_eq)

section \<open>The two headers\<close>

text \<open>
  The commands and registers as \<open>send/nrf.h\<close> and \<open>receive/nrf.h\<close> define them, each for itself.
\<close>

definition send_header :: "(string \<times> uchar) list" where
  "send_header =
    [(''READ_REG'', 0x00), (''WRITE_REG'', 0x20), (''RD_RX_PLOAD'', 0x61), (''WR_TX_PLOAD'', 0xA0),
     (''WR_TX_PAYLOAD_NOACK'', 0xB0), (''FLUSH_TX'', 0xE1), (''FLUSH_RX'', 0xE2), (''REUSE_TX_PL'', 0xE3),
     (''ACTIVATE'', 0x50), (''NOP'', 0xFF), (''CONFIG'', 0x00), (''EN_AA'', 0x01), (''EN_RXADDR'', 0x02),
     (''SETUP_AW'', 0x03), (''SETUP_RETR'', 0x04), (''RF_CH'', 0x05), (''RF_SETUP'', 0x06),
     (''STATUS'', 0x07), (''OBSERVE_TX'', 0x08), (''CD'', 0x09), (''RX_ADDR_P0'', 0x0A),
     (''RX_ADDR_P1'', 0x0B), (''RX_ADDR_P2'', 0x0C), (''RX_ADDR_P3'', 0x0D), (''RX_ADDR_P4'', 0x0E),
     (''RX_ADDR_P5'', 0x0F), (''TX_ADDR'', 0x10), (''RX_PW_P0'', 0x11), (''RX_PW_P1'', 0x12),
     (''RX_PW_P2'', 0x13), (''RX_PW_P3'', 0x14), (''RX_PW_P4'', 0x15), (''RX_PW_P5'', 0x16),
     (''FIFO_STATUS'', 0x17), (''FEATURE'', 0x1D)]"

definition receive_header :: "(string \<times> uchar) list" where
  "receive_header =
    [(''READ_REG'', 0x00), (''WRITE_REG'', 0x20), (''RD_RX_PLOAD'', 0x61), (''WR_TX_PLOAD'', 0xA0),
     (''FLUSH_TX'', 0xE1), (''FLUSH_RX'', 0xE2), (''REUSE_TX_PL'', 0xE3), (''NOP'', 0xFF),
     (''CONFIG'', 0x00), (''EN_AA'', 0x01), (''EN_RXADDR'', 0x02), (''SETUP_AW'', 0x03),
     (''SETUP_RETR'', 0x04), (''RF_CH'', 0x05), (''RF_SETUP'', 0x06), (''STATUS'', 0x07),
     (''OBSERVE_TX'', 0x08), (''CD'', 0x09), (''RX_ADDR_P0'', 0x0A), (''RX_ADDR_P1'', 0x0B),
     (''RX_ADDR_P2'', 0x0C), (''RX_ADDR_P3'', 0x0D), (''RX_ADDR_P4'', 0x0E), (''RX_ADDR_P5'', 0x0F),
     (''TX_ADDR'', 0x10), (''RX_PW_P0'', 0x11), (''RX_PW_P1'', 0x12), (''RX_PW_P2'', 0x13),
     (''RX_PW_P3'', 0x14), (''RX_PW_P4'', 0x15), (''RX_PW_P5'', 0x16), (''FIFO_STATUS'', 0x17)]"

text \<open>They agree on every name they share, and give the names of \<open>Spi_Bus\<close> their values.\<close>

lemma headers_agree:
  "receive_header = filter (\<lambda>(n, v). n \<notin> {''WR_TX_PAYLOAD_NOACK'', ''ACTIVATE'', ''FEATURE''}) send_header"
  by code_simp

lemma header_values:
  "map (map_of send_header)
     [''WRITE_REG'', ''RD_RX_PLOAD'', ''WR_TX_PLOAD'', ''FLUSH_TX'', ''FLUSH_RX'', ''CONFIG'', ''EN_AA'', ''EN_RXADDR'', ''SETUP_AW'', ''SETUP_RETR'', ''RF_CH'', ''RF_SETUP'', ''STATUS'', ''RX_ADDR_P0'', ''TX_ADDR'', ''RX_PW_P0'',
      ''WR_TX_PAYLOAD_NOACK'', ''ACTIVATE'', ''FEATURE''] =
   map Some [WRITE_REG, RD_RX_PLOAD, WR_TX_PLOAD, FLUSH_TX, FLUSH_RX, CONFIG, EN_AA, EN_RXADDR, SETUP_AW, SETUP_RETR, RF_CH, RF_SETUP, STATUS, RX_ADDR_P0, TX_ADDR, RX_PW_P0,
      WR_TX_PAYLOAD_NOACK, ACTIVATE, FEATURE]"
  by code_simp

section \<open>\<open>send/main.c\<close>\<close>

text \<open>
  The bytes the loop writes into its buffer before each transmission; \<open>r1\<close> and \<open>r2\<close> are the
  two values of \<open>rand()\<close>, which are not negative.
\<close>

definition fill :: "int \<Rightarrow> int \<Rightarrow> uchar list \<Rightarrow> uchar list" where
  "fill r1 r2 buf =
     (let i = r1 AND 0xFFFF in
      buf[2 := word_of_int (drop_bit 8 i), 3 := word_of_int (i AND 0xFF), 4 := 0xc0,
          5 := word_of_int (push_bit (nat (c_mod r2 6)) 1)])"

text \<open>\<open>station & 0x7F\<close>.\<close>

definition station_of :: "int \<Rightarrow> uchar" where
  "station_of arg = word_of_int (arg AND 0x7F)"

text \<open>The rounds of the endless loop, with either driver.\<close>

fun send_loop :: "dev \<Rightarrow> (int \<times> int) list \<Rightarrow> uchar list \<Rightarrow> tx \<Rightarrow> (uchar list \<times> tx) res" where
  "send_loop d [] buf s = Inr (buf, s)"
| "send_loop d ((r1, r2) # rs) buf s =
     bindR (nRF24L01_TxPacket d (fill r1 r2 buf) s) (\<lambda>(buf1, s1). send_loop d rs buf1 s1)"

fun simple_loop :: "dev \<Rightarrow> (int \<times> int) list \<Rightarrow> uchar list \<Rightarrow> bus \<Rightarrow> bus res" where
  "simple_loop d [] buf b = Inr b"
| "simple_loop d ((r1, r2) # rs) buf b =
     bindR (simple_TxPacket d (fill r1 r2 buf) b) (\<lambda>b1. simple_loop d rs (fill r1 r2 buf) b1)"

definition zero_buf :: "uchar list" where
  "zero_buf = replicate BUF_SIZE 0"

text \<open>
  The start of the program, as far as the first transmission: the checks come before the look
  at the arguments. An exit code, or the calls to the GPIO library, the registers printed and
  the driver.
\<close>

datatype pin_op = Out_Ce | Out_Csn | Setup int int

definition send_start ::
  "dev \<Rightarrow> bool \<Rightarrow> bool \<Rightarrow> bool \<Rightarrow> string list \<Rightarrow> (int + pin_op list \<times> uchar list \<times> tx) res" where
  "send_start d is_root gpio_ok spi_ok argv =
     (if \<not> is_root then Inr (Inl 1)
      else if \<not> gpio_ok then Inr (Inl 1)
      else if \<not> spi_ok then Inr (Inl 1)
      else if length argv < 3 then Inr (Inl 1)
      else bindR (init_NRF24L01 d (station_of (atoi (argv ! 1))) tx_start) (\<lambda>s.
        let (vs, b) = print_configs d (tx_bus s)
        in Inr (Inr ([Out_Ce, Out_Csn, Setup 0 8000000], vs, s\<lparr>tx_bus := b\<rparr>))))"

text \<open>A line with the rate is printed after every thousandth packet.\<close>

definition prints_rate :: "int \<Rightarrow> bool" where
  "prints_rate counter \<longleftrightarrow> c_mod counter 1000 = 0"

definition send_main ::
  "dev \<Rightarrow> bool \<Rightarrow> bool \<Rightarrow> bool \<Rightarrow> string list \<Rightarrow> (int \<times> int) list \<Rightarrow> (int + uchar list \<times> tx) res" where
  "send_main d is_root gpio_ok spi_ok argv rs =
     bindR (send_start d is_root gpio_ok spi_ok argv) (\<lambda>r. case r of
         Inl code \<Rightarrow> Inr (Inl code)
       | Inr (_, _, s) \<Rightarrow> bindR (send_loop d rs zero_buf s) (\<lambda>x. Inr (Inr x)))"

section \<open>What goes on the air\<close>

text \<open>The payloads handed to the chip with a given command.\<close>

definition payloads :: "uchar \<Rightarrow> uchar list list \<Rightarrow> uchar list list" where
  "payloads cmd fs = map tl (filter (\<lambda>f. f \<noteq> [] \<and> hd f = cmd) fs)"

lemma payloads_simps [simp]:
  "payloads cmd [] = []" "payloads cmd (fs @ gs) = payloads cmd fs @ payloads cmd gs"
  "payloads cmd ((c # f) # fs) = (if c = cmd then f # payloads cmd fs else payloads cmd fs)"
  by (simp_all add: payloads_def)

lemma length_fill [simp]: "length (fill r1 r2 buf) = length buf"
  by (simp add: fill_def Let_def)

lemma write_bytes_trace: "write_bytes d vs b = b @ map (\<lambda>v. Spi [v]) vs"
  by (induction vs arbitrary: b) (simp_all add: spi_write_byte_def spi_rw_def)

lemma bytes_continues:
  assumes "quiet b"
  shows "continues b [r # vs] (csn 1 (write_bytes d vs (spi_write_byte d r (csn 0 b))))"
proof -
  let ?s = "(decode b)\<lparr>selected := True, current := [r]\<rparr>"
  have q: "\<not> selected (decode b)" "\<not> radio (decode b)" "orderly (decode b)" "current (decode b) = []"
    using assms by (simp_all add: quiet_def at_rest_def)
  have s: "decode (spi_write_byte d r (csn 0 b)) = ?s"
    using q by (cases "decode b") (simp add: spi_write_byte_def spi_rw_def csn_def)
  have "decode (write_bytes d vs (spi_write_byte d r (csn 0 b))) = ?s\<lparr>current := r # vs\<rparr>"
    unfolding write_bytes_trace decode_append s using q by (subst spi_bytes) simp_all
  then show ?thesis using q by (subst csn_def) (simp add: continues_def at_rest_def)
qed

lemma simple_TxPacket_ok:
  assumes "at_rest b" "length buf = BUF_SIZE"
  obtains b' where "simple_TxPacket d buf b = Inr b'" "at_rest b'" "frames b' = frames b @ [WR_TX_PAYLOAD_NOACK # buf]"
proof -
  have l: "unat TX_PLOAD_WIDTH = BUF_SIZE" by (simp add: TX_PLOAD_WIDTH_def BUF_SIZE_def)
  let ?b = "csn 1 (write_bytes d buf (spi_write_byte d WR_TX_PAYLOAD_NOACK (csn 0 (ce 0 b))))"
  have "simple_TxPacket d buf b = Inr (usleep 20 (ce 1 ?b))"
    using assms(2) l by (simp add: simple_TxPacket_def SPI_write_buf_def)
  moreover have "at_rest (usleep 20 (ce 1 ?b))" "frames (usleep 20 (ce 1 ?b)) = frames b @ [WR_TX_PAYLOAD_NOACK # buf]"
    using rest_ce [OF bytes_continues [OF quiet_ce [OF assms(1)]]] by (auto simp: at_rest_def)
  ultimately show thesis using that by blast
qed

lemma TxPacket_ok:
  assumes "at_rest (tx_bus s)" "length buf = BUF_SIZE" "dev_ok d"
  obtains b buf' h where "nRF24L01_TxPacket d buf s = Inr (buf', s\<lparr>tx_bus := b\<rparr>)" "at_rest b"
    "frames b = frames (tx_bus s) @ [[WRITE_REG + STATUS, 0x70], [FLUSH_TX, 0], WR_TX_PLOAD # buf]"
    "buf' = d h buf" "length buf' = BUF_SIZE"
proof -
  have l: "unat TX_PLOAD_WIDTH = BUF_SIZE" by (simp add: TX_PLOAD_WIDTH_def BUF_SIZE_def)
  define b2 where "b2 = SPI_write_reg d FLUSH_TX 0 (SPI_write_reg d (WRITE_REG + STATUS) 0x70 (ce 0 (tx_bus s)))"
  have q: "quiet (ce 0 (tx_bus s))" by (rule quiet_ce [OF assms(1)])
  have c2: "continues (ce 0 (tx_bus s)) ([[WRITE_REG + STATUS, 0x70]] @ [[FLUSH_TX, 0]]) b2"
    unfolding b2_def by (intro then_write write_continues q)
  let ?h = "csn 0 b2 @ [Spi [WR_TX_PLOAD]]"
  have r: "spi_buf d WR_TX_PLOAD buf TX_PLOAD_WIDTH b2 = Inr (d ?h buf, csn 1 (?h @ [Spi buf]))"
    using assms(2) l by (simp add: spi_buf_def spi_write_byte_def spi_rw_def)
  have "continues b2 [WR_TX_PLOAD # buf] (csn 1 (?h @ [Spi buf]))"
    using buf_continues [OF continues_quiet [OF q c2] r] assms(2) l by simp
  from rest_ce [OF continues_trans [OF c2 this]]
  have f: "at_rest (usleep 800 (ce 1 (csn 1 (?h @ [Spi buf]))))"
    "frames (usleep 800 (ce 1 (csn 1 (?h @ [Spi buf])))) =
       frames (tx_bus s) @ [[WRITE_REG + STATUS, 0x70], [FLUSH_TX, 0], WR_TX_PLOAD # buf]"
    by (simp_all add: at_rest_def)
  have "nRF24L01_TxPacket d buf s = Inr (d ?h buf, s\<lparr>tx_bus := usleep 800 (ce 1 (csn 1 (?h @ [Spi buf])))\<rparr>)"
    using r by (simp add: nRF24L01_TxPacket_def SPI_Write_Buf_def b2_def Let_def)
  from that [OF this f refl] show thesis using assms(2,3) by (simp add: dev_ok_def)
qed

section \<open>Properties\<close>

lemma length_zero_buf [simp]: "length zero_buf = BUF_SIZE"
  by (simp add: zero_buf_def)

lemma zero_buf_list: "zero_buf = [0, 0, 0, 0, 0, 0, 0, 0, 0]"
  by (simp add: zero_buf_def BUF_SIZE_def numeral_eq_Suc)

lemma fill_zero: "fill r1 r2 zero_buf = [0, 0, word_of_int (drop_bit 8 (r1 AND 0xFFFF)), word_of_int ((r1 AND 0xFFFF) AND 0xFF),
    0xc0, word_of_int (push_bit (nat (c_mod r2 6)) 1), 0, 0, 0]"
  by (simp add: fill_def zero_buf_list Let_def numeral_eq_Suc)

lemma fill_again: "fill r1 r2 (fill q1 q2 zero_buf) = fill r1 r2 zero_buf"
  unfolding fill_zero by (simp add: fill_def Let_def numeral_eq_Suc)

lemma simple_loop_ok:
  "at_rest b \<Longrightarrow> length buf = BUF_SIZE \<Longrightarrow> (\<And>r1 r2. fill r1 r2 buf = fill r1 r2 zero_buf) \<Longrightarrow>
    \<exists>b'. simple_loop d rs buf b = Inr b' \<and> at_rest b' \<and>
      frames b' = frames b @ map (\<lambda>(r1, r2). WR_TX_PAYLOAD_NOACK # fill r1 r2 zero_buf) rs"
proof (induction rs arbitrary: b buf)
  case Nil
  then show ?case by simp
next
  case (Cons r rs)
  obtain r1 r2 where r: "r = (r1, r2)" by (cases r)
  have f: "fill r1 r2 buf = fill r1 r2 zero_buf" by (rule Cons.prems(3))
  obtain b1 where b1: "simple_TxPacket d (fill r1 r2 buf) b = Inr b1" "at_rest b1"
    "frames b1 = frames b @ [WR_TX_PAYLOAD_NOACK # fill r1 r2 buf]"
    using simple_TxPacket_ok [OF Cons.prems(1), of "fill r1 r2 buf" d] Cons.prems(2) by auto
  have "fill q1 q2 (fill r1 r2 buf) = fill q1 q2 zero_buf" for q1 q2 by (simp add: f fill_again)
  from Cons.IH [OF b1(2) _ this] Cons.prems(2) b1 r f show ?case by auto
qed

text \<open>
  With the simple driver, the payloads on the air are exactly the packets the loop composes:
  the random number in bytes 2 and 3, the constant, the random bit, and zeros elsewhere,
  one per round.
\<close>

theorem simple_send_payloads:
  "\<exists>b'. simple_loop d rs zero_buf [] = Inr b' \<and>
    payloads WR_TX_PAYLOAD_NOACK (frames b') = map (\<lambda>(r1, r2). fill r1 r2 zero_buf) rs"
proof -
  have l: "length zero_buf = BUF_SIZE" by (simp add: zero_buf_def)
  obtain b' where b: "simple_loop d rs zero_buf [] = Inr b'"
    "frames b' = frames [] @ map (\<lambda>(r1, r2). WR_TX_PAYLOAD_NOACK # fill r1 r2 zero_buf) rs"
    using simple_loop_ok [OF at_rest_Nil l refl] by metis
  have "payloads WR_TX_PAYLOAD_NOACK (map (\<lambda>(r1, r2). WR_TX_PAYLOAD_NOACK # fill r1 r2 zero_buf) rs) =
      map (\<lambda>(r1, r2). fill r1 r2 zero_buf) rs"
    by (induction rs) auto
  with b show ?thesis by (auto simp: decode_def idle_def)
qed

text \<open>
  With \<open>nrf.c\<close> the loop sends what the chip returned: the second payload is the reply of
  the chip to the first one, with only bytes 2 to 5 composed anew.
\<close>

theorem send_reuses_reply:
  assumes "dev_ok d" "send_loop d [(q1, q2), (r1, r2)] zero_buf tx_start = Inr (buf, s)"
  shows "\<exists>h. payloads WR_TX_PLOAD (frames (tx_bus s)) =
    [fill q1 q2 zero_buf, fill r1 r2 (d h (fill q1 q2 zero_buf))]"
proof -
  have l: "length (fill q1 q2 zero_buf) = BUF_SIZE" by (simp add: zero_buf_def)
  have r: "at_rest (tx_bus tx_start)" by (simp add: tx_start_def)
  obtain b1 buf1 h where one: "nRF24L01_TxPacket d (fill q1 q2 zero_buf) tx_start = Inr (buf1, tx_start\<lparr>tx_bus := b1\<rparr>)"
    "at_rest b1" "frames b1 = frames (tx_bus tx_start) @
       [[WRITE_REG + STATUS, 0x70], [FLUSH_TX, 0], WR_TX_PLOAD # fill q1 q2 zero_buf]"
    "buf1 = d h (fill q1 q2 zero_buf)" "length buf1 = BUF_SIZE"
    by (rule TxPacket_ok [OF r l assms(1)])
  have l2: "length (fill r1 r2 buf1) = BUF_SIZE" "at_rest (tx_bus (tx_start\<lparr>tx_bus := b1\<rparr>))"
    using one(2,5) by simp_all
  obtain b2 buf2 h2 where two: "nRF24L01_TxPacket d (fill r1 r2 buf1) (tx_start\<lparr>tx_bus := b1\<rparr>) =
      Inr (buf2, tx_start\<lparr>tx_bus := b1\<rparr>\<lparr>tx_bus := b2\<rparr>)"
    "frames b2 = frames (tx_bus (tx_start\<lparr>tx_bus := b1\<rparr>)) @
       [[WRITE_REG + STATUS, 0x70], [FLUSH_TX, 0], WR_TX_PLOAD # fill r1 r2 buf1]"
    using TxPacket_ok [OF l2(2,1) assms(1)] by metis
  have "tx_bus s = b2" using assms(2) one(1) two(1) by auto
  with one(3,4) two(2) show ?thesis
    by (intro exI [of _ h]) (simp add: tx_start_def decode_def idle_def)
qed

theorem send_reuses_reply_witness:
  "\<exists>buf s. send_loop (\<lambda>b bs. map (\<lambda>_. 0x0e) bs) [(1, 0), (2, 0)] zero_buf tx_start = Inr (buf, s) \<and>
     payloads WR_TX_PLOAD (frames (tx_bus s)) =
       [[0, 0, 0, 1, 0xc0, 1, 0, 0, 0], [0x0e, 0x0e, 0, 2, 0xc0, 1, 0x0e, 0x0e, 0x0e]]"
proof -
  let ?d = "\<lambda>(b :: bus) (bs :: uchar list). map (\<lambda>_. 0x0e :: uchar) bs"
  have "map_sum id (\<lambda>_. ()) (send_loop ?d [(1, 0), (2, 0)] zero_buf tx_start) = Inr ()" by code_simp
  then obtain buf s where s: "send_loop ?d [(1, 0), (2, 0)] zero_buf tx_start = Inr (buf, s)"
    by (cases "send_loop ?d [(1, 0), (2, 0)] zero_buf tx_start") auto
  have f: "fill 1 0 zero_buf = [0, 0, 0, 1, 0xc0, 1, 0, 0, 0]"
    "fill 2 0 (map (\<lambda>_. 0x0e) (fill 1 0 zero_buf)) = [0x0e, 0x0e, 0, 2, 0xc0, 1, 0x0e, 0x0e, 0x0e]"
    by code_simp+
  have "dev_ok ?d" by (simp add: dev_ok_def)
  from send_reuses_reply [OF this s] s f show ?thesis by auto
qed

end
