(* ===== verification/Tools.thy ===== *)
theory Tools
  imports Merger_Server
begin

text \<open>
  The programs that feed the merger with made-up data - the student numbers of
  \<open>merger/test-notify.c\<close> and the packets of \<open>merger/testclient.c\<close> - and the reader of
  \<open>serial-port/main.c\<close>. The made-up packets are shown to pass the merger's checksum; the
  serial reader to hand on its frames, and to run over its buffer when a separator is lost.
\<close>

section \<open>\<open>merger/test-notify.c\<close>\<close>

text \<open>
  \<open>gen_student_id\<close>: the array \<open>id\<close>, given the values of \<open>rand()\<close> for its middle bytes, and
  the characters written to \<open>str\<close>. With one byte the second assignment is out of bounds.
\<close>

definition gen_id :: "int \<Rightarrow> int list \<Rightarrow> uchar list res" where
  "gen_id packet_size rands =
     bindR (checkR (2 \<le> packet_size) Out_Of_Bounds) (\<lambda>_.
       let n = nat packet_size;
           body = take (n - 1) ([1, 1] @ map (\<lambda>r. word_of_int (r AND 0xFF)) (take (n - 3) rands))
       in Inr (body @ [fold (\<lambda>b x. x XOR b) body 0]))"

definition gen_student_id :: "int \<Rightarrow> int list \<Rightarrow> string res" where
  "gen_student_id packet_size rands =
     bindR (gen_id packet_size rands) (\<lambda>id1.
       Inr (concat (map (\<lambda>b. [tohexchar (uint (drop_bit 4 b)), tohexchar (uint (b AND 0xF))]) id1)))"

text \<open>
  The program has its own \<open>notify\<close>, which neither logs nor reads behind the number, and its own
  \<open>load_global_configs\<close>.
\<close>

definition own_notify :: "sizes \<Rightarrow> string \<Rightarrow> bool \<Rightarrow> nqueue \<Rightarrow> nqueue res" where
  "own_notify z student_no action q =
     bindR (c_int (nq_len q + REQUEST_SIZE z)) (\<lambda>need.
     bindR (if need > nq_alloc q then
              bindR (c_int (nq_alloc q + REQUEST_SIZE z)) (\<lambda>s.
              bindR (c_int (s * 2)) (\<lambda>n.
                Inr (q\<lparr>nq_alloc := n, nq_buf := realloc_buf (nat n) (nq_buf q)\<rparr>)))
            else Inr q) (\<lambda>q1.
     bindR (checkR (nat (ID_SIZE z) \<le> length student_no) Out_Of_Bounds) (\<lambda>_.
     bindR (memcpy_at (nat (nq_len q1)) (take (nat (ID_SIZE z)) student_no) (nq_buf q1)) (\<lambda>b1.
     bindR (memcpy_at (nat (nq_len q1 + REQUEST_SIZE z - 2)) [char_of (48 + (of_bool action :: int))] b1) (\<lambda>b2.
     bindR (memcpy_at (nat (nq_len q1 + REQUEST_SIZE z - 1)) [CHR ''.''] b2) (\<lambda>b3.
       Inr (q1\<lparr>nq_buf := b3, nq_len := need\<rparr>)))))))"

definition own_load_configs :: "conf \<Rightarrow> sizes res" where
  "own_load_configs cs =
     (let packet_size = config_int cs ''student.packet_size'' in
      if packet_size < 1 then Inl Exited
      else bindR (c_int (packet_size * 2)) (\<lambda>id_size. bindR (c_int (id_size + 2)) (\<lambda>request_size.
        Inr \<lparr>PACKET_SIZE = packet_size, ID_SIZE = id_size, REQUEST_SIZE = request_size\<rparr>)))"

text \<open>On numbers of the configured length the copies agree with the merger's.\<close>

lemma own_notify_eq: "int (length sid) = ID_SIZE z \<Longrightarrow> own_notify z sid action q = notify z sid action q"
proof -
  assume "int (length sid) = ID_SIZE z"
  then have "nat (ID_SIZE z) = length sid" by simp
  then show ?thesis by (simp add: own_notify_def notify_def)
qed

lemma own_load_configs_eq: "own_load_configs cs = load_global_configs cs"
  by (simp add: own_load_configs_def load_global_configs_def Let_def)

text \<open>One round of the main loop: a passage in, a passage out.\<close>

definition notify_round :: "sizes \<Rightarrow> int list \<Rightarrow> nqueue \<Rightarrow> nqueue res" where
  "notify_round z rands q =
     bindR (gen_student_id (PACKET_SIZE z) rands) (\<lambda>sid.
     bindR (own_notify z sid True q) (\<lambda>q1. own_notify z sid False q1))"

section \<open>\<open>merger/testclient.c\<close>\<close>

definition PACK_LEN :: nat where "PACK_LEN = 9"

text \<open>The packet of a round; the last byte is recomputed from the others each time.\<close>

definition client_packet :: "uchar list \<Rightarrow> uchar list" where
  "client_packet buf = buf[PACK_LEN - 1 := fold (\<lambda>b c. c XOR b) (take (PACK_LEN - 1) buf) 0]"

definition client_buf :: "uchar list" where
  "client_buf = [0x01, 0x01, 0x02, 0x03, 0x04, 0x05, 0x06, 0x07, 0]"

text \<open>The rounds until a \<open>send\<close> does not take the whole packet: what was sent.\<close>

fun client_loop :: "int list \<Rightarrow> uchar list \<Rightarrow> uchar list list" where
  "client_loop [] buf = []"
| "client_loop (n # sends) buf =
     (let buf1 = client_packet buf in
      if n \<noteq> int PACK_LEN then [take (nat n) buf1] else buf1 # client_loop sends buf1)"

section \<open>\<open>serial-port/main.c\<close>\<close>

definition BUF_LEN :: nat where "BUF_LEN = 8"

text \<open>The statics of \<open>print_packet\<close>; the result tells whether the packet is printed.\<close>

record serial_stat =
  total :: int
  wrong :: int
  last_byte :: uchar

definition init_stat :: serial_stat where
  "init_stat = \<lparr>total = 0, wrong = - 1, last_byte = 0\<rparr>"

definition print_packet :: "uchar list \<Rightarrow> serial_stat \<Rightarrow> bool \<times> serial_stat" where
  "print_packet buf s =
     (let b = buf ! (BUF_LEN - 1);
          ok = (uint (last_byte s) + 1 = uint b \<or> (last_byte s = 0xFE \<and> b = 0));
          s1 = s\<lparr>wrong := (if ok then wrong s else wrong s + 1), last_byte := b, total := total s + 1\<rparr>
      in (\<not> ok \<or> c_mod (total s1) 1000 = 0, s1))"

text \<open>
  The reader: the bytes in the buffer, \<open>count\<close> of them in use, and the packets handed to
  \<open>print_packet\<close>. \<open>count\<close> is reset by the separator 0xFF only.
\<close>

fun serial_loop :: "uchar list \<Rightarrow> uchar list \<Rightarrow> uchar list list \<Rightarrow> (uchar list \<times> uchar list list) res" where
  "serial_loop [] buf ps = Inr (buf, ps)"
| "serial_loop (ch # chs) buf ps =
     (if ch = 0xFF then serial_loop chs [] ps
      else if length buf \<ge> BUF_LEN then Inl Out_Of_Bounds
      else let buf1 = buf @ [ch] in
           serial_loop chs buf1 (if length buf1 = BUF_LEN then ps @ [buf1] else ps))"

section \<open>Proofs\<close>

lemma xor_fold_swap: "fold (\<lambda>b x. x XOR b) bs 0 = xor_bytes bs"
  by (simp add: xor_bytes_def)

lemma gen_id_xor: "gen_id n rands = Inr i \<Longrightarrow> xor_bytes i = 0"
  by (auto simp: gen_id_def Let_def xor_fold_swap)

lemma sprint_buf_concat:
  "concat (map (\<lambda>b. [tohexchar (uint (drop_bit 4 b)), tohexchar (uint (b AND 0xF))]) bs) = sprint_buf bs"
  by (induction bs) (simp_all del: uint_and)

lemma gen_student_id_ok:
  assumes "2 \<le> packet_size" "packet_size - 3 \<le> int (length rands)"
  obtains i where "gen_id packet_size rands = Inr i" "gen_student_id packet_size rands = Inr (sprint_buf i)"
    "int (length i) = packet_size" "xor_bytes i = 0"
proof -
  obtain i where i: "gen_id packet_size rands = Inr i" using assms(1) by (simp add: gen_id_def Let_def)
  then have "int (length i) = packet_size" using assms by (auto simp: gen_id_def Let_def)
  moreover have "gen_student_id packet_size rands = Inr (sprint_buf i)"
    unfolding gen_student_id_def i bindR.simps sprint_buf_concat by (rule refl)
  ultimately show thesis using that i gen_id_xor [OF i] by blast
qed

text \<open>
  Every student number \<open>test-notify\<close> makes up is the print of a packet of the configured
  size that passes the merger's checksum, for packets of at least two bytes.
\<close>

theorem test_numbers_valid:
  assumes "2 \<le> PACKET_SIZE z" "PACKET_SIZE z - 3 \<le> int (length rands)"
  shows "\<exists>p. gen_student_id (PACKET_SIZE z) rands = Inr (sprint_buf p) \<and>
    int (length p) = PACKET_SIZE z \<and> check_packet z p"
proof -
  obtain p where p: "gen_student_id (PACKET_SIZE z) rands = Inr (sprint_buf p)"
    "int (length p) = PACKET_SIZE z" "xor_bytes p = 0"
    by (rule gen_student_id_ok [OF assms])
  then have "check_packet z p" by (simp add: check_packet_iff)
  with p show ?thesis by blast
qed

theorem test_numbers_valid_witness:
  "\<exists>p. gen_student_id 4 [255] = Inr (sprint_buf p) \<and> check_packet \<lparr>PACKET_SIZE = 4, ID_SIZE = 8, REQUEST_SIZE = 10\<rparr> p"
  using test_numbers_valid [of "\<lparr>PACKET_SIZE = 4, ID_SIZE = 8, REQUEST_SIZE = 10\<rparr>" "[255]"] by auto

text \<open>
  The serial reader hands on exactly the frames of eight bytes that end in a separator,
  in order.
\<close>

theorem serial_frames:
  assumes "list_all (\<lambda>f. length f = BUF_LEN \<and> 0xFF \<notin> set f) fs"
  shows "serial_loop (concat (map (\<lambda>f. f @ [0xFF]) fs)) [] [] = Inr ([], fs)"
proof -
  have one: "serial_loop (f @ 0xFF # chs) buf ps = serial_loop chs [] (ps @ [buf @ f])"
    if "0xFF \<notin> set f" "length buf + length f = BUF_LEN" "f \<noteq> []" for f chs buf ps
    using that
  proof (induction f arbitrary: buf ps)
    case (Cons c f)
    show ?case
    proof (cases "f = []")
      case True
      with Cons show ?thesis by (simp add: Let_def)
    next
      case False
      with Cons.prems have "Suc (length buf) < BUF_LEN" by (cases f) simp_all
      with Cons False show ?thesis by (simp add: Let_def)
    qed
  qed simp
  have "serial_loop (concat (map (\<lambda>f. f @ [0xFF]) fs)) [] ps = Inr ([], ps @ fs)" for ps
    using assms
  proof (induction fs arbitrary: ps)
    case (Cons f fs)
    then have "f \<noteq> []" "length ([] :: uchar list) + length f = BUF_LEN" "0xFF \<notin> set f"
      by (auto simp: BUF_LEN_def)
    with Cons one [of f "[]" _ ps] show ?case by simp
  qed simp
  from this [of "[]"] show ?thesis by simp
qed

theorem serial_frames_witness:
  "serial_loop [1, 2, 3, 4, 5, 6, 7, 8, 0xFF, 0, 0, 0, 0, 0, 0, 0, 9, 0xFF] [] [] =
    Inr ([], [[1, 2, 3, 4, 5, 6, 7, 8], [0, 0, 0, 0, 0, 0, 0, 9]])"
  using serial_frames [of "[[1, 2, 3, 4, 5, 6, 7, 8], [0, 0, 0, 0, 0, 0, 0, 9]]"]
  by (simp add: BUF_LEN_def del: serial_loop.simps)

text \<open>
  A ninth byte without a separator is written behind the buffer, whatever came before.
\<close>

theorem serial_overrun:
  assumes "length f = BUF_LEN" "0xFF \<notin> set f" "c \<noteq> 0xFF"
  shows "serial_loop (f @ c # chs) [] [] = Inl Out_Of_Bounds"
proof -
  have "serial_loop (f @ c # chs) buf ps = Inl Out_Of_Bounds"
    if "0xFF \<notin> set f" "length buf + length f = BUF_LEN" for f buf ps
    using that
  proof (induction f arbitrary: buf ps)
    case Nil
    with assms(3) show ?case by simp
  next
    case (Cons d f)
    then show ?case by (auto simp: Let_def)
  qed
  with assms show ?thesis by simp
qed

theorem serial_overrun_witness: "serial_loop [1, 2, 3, 4, 5, 6, 7, 8, 9] [] [] = Inl Out_Of_Bounds"
  using serial_overrun [of "[1, 2, 3, 4, 5, 6, 7, 8]" 9 "[]"] by (simp add: BUF_LEN_def del: serial_loop.simps)

section \<open>The \<open>main\<close> functions\<close>

text \<open>\<open>test-notify.c\<close>: ten events per second unless the argument says otherwise.\<close>

definition notify_interval :: "string list \<Rightarrow> int res" where
  "notify_interval argv =
     (let speed = (if length argv = 2 then atoi (argv ! 1) else 10)
      in bindR (checkR (speed \<noteq> 0) Div_Zero) (\<lambda>_. Inr (c_div 1000000 speed)))"

fun notify_rounds :: "sizes \<Rightarrow> int list list \<Rightarrow> nqueue \<Rightarrow> nqueue res" where
  "notify_rounds z [] q = Inr q"
| "notify_rounds z (rands # rs) q = bindR (notify_round z rands q) (notify_rounds z rs)"

definition notify_main :: "files \<Rightarrow> string list \<Rightarrow> int list list \<Rightarrow> (int \<times> nqueue) res" where
  "notify_main fs argv rs =
     bindR (notify_interval argv) (\<lambda>interval.
     bindR (load_config fs ''/opt/gewuit/rfid/etc/merger.ini'' \<lparr>settings = [], saved_conf_file = None\<rparr>) (\<lambda>(ok, c).
     if \<not> ok then Inl Exited
     else bindR (own_load_configs (settings c)) (\<lambda>z.
       bindR (notify_rounds z rs nq_empty) (\<lambda>q. Inr (interval, q)))))"

text \<open>
  \<open>testclient.c\<close>: the value of \<open>init_send\<close> from the results of \<open>socket\<close> and \<open>connect\<close>, and what
  is sent until a \<open>send\<close> falls short, with the exit code.
\<close>

definition client_init :: "int \<Rightarrow> int \<Rightarrow> int" where
  "client_init sockfd connected = (if sockfd = - 1 then 1 else if connected = - 1 then 1 else 0)"

definition client_main :: "int \<Rightarrow> int \<Rightarrow> int list \<Rightarrow> int + uchar list list" where
  "client_main sockfd connected sends =
     (if client_init sockfd connected \<noteq> 0 then Inl 1 else Inr (client_loop sends client_buf))"

text \<open>\<open>serial-port/main.c\<close>: an exit code, or the packets read from the device.\<close>

definition serial_main :: "int \<Rightarrow> uchar list \<Rightarrow> (int + uchar list list) res" where
  "serial_main fd chs =
     (if fd = - 1 then Inr (Inl 1)
      else bindR (serial_loop chs [] []) (\<lambda>(_, ps). Inr (Inr ps)))"

text \<open>A speed that is no number divides by zero before anything is read.\<close>

lemma notify_main_zero: "atoi a = 0 \<Longrightarrow> notify_main fs [prog, a] rs = Inl Div_Zero"
  by (simp add: notify_main_def notify_interval_def)

text \<open>
  The queue of \<open>test-notify\<close> holds, for each round, the request that a made-up student came in
  followed by the request that the same student went out, for packets of at least two bytes.
\<close>

theorem test_notify_requests:
  assumes "notify_rounds z rs nq_empty = Inr q" "sizes_ok z" "2 \<le> PACKET_SIZE z"
    and "list_all (\<lambda>r. PACKET_SIZE z - 3 \<le> int (length r)) rs"
  shows "\<exists>ps. length ps = length rs \<and> list_all (check_packet z) ps \<and>
    nq_contents q = concat (map (\<lambda>p. request (sprint_buf p) True @ request (sprint_buf p) False) ps)"
proof -
  have "nq_inv q0 \<Longrightarrow> notify_rounds z rs q0 = Inr q \<Longrightarrow> \<exists>ps. length ps = length rs \<and> list_all (check_packet z) ps \<and>
    nq_contents q = nq_contents q0 @ concat (map (\<lambda>p. request (sprint_buf p) True @ request (sprint_buf p) False) ps)" for q0
    using assms(4)
  proof (induction rs arbitrary: q0)
    case (Cons r rs)
    obtain p where p: "gen_student_id (PACKET_SIZE z) r = Inr (sprint_buf p)" "int (length p) = PACKET_SIZE z" "xor_bytes p = 0"
      by (rule gen_student_id_ok [OF assms(3), of r]) (use Cons.prems(3) in simp_all)
    have e: "nq_entry (z, sprint_buf p, b)" for b using p(2) assms(2) by (simp add: sizes_ok_def)
    obtain q1 q2 where q: "notify z (sprint_buf p) True q0 = Inr q1" "notify z (sprint_buf p) False q1 = Inr q2"
      "notify_rounds z rs q2 = Inr q"
      using Cons.prems(2) p(1) own_notify_eq [of "sprint_buf p" z] e by (auto simp: notify_round_def)
    have q1: "nq_inv q1" "nq_contents q1 = nq_contents q0 @ request (sprint_buf p) True"
      using nq.enq_invar [OF Cons.prems(1) e, of True q1] nq.enq_contents [OF Cons.prems(1) e, of True q1] q(1) by simp_all
    have q2: "nq_inv q2" "nq_contents q2 = nq_contents q1 @ request (sprint_buf p) False"
      using nq.enq_invar [OF q1(1) e, of False q2] nq.enq_contents [OF q1(1) e, of False q2] q(2) by simp_all
    obtain ps where "length ps = length rs" "list_all (check_packet z) ps"
      "nq_contents q = nq_contents q2 @ concat (map (\<lambda>p. request (sprint_buf p) True @ request (sprint_buf p) False) ps)"
      using Cons.IH [OF q2(1) q(3)] Cons.prems(3) by auto
    moreover have "check_packet z p" using p(2,3) by (simp add: check_packet_iff)
    ultimately show ?case using q1(2) q2(2) by (intro exI [of _ "p # ps"]) simp
  qed simp
  from this [of nq_empty] assms(1) show ?thesis by (simp add: nq_inv_def nq_empty_def nq_contents_def)
qed

theorem test_notify_requests_witness:
  "\<exists>q. notify_rounds \<lparr>PACKET_SIZE = 3, ID_SIZE = 6, REQUEST_SIZE = 8\<rparr> [[]] nq_empty = Inr q \<and>
     nq_contents q = ''0101001.0101000.''"
proof -
  let ?z = "\<lparr>PACKET_SIZE = 3, ID_SIZE = 6, REQUEST_SIZE = 8\<rparr> :: sizes"
  have run: "case notify_rounds ?z [[]] nq_empty of Inl e \<Rightarrow> False | Inr q \<Rightarrow> nq_contents q = ''0101001.0101000.''" by code_simp
  then obtain q where q: "notify_rounds ?z [[]] nq_empty = Inr q" "nq_contents q = ''0101001.0101000.''"
    by (auto split: sum.splits)
  have "sizes_ok ?z" by (simp add: sizes_ok_def int_max_def)
  from test_notify_requests [OF q(1) this] have "\<exists>ps :: uchar list list. length ps = length [[] :: int list]" by auto
  with q show ?thesis by blast
qed

end
