(* ===== verification/Region_Draw.thy ===== *)
theory Region_Draw
  imports Region_Test
begin

text \<open>
  The drawing of \<open>region-test/main.c\<close> as a sequence of curses calls, with the part of the
  library that matters: the cursor, the colour pair in use and what each row shows. The bars
  on the screen are shown to follow the flags \<open>background\<close>.
\<close>

section \<open>Curses\<close>

datatype colour = BLACK | RED | GREEN | YELLOW | WHITE

datatype curses =
    Initscr | Endwin | Curs_Set int | Noecho | Start_Color | Init_Pair int colour colour
  | Attr_On int | Attr_Off int | Print_At int int string | Refresh

text \<open>
  The pair in use (0 for none), the cursor, and the column, text and pair of what was last
  printed in a row.
\<close>

record screen =
  pen :: int
  cursor :: "int \<times> int"
  rows :: "int \<Rightarrow> (int \<times> string \<times> int) option"

fun draw :: "curses \<Rightarrow> screen \<Rightarrow> screen" where
  "draw (Attr_On n) s = s\<lparr>pen := n\<rparr>"
| "draw (Attr_Off n) s = s\<lparr>pen := 0\<rparr>"
| "draw (Print_At y x t) s = s\<lparr>cursor := (y, x + int (length t)), rows := (rows s)(y \<mapsto> (x, t, pen s))\<rparr>"
| "draw _ s = s"

section \<open>The functions\<close>

text \<open>
  \<open>print_in_middle\<close>: rows and columns of 0 mean the cursor's, a width of 0 means 80. The
  column is computed from \<open>startx\<close> in any case.
\<close>

definition print_in_middle :: "int \<Rightarrow> int \<Rightarrow> int \<Rightarrow> string \<Rightarrow> int \<times> int \<Rightarrow> curses list" where
  "print_in_middle starty startx width t cur =
     (let y = (if starty \<noteq> 0 then starty else fst cur);
          w = (if width = 0 then 80 else width);
          temp = c_div (w - int (length t)) 2
      in [Print_At y (startx + temp) t, Refresh])"

definition bar_text :: "nat \<Rightarrow> string" where
  "bar_text line = (if line \<noteq> 0 then ''   slave    '' else ''   master   '')"

definition update_background :: "int \<Rightarrow> nat \<Rightarrow> bool \<Rightarrow> int \<times> int \<Rightarrow> curses list" where
  "update_background lines line onoff cur =
     (let color = (if onoff then int line + 2 else 1)
      in [Attr_On color] @ print_in_middle (c_div lines 2 + 2 * int line) 0 0 (bar_text line) cur @ [Attr_Off color])"

definition warn_log_deleted :: "int \<times> int \<Rightarrow> curses list" where
  "warn_log_deleted cur =
     [Attr_On 4] @ print_in_middle 4 0 0 ''WARNING: log file is deleted, please reopen this program'' cur @ [Attr_Off 4]"

text \<open>The calls of \<open>main\<close> before it creates its threads; the flag tells whether it goes on.\<close>

definition region_start :: "bool \<Rightarrow> int \<Rightarrow> bool \<times> curses list" where
  "region_start has_colors lines =
     (if \<not> has_colors then (False, [Initscr, Endwin])
      else (True, [Initscr, Curs_Set 0, Noecho, Start_Color, Init_Pair 1 BLACK WHITE, Init_Pair 2 BLACK GREEN,
          Init_Pair 3 BLACK YELLOW, Init_Pair 4 RED WHITE, Attr_On 1] @
        print_in_middle 1 0 0 ''master and slave bars background is colored if receiving'' (0, 0) @
        print_in_middle 2 0 0 ''Press 'q' to quit'' (0, 0) @ [Attr_Off 1] @
        update_background lines MASTER False (0, 0) @ update_background lines SLAVE False (0, 0)))"

text \<open>The loop over the keys: whether \<open>q\<close> was among them, which ends the program.\<close>

fun wait_quit :: "string \<Rightarrow> bool" where
  "wait_quit [] = False"
| "wait_quit (c # cs) = (if c = CHR ''q'' then True else wait_quit cs)"

text \<open>The calls of \<open>update_background\<close> the two threads make, one after the other.\<close>

definition switch :: "int \<Rightarrow> nat \<times> bool \<Rightarrow> screen \<Rightarrow> screen" where
  "switch lines c s = fold draw (update_background lines (fst c) (snd c) (cursor s)) s"

section \<open>What is on the screen\<close>

definition blank :: screen where
  "blank = \<lparr>pen = 0, cursor = (0, 0), rows = Map.empty\<rparr>"

definition bar_row :: "int \<Rightarrow> nat \<Rightarrow> int" where
  "bar_row lines line = c_div lines 2 + 2 * int line"

text \<open>The bars show the flags, each in its row, centred, in its colour pair or in black on white.\<close>

definition on_screen :: "int \<Rightarrow> screen \<Rightarrow> bool list \<Rightarrow> bool" where
  "on_screen lines s bg \<longleftrightarrow> length bg = 2 \<and> pen s = 0 \<and> (\<forall>d<2. rows s (bar_row lines d) =
     Some (34, bar_text d, if bg ! d then int d + 2 else 1))"

lemma bar_row_pos: "2 \<le> lines \<Longrightarrow> bar_row lines d \<noteq> 0"
  by (simp add: bar_row_def c_div_def)

lemma print_bar:
  "2 \<le> lines \<Longrightarrow> print_in_middle (bar_row lines d) 0 0 (bar_text d) cur = [Print_At (bar_row lines d) 34 (bar_text d), Refresh]"
  using bar_row_pos [of lines d] by (simp add: print_in_middle_def bar_text_def c_div_def)

lemma switch_effect:
  assumes "2 \<le> lines"
  shows "switch lines (d, b) s = s\<lparr>pen := 0, cursor := (bar_row lines d, 34 + int (length (bar_text d))),
    rows := (rows s)(bar_row lines d \<mapsto> (34, bar_text d, if b then int d + 2 else 1))\<rparr>"
  using print_bar [OF assms, of d] by (simp add: switch_def update_background_def Let_def flip: bar_row_def)

lemma switch_on_screen:
  assumes "2 \<le> lines" "on_screen lines s bg" "d < 2"
  shows "on_screen lines (switch lines (d, b) s) (bg[d := b])"
  using assms by (auto simp: on_screen_def switch_effect bar_row_def nth_list_update)

lemma start_on_screen:
  assumes "2 \<le> lines"
  shows "on_screen lines (fold draw (snd (region_start True lines)) blank) [False, False]"
proof -
  have two: "d < 2 \<Longrightarrow> d = 0 \<or> d = 1" for d :: nat by auto
  note b = print_bar [OF assms, of MASTER "(0, 0)"] print_bar [OF assms, of SLAVE "(0, 0)"]
  show ?thesis
    unfolding region_start_def update_background_def bar_row_def [symmetric] b
    by (auto simp: on_screen_def blank_def print_in_middle_def Let_def MASTER_def SLAVE_def bar_row_def dest!: two)
qed

section \<open>Properties\<close>



text \<open>
  Neither thread locks the screen. When the timer switches the slave's bar off between the two
  calls with which the updater chooses its colour and prints the master's bar, the master's
  bar is drawn without a colour.
\<close>

lemma interleaved_colours:
  assumes "2 \<le> lines"
  shows "rows (fold draw (Attr_On 2 # update_background lines SLAVE False cur @
      print_in_middle (bar_row lines MASTER) 0 0 (bar_text MASTER) cur @ [Attr_Off 2]) s) (bar_row lines MASTER) =
    Some (34, bar_text MASTER, 0)"
  using print_bar [OF assms, of MASTER cur] print_bar [OF assms, of SLAVE cur]
  by (simp add: update_background_def Let_def MASTER_def SLAVE_def flip: bar_row_def)

end
