(* ===== verification/Spec2Isabelle.thy ===== *)
theory Spec2Isabelle
  imports Delivery Merger_Threads Merger_Log Start Reload Bus_Race Watchdog Send_Nrf Tools Region_Draw
begin

text \<open>
  This development models a radio gate for student cards. Receivers (\<open>receive/\<close>) read card
  packets from an nRF24L01 chip and send them to a merger; the merger (\<open>merger/\<close>) decides
  from the order in which its two receivers, master and slave, saw a card whether its owner
  came in or went out, and notifies a cloud server. \<open>common/\<close> holds what both share;
  \<open>send/\<close>, \<open>serial-port/\<close>, \<open>region-test/\<close> and some programs beside the main ones are tools.

  Conventions. Results of C code are \<open>fault + 'a\<close>: out-of-bounds accesses, bad pointers,
  signed overflow, division by zero, \<open>exit\<close> and loops that do not return are values
  (\<open>C_Prelude\<close>). Bytes are \<open>8 word\<close>, \<open>unsigned\<close> and \<open>size_t\<close> are \<open>32 word\<close>, \<open>int\<close> is
  HOL's \<open>int\<close> with the range checked by \<open>c_int\<close>: the target is 32-bit ARM Linux. Whether a
  plain \<open>char\<close> is signed is the parameter \<open>schar\<close>. The kernel, the network, the clock, the
  chip and the file system are arguments: lists of outcomes of \<open>recv\<close> and \<open>send\<close>, records of
  what one iteration's system calls report, functions from the trace of bus operations to
  the bytes a chip returns. A setting is looked up where the code looks it up, so a
  configuration may change between steps.

  Theories and sources:
    \<^item> \<open>C_Prelude\<close>: results, \<open>int\<close>, \<open>atoi\<close>, \<open>strstr\<close>, buffers; the interfaces \<open>append_queue\<close>
      (a queue that is only appended to), \<open>codec\<close> (printing and reading) and \<open>simulation\<close>
      (a machine that follows an abstract one).
    \<^item> \<open>Hex\<close>, \<open>Config\<close>, \<open>Dict\<close>, \<open>Net\<close>, \<open>Http\<close>, \<open>Process\<close>, \<open>Reload\<close>, \<open>Logging\<close>: \<open>common/common.c\<close>,
      \<open>common.h\<close>, \<open>config.c\<close>, \<open>dict.c\<close>, \<open>http.c\<close> and the hexadecimal settings of
      \<open>receive/helper.c\<close>. The dictionary is a linked list in an explicit heap with \<open>malloc\<close> and
      \<open>free\<close>, with the interface \<open>heap_map\<close>.
    \<^item> \<open>Student\<close>, \<open>Merger_Timeout\<close>, \<open>Merger_Server\<close>, \<open>Merger_Sender\<close>, \<open>Watchdog\<close>: the threads of
      \<open>merger/\<close>; \<open>Merger_Spec\<close> their abstract specification, the \<open>gate\<close>; \<open>Merger_Races\<close> the
      parts that take no lock, \<open>Merger_System\<close> and \<open>Merger_Threads\<close> the threads together.
    \<^item> \<open>Spi_Bus\<close>, \<open>Nrf\<close>, \<open>Receiver\<close>, \<open>Recv_Sender\<close>: the receiver, from the pins of the chip to
      the connection to the merger; \<open>Bus_Race\<close> an interrupt during a bus access;
      \<open>Receiver_Test\<close>: \<open>receive/test.c\<close>, \<open>sms.c\<close> and \<open>search-channel.c\<close>.
    \<^item> \<open>Start\<close>: the \<open>main\<close> functions of the merger and of the receiver programs.
    \<^item> \<open>Send_Nrf\<close>, \<open>Tools\<close>, \<open>Region_Test\<close>, \<open>Region_Draw\<close>: the transmitter of \<open>send/\<close>, the
      programs that make up data, the serial reader, and the display that follows the merger's
      log; \<open>Merger_Log\<close> what the merger writes there.
    \<^item> \<open>End_To_End\<close>, \<open>Delivery\<close> and this theory: receiver and merger together, without and with
      broken connections.

  State. The merger's globals are the record \<open>merger\<close> (heap, the dictionaries \<open>students\<close> and
  \<open>timers\<close>, the notification queue), those of the server thread \<open>server\<close>, of the sender
  \<open>sender\<close>. The receiver's are \<open>nrf\<close> (driver and bus trace), \<open>rqueue\<close> (the queue the interrupt
  handler fills), \<open>rsender\<close> (statics of the sender thread). Functions are named as in the
  sources; a loop body or a label is a definition of its own where the code jumps to it.

  Threads. A section under a lock is one step. The receiver's sender thread and its interrupt
  handler are the step relation \<open>rx_step\<close>, the merger's sender thread and whoever notifies
  \<open>sys_step\<close>; server and timeout thread take turns in \<open>cstep\<close>, a packet or a run of the
  timers at a time. Where the sources take no lock, the parts are steps of their own:
  \<open>race_step\<close> splits a detection into the read of the state, the store and the timer, with
  runs of the timers in between. \<open>m_step\<close> interleaves packets, the single iterations of a walk
  over the timers, which keeps \<open>lock_timers\<close> but the queue's lock only while it notifies, and
  the parts of a commit, beside the gate; \<open>t_step\<close> has all of these parts, those of a detection
  included, in any order the locks allow. An operation on a dictionary is one step there;
  \<open>walk\<close> follows a lookup over a deletion. \<open>interrupted_write\<close> puts the interrupt handler
  between the two bytes of a register access.

  What is shown. The merger refines the gate for every sequence of packets and timer runs
  (\<open>merger_implements_gate\<close>), and for every interleaving of the parts in which no timer run
  expires the student in hand (\<open>detections_linearize\<close>); when one does, nothing is damaged
  (\<open>interleaving_safe\<close>) but a passage may be told twice (\<open>stale_state_renotifies\<close>). Under every
  schedule of all threads memory is safe, walks end and requests are conserved
  (\<open>threads_safe\<close>, \<open>walk_ends\<close>, \<open>threads_conserve\<close>). The
  judgement is the comparison of majorities (\<open>judge_correct\<close>) over the bit fields
  (\<open>run_fields\<close>). No notification is lost, doubled or cut on its way to the cloud
  (\<open>requests_conserved\<close>), no packet on its way to the merger (\<open>packets_in_order\<close>,
  \<open>delivered_in_order\<close>); together they carry a card from the interrupt handler to its history
  (\<open>on_irq_queues\<close>, \<open>end_to_end\<close>) and a verdict from there to the cloud
  (\<open>verdicts_conserved\<close>). The driver leaves the chip as configured and tuned to the channel it
  puts in front of the packets (\<open>init_configures\<close>, \<open>channel_round_tuned\<close>), and uses the bus in
  order, unless an interrupt comes in between (\<open>irq_spoils_channel\<close>). The HTTP client sends
  requests that decode to the data and returns the payload of any well-behaved response. The
  programs start with the state the invariants ask for (\<open>merger_main_ready\<close>) and the receiver
  restarts with its descriptors closed (\<open>receiver_restarts\<close>); a lookup during a reload finds
  an old or a new value (\<open>lookup_during_reload\<close>). The lemmas in front of each
  property are the invariants and the behaviour of the operations on every branch. Where the
  code can fail, the failing inputs are stated too: \<open>init_returns\<close>, \<open>http_request_complete\<close>,
  \<open>stale_header_exits\<close>, \<open>reload_exhausts\<close>, \<open>unaligned_batch_splits\<close>, \<open>checksum_selects_channel\<close>, and lemmas such as
  \<open>Tools.serial_overrun\<close>, \<open>Config.long_key_overruns\<close>, \<open>Send_Nrf.send_reuses_reply\<close>,
  \<open>Nrf.single_channel_spins\<close>, \<open>Region_Test.timer_overflows\<close>, \<open>Merger_Spec.repeats_hide_passage\<close>.

  Fuel. The loops over the dictionary take the number of heap cells as fuel, which every
  list of distinct cells fits, so \<open>No_Return\<close> does not occur in a well-formed heap
  (\<open>dict_get\<close> and the others are shown to return). The fuel of \<open>init_loop\<close> is the number of
  passes allowed; \<open>init_returns\<close> says when one is enough and when no number is. A list of
  outcomes that runs out stands for a call that blocks. The other recursions are structural
  or have a measure.

  Not modelled: failures of \<open>pthread_create\<close> and \<open>pthread_mutex_init\<close>, which no program looks
  at; what C leaves open when two threads touch the same memory at once (a part of a step is
  taken to see the memory before or after another part, and beyond \<open>get_over_delete\<close> an
  operation on a dictionary to be whole); the rates \<open>send/main.c\<close> and \<open>serial-port/main.c\<close> print as
  floating-point numbers; inotify and the terminal behind \<open>region-test/\<close>; the Makefiles and
  the deployment scripts.
\<close>

section \<open>From the receiver to the histories\<close>

text \<open>
  C2: end to end, from the interrupt handler of a receiver to the histories of the students:
  when the merger has read what the sender thread sent successfully - in whatever pieces it
  arrived, heartbeats included - the history of every student has grown by exactly one
  detection of that receiver's side per packet sent that names the student and counts. A
  full heap, which stops the process, is the only other outcome.
\<close>

theorem end_to_end:
  assumes "rx_reach schar (packet_buf P) (width_conf P) t" "0 < P"
    and "sizes_ok z" "PACKET_SIZE z = int P" "tracks z g st" "i < 2"
    and "clean (sock_in sv (fds sv ! i))" "pending (sock_in sv (fds sv ! i)) = concat (map snd (out t))"
    and "length (concat (map snd (out t))) = length ticks * P" "list_all c_time ticks"
  shows "msg_loop cs z (map (readable i) ticks) sv st = Inl Exited \<or>
    (\<exists>sv' st' g'. msg_loop cs z (map (readable i) ticks) sv st = Inr (Continue sv' st') \<and>
       pending (sock_in sv' (fds sv' ! i)) = [] \<and> tracks z g' st' \<and>
       (\<forall>k. hist g' k = hist g k @
          replicate (length (filter (\<lambda>p. counts cs p \<and> sprint_buf p = k) (chop P (sent_data (out t))))) (i = 1)))"
proof -
  let ?s = "concat (map snd (out t))"
  have "\<forall>(h, b)\<in>set (out t). P dvd length b \<and> (h \<longrightarrow> list_all (\<lambda>x. x = 0) b)"
    using rx_reach_aligned [OF assms(1)] rx_reach_beats [OF assms(1)]
    by (auto simp: aligned_def beats_zero_def)
  note packets = filter_counts [OF stream_detections [OF this, of cs]]
  have "length (chop P ?s) = length ticks" by (rule length_chop [OF assms(2,9)])
  then have h: "\<forall>k. hist (fold (record_packet cs (i = 1)) (zip (chop P ?s) ticks) g) k = hist g k @
      replicate (length (filter (\<lambda>p. counts cs p \<and> sprint_buf p = k) (chop P (sent_data (out t))))) (i = 1)"
    by (simp add: hist_record packets)
  have "length (pending (sock_in sv (fds sv ! i))) = length ticks * P" unfolding assms(8) by (rule assms(9))
  from msg_loop_gate [OF assms(3,4,2,6,5,7) this assms(10), of cs, unfolded assms(8)] h show ?thesis by blast
qed

text \<open>A packet and a heartbeat of two bytes arrive in three pieces and an interrupted call.\<close>

definition slave_server :: server where
  "slave_server = \<lparr>fds = [- 1, 8, 3], sock_in = (\<lambda>_. [Arrive [5], Interrupted, Arrive [6, 0], Arrive [0]]),
     closed = [], receiver_alive = [False, False]\<rparr>"

definition two_bytes :: sizes where
  "two_bytes = \<lparr>PACKET_SIZE = 2, ID_SIZE = 4, REQUEST_SIZE = 6\<rparr>"

theorem end_to_end_witness:
  "\<exists>sv' st' g'. msg_loop [] two_bytes (map (readable 1) [7, 8]) slave_server small_merger = Inr (Continue sv' st') \<and>
     tracks two_bytes g' st' \<and> hist g' ''0506'' = [True]"
proof -
  have cs: "width_conf 2 rx_conf" by code_simp
  obtain t t1 t2 where t: "rx_reach False (packet_buf 2) (width_conf 2) t"
    "cron_rx False rx_conf open_env good_env 9 t = Inr t1"
    "cron_rx False rx_conf open_env good_env 9 t1 = Inr t2" "out t2 = [(False, [5, 6]), (True, [0, 0])]"
    by (rule retry_then_send)
  have r: "rx_reach False (packet_buf 2) (width_conf 2) t2"
    using t(2,3) cs by (intro rx_reach.onward [OF rx_reach.onward [OF t(1)]]) (auto intro: rx_step.Cron)
  have z: "sizes_ok two_bytes" "PACKET_SIZE two_bytes = int 2"
    by (simp_all add: two_bytes_def sizes_ok_def int_max_def)
  have c: "clean (sock_in slave_server (fds slave_server ! 1))"
    "pending (sock_in slave_server (fds slave_server ! 1)) = concat (map snd (out t2))"
    "length (concat (map snd (out t2))) = length [7, 8 :: int] * 2" "list_all c_time [7, 8]"
    using t(4) by (simp_all add: slave_server_def c_time_def int_max_def)
  have run: "case msg_loop [] two_bytes (map (readable 1) [7, 8]) slave_server small_merger of
      Inl e \<Rightarrow> False | Inr x \<Rightarrow> True" by code_simp
  have n: "length (filter (\<lambda>p. counts [] p \<and> sprint_buf p = ''0506'') (chop 2 (sent_data (out t2)))) = 1"
    using t(4) by (simp add: sent_data_def chop.simps) code_simp
  have "\<not> msg_loop [] two_bytes (map (readable 1) [7, 8]) slave_server small_merger = Inl Exited"
    using run by (metis sum.case(1))
  with end_to_end [OF r _ z init_tracks [OF small_merger_init] _ c, of "[]"] obtain sv' st' g' where
    e: "msg_loop [] two_bytes (map (readable 1) [7, 8]) slave_server small_merger = Inr (Continue sv' st')"
      "tracks two_bytes g' st'" "hist g' ''0506'' = hist init_gate ''0506'' @
         replicate (length (filter (\<lambda>p. counts [] p \<and> sprint_buf p = ''0506'') (chop 2 (sent_data (out t2))))) True"
    by fastforce
  from e(3) have "hist g' ''0506'' = [True]" unfolding n by (simp add: init_gate_def)
  with e(1,2) show ?thesis by blast
qed

text \<open>
  The checksum of a packet covers the channel the receiver was on: of all the channels it
  listens to, only the one equal to the exclusive or of what the card sent makes the packet valid.
\<close>

theorem checksum_selects_channel:
  assumes "PACKET_SIZE z = int (length (ch # payload))"
  shows "check_packet z (ch # payload) \<longleftrightarrow> ch = xor_bytes payload"
  using assms by (simp add: check_packet_iff xor_bytes_simps xor_eq_0_iff)

theorem checksum_selects_channel_witness:
  "check_packet \<lparr>PACKET_SIZE = 3, ID_SIZE = 6, REQUEST_SIZE = 8\<rparr> [3, 1, 2]"
  using checksum_selects_channel [of "\<lparr>PACKET_SIZE = 3, ID_SIZE = 6, REQUEST_SIZE = 8\<rparr>" 3 "[1, 2]"]
  by (simp add: xor_bytes_simps)

end
